(* ===== verification/Prelude.thy ===== *)
theory Prelude
  imports Main "HOL-Library.Word" "HOL-Library.Monad_Syntax"
begin

text \<open>
  Shared vocabulary of the development: the types that stand for C scalars and bytes, the way a
  kernel routine fails to return a value, and the generic lemmas the components share.

  A routine of the kernel that may stop (a failed \<^verbatim>\<open>ASSERT\<close>, a \<^verbatim>\<open>PANIC\<close>, an access outside an
  object, a loop that runs forever) has an \<open>option\<close> result: \<open>None\<close> means that it does not return
  to its caller. Errors that the code reports to its caller (a null pointer, \<open>false\<close>, \<open>-1\<close>) are
  ordinary values inside \<open>Some\<close>.
\<close>

section \<open>C scalars\<close>

type_synonym u8 = "8 word"
type_synonym u32 = "32 word"
type_synonym u64 = "64 word"
type_synonym addr = nat

abbreviation NULL :: addr where
  "NULL \<equiv> 0"

text \<open>Arithmetic on \<^verbatim>\<open>size_t\<close> and \<^verbatim>\<open>unsigned\<close> wraps at 32 bits.\<close>

definition sz :: "nat \<Rightarrow> nat" where
  "sz n = n mod 2 ^ 32"

lemma sz_id [simp]: "n < 2 ^ 32 \<Longrightarrow> sz n = n"
  by (simp add: sz_def)

lemma sz_less [simp]: "sz n < 2 ^ 32"
  by (simp add: sz_def)

lemma sz_le [simp]: "sz n \<le> n"
  by (simp add: sz_def)

section \<open>Routines that may not return\<close>

definition assertO :: "bool \<Rightarrow> unit option" where
  "assertO b = (if b then Some () else None)"

named_theorems monad_simps \<open>sequencing of routines that may not return\<close>

lemma assertO_eq_Some [simp]: "assertO b = Some u \<longleftrightarrow> b"
  by (auto simp: assertO_def)

lemma assertO_eq_None [simp]: "assertO b = None \<longleftrightarrow> \<not> b"
  by (auto simp: assertO_def)

lemma assertO_True [simp, monad_simps]: "assertO True = Some ()"
  by (simp add: assertO_def)

lemma assertO_False [simp, monad_simps]: "assertO False = None"
  by (simp add: assertO_def)

lemma bind_Some_iff [monad_simps]: "Option.bind m f = Some y \<longleftrightarrow> (\<exists>x. m = Some x \<and> f x = Some y)"
  by (cases m) auto

section \<open>Arrays\<close>

text \<open>An array is a list; reading or writing outside it does not return.\<close>

definition idx_get :: "'a list \<Rightarrow> nat \<Rightarrow> 'a option" where
  "idx_get xs i = (if i < length xs then Some (xs ! i) else None)"

definition idx_set :: "'a list \<Rightarrow> nat \<Rightarrow> 'a \<Rightarrow> 'a list option" where
  "idx_set xs i v = (if i < length xs then Some (xs[i := v]) else None)"

lemma idx_get_Some [simp]: "idx_get xs i = Some x \<longleftrightarrow> i < length xs \<and> x = xs ! i"
  by (auto simp: idx_get_def)

lemma idx_set_Some [simp]: "idx_set xs i v = Some ys \<longleftrightarrow> i < length xs \<and> ys = xs[i := v]"
  by (auto simp: idx_set_def)

lemma idx_get_in [simp]: "i < length xs \<Longrightarrow> idx_get xs i = Some (xs ! i)"
  by simp

lemma idx_set_in [simp]: "i < length xs \<Longrightarrow> idx_set xs i v = Some (xs[i := v])"
  by simp

section \<open>Pieces of arrays\<close>

text \<open>\<open>splice_bytes old ofs new\<close> is \<open>old\<close> with \<open>new\<close> in place of what was at \<open>ofs\<close>.\<close>

definition splice_bytes :: "'a list \<Rightarrow> nat \<Rightarrow> 'a list \<Rightarrow> 'a list" where
  "splice_bytes old ofs new = take ofs old @ new @ drop (ofs + length new) old"

lemma splice_bytes_length [simp]: "ofs + length new \<le> length old \<Longrightarrow> length (splice_bytes old ofs new) = length old"
  by (simp add: splice_bytes_def)

lemma splice_nth:
  assumes "p + length xs \<le> length ys" "j < length ys"
  shows "splice_bytes ys p xs ! j = (if p \<le> j \<and> j < p + length xs then xs ! (j - p) else ys ! j)"
  using assms by (auto simp: splice_bytes_def nth_append)

lemma splice_splice:
  assumes "a + length xs + length ys \<le> length buf"
  shows "splice_bytes (splice_bytes buf a xs) (a + length xs) ys = splice_bytes buf a (xs @ ys)"
  using assms by (simp add: splice_bytes_def add_ac)

lemma splice_nil [simp]: "splice_bytes buf a [] = buf"
  by (simp add: splice_bytes_def)

lemma take_split: "k \<le> l \<Longrightarrow> take k (drop a xs) @ take (l - k) (drop (a + k) xs) = take l (drop a xs)"
  by (metis add.commute drop_drop le_add_diff_inverse take_add)

end
