(* ===== verification/Klist.thy ===== *)
theory Klist
  imports Prelude
begin

text \<open>
  The kernel's intrusive doubly linked lists, lib/kernel/list.c and list.h.

  A \<^verbatim>\<open>struct list_elem\<close> is an address; the heap gives the \<^verbatim>\<open>prev\<close> and \<^verbatim>\<open>next\<close> members at
  every address. A \<^verbatim>\<open>struct list\<close> at address \<open>l\<close> holds its \<^verbatim>\<open>head\<close> element at \<open>l\<close> and its
  \<^verbatim>\<open>tail\<close> element eight bytes later. The result \<open>None\<close> means that the call does not return: an
  \<^verbatim>\<open>ASSERT\<close> failed, a null pointer was followed, or a loop ran forever. A comparison function
  together with its \<^verbatim>\<open>aux\<close> argument is a parameter \<open>lt\<close> on element addresses.
\<close>

section \<open>The code\<close>

record lheap =
  prev_of :: "addr \<Rightarrow> addr"
  next_of :: "addr \<Rightarrow> addr"

definition set_prev :: "lheap \<Rightarrow> addr \<Rightarrow> addr \<Rightarrow> lheap" where
  "set_prev h a v = h\<lparr>prev_of := (prev_of h)(a := v)\<rparr>"

definition set_next :: "lheap \<Rightarrow> addr \<Rightarrow> addr \<Rightarrow> lheap" where
  "set_next h a v = h\<lparr>next_of := (next_of h)(a := v)\<rparr>"

definition head_addr :: "addr \<Rightarrow> addr" where
  "head_addr l = l"

definition tail_addr :: "addr \<Rightarrow> addr" where
  "tail_addr l = l + 8"

definition is_head :: "lheap \<Rightarrow> addr \<Rightarrow> bool" where
  "is_head h e \<longleftrightarrow> e \<noteq> NULL \<and> prev_of h e = NULL \<and> next_of h e \<noteq> NULL"

definition is_interior :: "lheap \<Rightarrow> addr \<Rightarrow> bool" where
  "is_interior h e \<longleftrightarrow> e \<noteq> NULL \<and> prev_of h e \<noteq> NULL \<and> next_of h e \<noteq> NULL"

definition is_tail :: "lheap \<Rightarrow> addr \<Rightarrow> bool" where
  "is_tail h e \<longleftrightarrow> e \<noteq> NULL \<and> prev_of h e \<noteq> NULL \<and> next_of h e = NULL"

definition list_init :: "lheap \<Rightarrow> addr \<Rightarrow> lheap option" where
  "list_init h l = do {
     assertO (l \<noteq> NULL);
     let h = set_prev h (head_addr l) NULL;
     let h = set_next h (head_addr l) (tail_addr l);
     let h = set_prev h (tail_addr l) (head_addr l);
     Some (set_next h (tail_addr l) NULL) }"

definition list_begin :: "lheap \<Rightarrow> addr \<Rightarrow> addr option" where
  "list_begin h l = do { assertO (l \<noteq> NULL); Some (next_of h (head_addr l)) }"

definition list_next :: "lheap \<Rightarrow> addr \<Rightarrow> addr option" where
  "list_next h e = do { assertO (is_head h e \<or> is_interior h e); Some (next_of h e) }"

definition list_end :: "addr \<Rightarrow> addr option" where
  "list_end l = do { assertO (l \<noteq> NULL); Some (tail_addr l) }"

definition list_rbegin :: "lheap \<Rightarrow> addr \<Rightarrow> addr option" where
  "list_rbegin h l = do { assertO (l \<noteq> NULL); Some (prev_of h (tail_addr l)) }"

definition list_prev :: "lheap \<Rightarrow> addr \<Rightarrow> addr option" where
  "list_prev h e = do { assertO (is_interior h e \<or> is_tail h e); Some (prev_of h e) }"

definition list_rend :: "addr \<Rightarrow> addr option" where
  "list_rend l = do { assertO (l \<noteq> NULL); Some (head_addr l) }"

definition list_head :: "addr \<Rightarrow> addr option" where
  "list_head l = do { assertO (l \<noteq> NULL); Some (head_addr l) }"

definition list_tail :: "addr \<Rightarrow> addr option" where
  "list_tail l = do { assertO (l \<noteq> NULL); Some (tail_addr l) }"

definition list_insert :: "lheap \<Rightarrow> addr \<Rightarrow> addr \<Rightarrow> lheap option" where
  "list_insert h before e = do {
     assertO (is_interior h before \<or> is_tail h before);
     assertO (e \<noteq> NULL);
     let h = set_prev h e (prev_of h before);
     let h = set_next h e before;
     let h = set_next h (prev_of h before) e;
     Some (set_prev h before e) }"

definition list_splice :: "lheap \<Rightarrow> addr \<Rightarrow> addr \<Rightarrow> addr \<Rightarrow> lheap option" where
  "list_splice h before first lst = do {
     assertO (is_interior h before \<or> is_tail h before);
     if first = lst then Some h
     else do {
       lst \<leftarrow> list_prev h lst;
       assertO (is_interior h first);
       assertO (is_interior h lst);
       let h = set_next h (prev_of h first) (next_of h lst);
       let h = set_prev h (next_of h lst) (prev_of h first);
       let h = set_prev h first (prev_of h before);
       let h = set_next h lst before;
       let h = set_next h (prev_of h before) first;
       Some (set_prev h before lst) } }"

definition list_push_front :: "lheap \<Rightarrow> addr \<Rightarrow> addr \<Rightarrow> lheap option" where
  "list_push_front h l e = do { b \<leftarrow> list_begin h l; list_insert h b e }"

definition list_push_back :: "lheap \<Rightarrow> addr \<Rightarrow> addr \<Rightarrow> lheap option" where
  "list_push_back h l e = do { b \<leftarrow> list_end l; list_insert h b e }"

definition list_remove :: "lheap \<Rightarrow> addr \<Rightarrow> (addr \<times> lheap) option" where
  "list_remove h e = do {
     assertO (is_interior h e);
     let h = set_next h (prev_of h e) (next_of h e);
     let h = set_prev h (next_of h e) (prev_of h e);
     Some (next_of h e, h) }"

definition list_empty :: "lheap \<Rightarrow> addr \<Rightarrow> bool option" where
  "list_empty h l = do { b \<leftarrow> list_begin h l; e \<leftarrow> list_end l; Some (b = e) }"

definition list_front :: "lheap \<Rightarrow> addr \<Rightarrow> addr option" where
  "list_front h l = do { em \<leftarrow> list_empty h l; assertO (\<not> em); Some (next_of h (head_addr l)) }"

definition list_back :: "lheap \<Rightarrow> addr \<Rightarrow> addr option" where
  "list_back h l = do { em \<leftarrow> list_empty h l; assertO (\<not> em); Some (prev_of h (tail_addr l)) }"

definition list_pop_front :: "lheap \<Rightarrow> addr \<Rightarrow> (addr \<times> lheap) option" where
  "list_pop_front h l = do {
     front \<leftarrow> list_front h l;
     (_, h) \<leftarrow> list_remove h front;
     Some (front, h) }"

definition list_pop_back :: "lheap \<Rightarrow> addr \<Rightarrow> (addr \<times> lheap) option" where
  "list_pop_back h l = do {
     back \<leftarrow> list_back h l;
     (_, h) \<leftarrow> list_remove h back;
     Some (back, h) }"

partial_function (option) size_loop :: "lheap \<Rightarrow> addr \<Rightarrow> addr \<Rightarrow> nat \<Rightarrow> nat option" where
  "size_loop h e lend cnt =
     (if e = lend then Some cnt
      else do { e \<leftarrow> list_next h e; size_loop h e lend (cnt + 1) })"

definition list_size :: "lheap \<Rightarrow> addr \<Rightarrow> nat option" where
  "list_size h l = do { b \<leftarrow> list_begin h l; lend \<leftarrow> list_end l; size_loop h b lend 0 }"

text \<open>\<^verbatim>\<open>swap (&e->prev, &e->next)\<close>; the other two calls of \<^verbatim>\<open>swap\<close> are written out where they occur.\<close>

definition swap_links :: "lheap \<Rightarrow> addr \<Rightarrow> lheap" where
  "swap_links h e = (let t = prev_of h e; h = set_prev h e (next_of h e) in set_next h e t)"

partial_function (option) reverse_loop :: "lheap \<Rightarrow> addr \<Rightarrow> addr \<Rightarrow> lheap option" where
  "reverse_loop h e lend =
     (if e = lend then Some h
      else do {
        assertO (e \<noteq> NULL);
        let h = swap_links h e;
        reverse_loop h (prev_of h e) lend })"

definition list_reverse :: "lheap \<Rightarrow> addr \<Rightarrow> lheap option" where
  "list_reverse h l = do {
     em \<leftarrow> list_empty h l;
     if em then Some h
     else do {
       b \<leftarrow> list_begin h l;
       lend \<leftarrow> list_end l;
       h \<leftarrow> reverse_loop h b lend;
       let t = next_of h (head_addr l);
       let h = set_next h (head_addr l) (prev_of h (tail_addr l));
       let h = set_prev h (tail_addr l) t;
       let p = next_of h (head_addr l);
       let q = prev_of h (tail_addr l);
       assertO (p \<noteq> NULL \<and> q \<noteq> NULL);
       let t = prev_of h p;
       let h = set_prev h p (next_of h q);
       Some (set_next h q t) } }"

partial_function (option) is_sorted_loop ::
  "lheap \<Rightarrow> (addr \<Rightarrow> addr \<Rightarrow> bool) \<Rightarrow> addr \<Rightarrow> addr \<Rightarrow> bool option" where
  "is_sorted_loop h lt a b = do {
     a \<leftarrow> list_next h a;
     if a = b then Some True
     else do {
       p \<leftarrow> list_prev h a;
       if lt a p then Some False else is_sorted_loop h lt a b } }"

definition is_sorted :: "lheap \<Rightarrow> (addr \<Rightarrow> addr \<Rightarrow> bool) \<Rightarrow> addr \<Rightarrow> addr \<Rightarrow> bool option" where
  "is_sorted h lt a b = (if a \<noteq> b then is_sorted_loop h lt a b else Some True)"

partial_function (option) run_loop ::
  "lheap \<Rightarrow> (addr \<Rightarrow> addr \<Rightarrow> bool) \<Rightarrow> addr \<Rightarrow> addr \<Rightarrow> addr option" where
  "run_loop h lt a b = do {
     a \<leftarrow> list_next h a;
     if a \<noteq> b
     then do { p \<leftarrow> list_prev h a; if \<not> lt a p then run_loop h lt a b else Some a }
     else Some a }"

definition find_end_of_run ::
  "lheap \<Rightarrow> (addr \<Rightarrow> addr \<Rightarrow> bool) \<Rightarrow> addr \<Rightarrow> addr \<Rightarrow> addr option" where
  "find_end_of_run h lt a b = do {
     assertO (a \<noteq> NULL);
     assertO (b \<noteq> NULL);
     assertO (a \<noteq> b);
     run_loop h lt a b }"

partial_function (option) merge_loop ::
  "lheap \<Rightarrow> (addr \<Rightarrow> addr \<Rightarrow> bool) \<Rightarrow> addr \<Rightarrow> addr \<Rightarrow> addr \<Rightarrow> lheap option" where
  "merge_loop h lt a0 a1b0 b1 =
     (if a0 \<noteq> a1b0 \<and> a1b0 \<noteq> b1
      then if \<not> lt a1b0 a0
           then do { a0 \<leftarrow> list_next h a0; merge_loop h lt a0 a1b0 b1 }
           else do {
             a1b0 \<leftarrow> list_next h a1b0;
             p \<leftarrow> list_prev h a1b0;
             h \<leftarrow> list_splice h a0 p a1b0;
             merge_loop h lt a0 a1b0 b1 }
      else Some h)"

definition inplace_merge ::
  "lheap \<Rightarrow> (addr \<Rightarrow> addr \<Rightarrow> bool) \<Rightarrow> addr \<Rightarrow> addr \<Rightarrow> addr \<Rightarrow> lheap option" where
  "inplace_merge h lt a0 a1b0 b1 = do {
     assertO (a0 \<noteq> NULL);
     assertO (a1b0 \<noteq> NULL);
     assertO (b1 \<noteq> NULL);
     s1 \<leftarrow> is_sorted h lt a0 a1b0;
     assertO s1;
     s2 \<leftarrow> is_sorted h lt a1b0 b1;
     assertO s2;
     merge_loop h lt a0 a1b0 b1 }"

text \<open>One pass of the do-while loop of \<^verbatim>\<open>list_sort\<close>: the heap after it and \<^verbatim>\<open>output_run_cnt\<close>.\<close>

partial_function (option) sort_pass ::
  "lheap \<Rightarrow> (addr \<Rightarrow> addr \<Rightarrow> bool) \<Rightarrow> addr \<Rightarrow> addr \<Rightarrow> nat \<Rightarrow> (lheap \<times> nat) option" where
  "sort_pass h lt l a0 cnt = do {
     lend \<leftarrow> list_end l;
     if a0 = lend then Some (h, cnt)
     else do {
       a1b0 \<leftarrow> find_end_of_run h lt a0 lend;
       if a1b0 = lend then Some (h, cnt + 1)
       else do {
         b1 \<leftarrow> find_end_of_run h lt a1b0 lend;
         h \<leftarrow> inplace_merge h lt a0 a1b0 b1;
         sort_pass h lt l b1 (cnt + 1) } } }"

partial_function (option) sort_loop ::
  "lheap \<Rightarrow> (addr \<Rightarrow> addr \<Rightarrow> bool) \<Rightarrow> addr \<Rightarrow> lheap option" where
  "sort_loop h lt l = do {
     a0 \<leftarrow> list_begin h l;
     (h, output_run_cnt) \<leftarrow> sort_pass h lt l a0 0;
     if output_run_cnt > 1 then sort_loop h lt l else Some h }"

definition list_sort :: "lheap \<Rightarrow> (addr \<Rightarrow> addr \<Rightarrow> bool) \<Rightarrow> addr \<Rightarrow> lheap option" where
  "list_sort h lt l = do {
     assertO (l \<noteq> NULL);
     h \<leftarrow> sort_loop h lt l;
     b \<leftarrow> list_begin h l;
     lend \<leftarrow> list_end l;
     s \<leftarrow> is_sorted h lt b lend;
     assertO s;
     Some h }"

partial_function (option) ordered_loop ::
  "lheap \<Rightarrow> (addr \<Rightarrow> addr \<Rightarrow> bool) \<Rightarrow> addr \<Rightarrow> addr \<Rightarrow> addr \<Rightarrow> addr option" where
  "ordered_loop h lt e lend elem =
     (if e = lend then Some e
      else if lt elem e then Some e
      else do { e \<leftarrow> list_next h e; ordered_loop h lt e lend elem })"

definition list_insert_ordered ::
  "lheap \<Rightarrow> (addr \<Rightarrow> addr \<Rightarrow> bool) \<Rightarrow> addr \<Rightarrow> addr \<Rightarrow> lheap option" where
  "list_insert_ordered h lt l elem = do {
     assertO (l \<noteq> NULL);
     assertO (elem \<noteq> NULL);
     b \<leftarrow> list_begin h l;
     lend \<leftarrow> list_end l;
     e \<leftarrow> ordered_loop h lt b lend elem;
     list_insert h e elem }"

partial_function (option) unique_loop ::
  "lheap \<Rightarrow> (addr \<Rightarrow> addr \<Rightarrow> bool) \<Rightarrow> addr \<Rightarrow> addr \<Rightarrow> addr \<Rightarrow> lheap option" where
  "unique_loop h lt elem lend duplicates = do {
     nxt \<leftarrow> list_next h elem;
     if nxt = lend then Some h
     else if \<not> lt elem nxt \<and> \<not> lt nxt elem
     then do {
       (_, h) \<leftarrow> list_remove h nxt;
       h \<leftarrow> (if duplicates \<noteq> NULL then list_push_back h duplicates nxt else Some h);
       unique_loop h lt elem lend duplicates }
     else unique_loop h lt nxt lend duplicates }"

definition list_unique ::
  "lheap \<Rightarrow> (addr \<Rightarrow> addr \<Rightarrow> bool) \<Rightarrow> addr \<Rightarrow> addr \<Rightarrow> lheap option" where
  "list_unique h lt l duplicates = do {
     assertO (l \<noteq> NULL);
     em \<leftarrow> list_empty h l;
     if em then Some h
     else do {
       elem \<leftarrow> list_begin h l;
       lend \<leftarrow> list_end l;
       unique_loop h lt elem lend duplicates } }"

partial_function (option) max_loop ::
  "lheap \<Rightarrow> (addr \<Rightarrow> addr \<Rightarrow> bool) \<Rightarrow> addr \<Rightarrow> addr \<Rightarrow> addr \<Rightarrow> addr option" where
  "max_loop h lt m e lend =
     (if e = lend then Some m
      else do {
        e' \<leftarrow> list_next h e;
        max_loop h lt (if lt m e then e else m) e' lend })"

definition list_max :: "lheap \<Rightarrow> (addr \<Rightarrow> addr \<Rightarrow> bool) \<Rightarrow> addr \<Rightarrow> addr option" where
  "list_max h lt l = do {
     m \<leftarrow> list_begin h l;
     lend \<leftarrow> list_end l;
     if m \<noteq> lend then do { e \<leftarrow> list_next h m; max_loop h lt m e lend } else Some m }"

partial_function (option) min_loop ::
  "lheap \<Rightarrow> (addr \<Rightarrow> addr \<Rightarrow> bool) \<Rightarrow> addr \<Rightarrow> addr \<Rightarrow> addr \<Rightarrow> addr option" where
  "min_loop h lt m e lend =
     (if e = lend then Some m
      else do {
        e' \<leftarrow> list_next h e;
        min_loop h lt (if lt e m then e else m) e' lend })"

definition list_min :: "lheap \<Rightarrow> (addr \<Rightarrow> addr \<Rightarrow> bool) \<Rightarrow> addr \<Rightarrow> addr option" where
  "list_min h lt l = do {
     m \<leftarrow> list_begin h l;
     lend \<leftarrow> list_end l;
     if m \<noteq> lend then do { e \<leftarrow> list_next h m; min_loop h lt m e lend } else Some m }"

section \<open>Well-formed chains\<close>

text \<open>
  The picture at the top of list.c: consecutive elements point at each other, the first has no
  predecessor and the last no successor, no element occurs twice and none is null.
\<close>

fun dlinked :: "lheap \<Rightarrow> addr list \<Rightarrow> bool" where
  "dlinked h (a # b # c) \<longleftrightarrow> next_of h a = b \<and> prev_of h b = a \<and> dlinked h (b # c)"
| "dlinked h _ \<longleftrightarrow> True"

definition chain :: "lheap \<Rightarrow> addr list \<Rightarrow> bool" where
  "chain h c \<longleftrightarrow> 2 \<le> length c \<and> distinct c \<and> NULL \<notin> set c \<and> dlinked h c \<and>
     prev_of h (hd c) = NULL \<and> next_of h (last c) = NULL"

definition nodes :: "addr \<Rightarrow> addr list \<Rightarrow> addr list" where
  "nodes l xs = head_addr l # xs @ [tail_addr l]"

definition wf_list :: "lheap \<Rightarrow> addr \<Rightarrow> addr list \<Rightarrow> bool" where
  "wf_list h l xs \<longleftrightarrow> l \<noteq> NULL \<and> chain h (nodes l xs)"

definition same_off :: "addr set \<Rightarrow> lheap \<Rightarrow> lheap \<Rightarrow> bool" where
  "same_off S h h' \<longleftrightarrow> (\<forall>x. x \<notin> S \<longrightarrow> prev_of h' x = prev_of h x \<and> next_of h' x = next_of h x)"

named_theorems heap_simps \<open>reading a heap after an assignment to a member\<close>

lemma set_prev_simps [simp, heap_simps]:
  "prev_of (set_prev h a v) = (prev_of h)(a := v)"
  "next_of (set_prev h a v) = next_of h"
  by (simp_all add: set_prev_def)

lemma set_next_simps [simp, heap_simps]:
  "next_of (set_next h a v) = (next_of h)(a := v)"
  "prev_of (set_next h a v) = prev_of h"
  by (simp_all add: set_next_def)

lemma set_tlD: "x \<in> set (tl c) \<Longrightarrow> x \<in> set c"
  by (cases c) auto

lemma last_in_suffix: "last (A @ x # B) \<in> set (x # B)"
  by (cases B rule: rev_cases) auto

lemma hd_in_prefix: "hd (A @ x # B) \<in> set (A @ [x])"
  by (cases A) auto

lemma dlinked_append:
  "dlinked h (xs @ a # ys) \<longleftrightarrow> dlinked h (xs @ [a]) \<and> dlinked h (a # ys)"
proof (induction xs)
  case Nil
  then show ?case by simp
next
  case (Cons x xs)
  then show ?case by (cases xs) auto
qed

lemma dlinked_Cons: "dlinked h (a # b # c) \<longleftrightarrow> next_of h a = b \<and> prev_of h b = a \<and> dlinked h (b # c)"
  by simp

lemma dlinked_cong:
  assumes "\<And>x. x \<in> set (butlast c) \<Longrightarrow> next_of h' x = next_of h x"
    and "\<And>x. x \<in> set (tl c) \<Longrightarrow> prev_of h' x = prev_of h x"
  shows "dlinked h' c \<longleftrightarrow> dlinked h c"
  using assms
proof (induction h c rule: dlinked.induct)
  case (1 h a b c)
  have "dlinked h' (b # c) \<longleftrightarrow> dlinked h (b # c)"
    using 1 by (intro 1) (auto dest: in_set_butlastD set_tlD)
  with 1 show ?case by simp
qed auto

lemma dlinked_snoc: "dlinked h (xs @ [a, b]) \<longleftrightarrow> dlinked h (xs @ [a]) \<and> next_of h a = b \<and> prev_of h b = a"
  using dlinked_append [of h xs a "[b]"] by auto

lemma chainD:
  assumes "chain h c"
  shows "2 \<le> length c" "distinct c" "NULL \<notin> set c" "dlinked h c"
    "prev_of h (hd c) = NULL" "next_of h (last c) = NULL"
  using assms by (auto simp: chain_def)

lemma chain_cong:
  assumes "chain h c" and "\<And>x. x \<in> set c \<Longrightarrow> prev_of h' x = prev_of h x \<and> next_of h' x = next_of h x"
  shows "chain h' c"
proof -
  from assms(1) have c: "c \<noteq> []" by (auto simp: chain_def)
  have "dlinked h' c \<longleftrightarrow> dlinked h c"
    by (rule dlinked_cong) (use assms(2) in \<open>auto dest: in_set_butlastD set_tlD\<close>)
  with assms c show ?thesis by (auto simp: chain_def)
qed

lemma chain_same_off:
  "chain h c \<Longrightarrow> same_off S h h' \<Longrightarrow> set c \<inter> S = {} \<Longrightarrow> chain h' c"
  by (erule chain_cong) (auto simp: same_off_def)

lemma same_off_refl [simp]: "same_off S h h"
  by (simp add: same_off_def)

lemma same_off_trans: "same_off S h h' \<Longrightarrow> same_off S h' h'' \<Longrightarrow> same_off S h h''"
  by (simp add: same_off_def)

lemma same_off_mono: "same_off S h h' \<Longrightarrow> S \<subseteq> T \<Longrightarrow> same_off T h h'"
  by (auto simp: same_off_def)

lemma chain_next:
  assumes "chain h (A @ e # f # B)"
  shows "next_of h e = f" "prev_of h f = e" "e \<noteq> NULL" "f \<noteq> NULL" "e \<noteq> f"
    "list_next h e = Some f" "list_prev h f = Some e"
proof -
  from chainD(4) [OF assms] have "dlinked h (e # f # B)"
    using dlinked_append [of h A e "f # B"] by simp
  then show nx: "next_of h e = f" and pv: "prev_of h f = e" by simp_all
  from chainD(2,3) [OF assms] show ne: "e \<noteq> NULL" "f \<noteq> NULL" "e \<noteq> f" by auto
  from nx pv ne show "list_next h e = Some f"
    by (auto simp: list_next_def is_head_def is_interior_def assertO_def)
  from nx pv ne show "list_prev h f = Some e"
    by (auto simp: list_prev_def is_tail_def is_interior_def assertO_def)
qed

lemma chain_interior:
  assumes "chain h (A @ p # e # q # B)"
  shows "is_interior h e"
  using chain_next(1-4) [of h A p e "q # B"] chain_next(1-4) [of h "A @ [p]" e q B] assms
  by (simp add: is_interior_def)

lemma chain_mid_interior:
  assumes "chain h (A @ p # X @ q # B)" and "e \<in> set X"
  shows "is_interior h e"
proof -
  obtain X1 X2 where X: "X = X1 @ e # X2" using assms(2) by (auto simp: in_set_conv_decomp)
  have l: "p # X1 = butlast (p # X1) @ [last (p # X1)]" by simp
  have r: "X2 @ q # B = hd (X2 @ q # B) # tl (X2 @ q # B)" by simp
  have "A @ p # X @ q # B = A @ (p # X1) @ e # (X2 @ q # B)" using X by simp
  also have "\<dots> = (A @ butlast (p # X1)) @ last (p # X1) # e # hd (X2 @ q # B) # tl (X2 @ q # B)"
    using l r by (metis append_Cons append_Nil append_assoc)
  finally show ?thesis using assms(1) chain_interior by metis
qed

lemma chain_before:
  assumes "chain h (A @ p # q # B)"
  shows "is_interior h q \<or> is_tail h q"
  using chain_next [OF assms] by (auto simp: is_interior_def is_tail_def)

section \<open>The primitive pointer operations on chains\<close>

lemma chain_insert:
  assumes ch: "chain h (A @ p # q # B)" and e: "e \<notin> set (A @ p # q # B)" "e \<noteq> NULL"
  obtains h' where "list_insert h q e = Some h'" and "chain h' (A @ p # e # q # B)"
    and "same_off {p, e, q} h h'"
proof -
  note nx = chain_next [OF ch]
  define h' where "h' = set_prev (set_next (set_next (set_prev h e p) e q) p e) q e"
  from e nx have pe: "p \<noteq> e" "q \<noteq> e" by auto
  have ins: "list_insert h q e = Some h'"
    using chain_before [OF ch] e nx pe by (simp add: list_insert_def h'_def Let_def)
  from chainD(4) [OF ch] have d: "dlinked h (A @ [p])" "dlinked h (q # B)"
    using dlinked_append [of h A p "q # B"] by simp_all
  have "dlinked h' (A @ [p]) \<longleftrightarrow> dlinked h (A @ [p])"
    by (rule dlinked_cong) (use chainD(2) [OF ch] e in \<open>cases A; auto simp: h'_def\<close>)+
  moreover have "dlinked h' (q # B) \<longleftrightarrow> dlinked h (q # B)"
    by (rule dlinked_cong) (use chainD(2) [OF ch] e in \<open>auto simp: h'_def dest: in_set_butlastD split: if_splits\<close>)
  ultimately have "dlinked h' (A @ p # e # q # B)"
    using d nx pe dlinked_append [of h' A p "e # q # B"] by (simp add: h'_def)
  moreover have "prev_of h' (hd (A @ p # e # q # B)) = NULL"
    using chainD(2,5) [OF ch] e hd_in_prefix [of A p "q # B"] pe nx
    by (cases A) (simp_all add: h'_def)
  moreover have "next_of h' (last (A @ p # e # q # B)) = NULL"
    using chainD(2,6) [OF ch] e last_in_suffix [of "A @ [p]" q B] by (auto simp: h'_def)
  ultimately have "chain h' (A @ p # e # q # B)"
    using chainD(2,3) [OF ch] e by (auto simp: chain_def)
  moreover have "same_off {p, e, q} h h'"
    by (simp add: same_off_def h'_def)
  ultimately show thesis using that ins by blast
qed

lemma chain_remove:
  assumes ch: "chain h (A @ p # e # q # B)"
  obtains h' where "list_remove h e = Some (q, h')" and "chain h' (A @ p # q # B)"
    and "same_off {p, q} h h'"
proof -
  note n1 = chain_next [OF ch]
  have ch2: "chain h ((A @ [p]) @ e # q # B)" using ch by simp
  note n2 = chain_next [OF ch2]
  define h' where "h' = set_prev (set_next h p q) q p"
  from chainD(2) [OF ch] have pq: "p \<noteq> q" "p \<noteq> e" "e \<noteq> q" by auto
  have rem: "list_remove h e = Some (q, h')"
    using chain_interior [OF ch] n1 n2 pq by (simp add: list_remove_def h'_def Let_def)
  from chainD(4) [OF ch] have d: "dlinked h (A @ [p])" "dlinked h (q # B)"
    using dlinked_append [of h A p "e # q # B"] by simp_all
  have "dlinked h' (A @ [p]) \<longleftrightarrow> dlinked h (A @ [p])"
    by (rule dlinked_cong) (use chainD(2) [OF ch] in \<open>cases A; auto simp: h'_def\<close>)+
  moreover have "dlinked h' (q # B) \<longleftrightarrow> dlinked h (q # B)"
    by (rule dlinked_cong) (use chainD(2) [OF ch] in \<open>auto simp: h'_def dest: in_set_butlastD split: if_splits\<close>)
  ultimately have "dlinked h' (A @ p # q # B)"
    using d n1 n2 pq dlinked_append [of h' A p "q # B"] by (simp add: h'_def)
  moreover have "prev_of h' (hd (A @ p # q # B)) = NULL"
    using chainD(2,5) [OF ch] pq by (cases A) (simp_all add: h'_def)
  moreover have "next_of h' (last (A @ p # q # B)) = NULL"
    using chainD(2,6) [OF ch] last_in_suffix [of "A @ [p, e]" q B] by (auto simp: h'_def)
  ultimately have "chain h' (A @ p # q # B)"
    using chainD(2,3) [OF ch] by (auto simp: chain_def)
  moreover have "same_off {p, q} h h'"
    by (simp add: same_off_def h'_def)
  ultimately show thesis using that rem by blast
qed

lemma dlinked_append2:
  "xs \<noteq> [] \<Longrightarrow> ys \<noteq> [] \<Longrightarrow> dlinked h (xs @ ys) \<longleftrightarrow>
     dlinked h xs \<and> dlinked h ys \<and> next_of h (last xs) = hd ys \<and> prev_of h (hd ys) = last xs"
proof (induction xs)
  case Nil
  then show ?case by simp
next
  case (Cons x xs)
  show ?case
  proof (cases xs)
    case Nil
    with Cons.prems show ?thesis by (cases ys) auto
  next
    case (Cons y zs)
    with Cons.IH Cons.prems show ?thesis by auto
  qed
qed

lemma butlast_distinct: "distinct (xs @ ys) \<Longrightarrow> xs \<noteq> [] \<Longrightarrow> last xs \<notin> set (butlast xs)"
  by (induction xs rule: rev_induct) auto

lemma tl_distinct: "distinct xs \<Longrightarrow> xs \<noteq> [] \<Longrightarrow> hd xs \<notin> set (tl xs)"
  by (cases xs) auto

lemma chain_split4:
  assumes "M \<noteq> []" "S \<noteq> []"
  shows "chain h (A @ p # M @ S @ q # B) \<longleftrightarrow>
    distinct (A @ p # M @ S @ q # B) \<and> NULL \<notin> set (A @ p # M @ S @ q # B) \<and>
    dlinked h (A @ [p]) \<and> next_of h p = hd M \<and> prev_of h (hd M) = p \<and>
    dlinked h M \<and> next_of h (last M) = hd S \<and> prev_of h (hd S) = last M \<and>
    dlinked h S \<and> next_of h (last S) = q \<and> prev_of h q = last S \<and> dlinked h (q # B) \<and>
    prev_of h (hd (A @ [p])) = NULL \<and> next_of h (last (q # B)) = NULL"
proof -
  have "dlinked h (A @ p # M @ S @ q # B) = dlinked h ((A @ [p]) @ M @ S @ q # B)" by simp
  also have "\<dots> \<longleftrightarrow> dlinked h (A @ [p]) \<and> dlinked h (M @ S @ q # B) \<and>
      next_of h p = hd M \<and> prev_of h (hd M) = p"
    using dlinked_append2 [of "A @ [p]" "M @ S @ q # B" h] assms by simp
  also have "dlinked h (M @ S @ q # B) \<longleftrightarrow> dlinked h M \<and> dlinked h (S @ q # B) \<and>
      next_of h (last M) = hd S \<and> prev_of h (hd S) = last M"
    using dlinked_append2 [of M "S @ q # B" h] assms by simp
  also have "dlinked h (S @ q # B) \<longleftrightarrow> dlinked h S \<and> dlinked h (q # B) \<and>
      next_of h (last S) = q \<and> prev_of h q = last S"
    using dlinked_append2 [of S "q # B" h] assms by simp
  finally have d: "dlinked h (A @ p # M @ S @ q # B) \<longleftrightarrow> dlinked h (A @ [p]) \<and>
      (dlinked h M \<and> (dlinked h S \<and> dlinked h (q # B) \<and> next_of h (last S) = q \<and> prev_of h q = last S) \<and>
       next_of h (last M) = hd S \<and> prev_of h (hd S) = last M) \<and>
      next_of h p = hd M \<and> prev_of h (hd M) = p" .
  have "hd (A @ p # M @ S @ q # B) = hd (A @ [p])" by (cases A) auto
  moreover have "last (A @ p # M @ S @ q # B) = last (q # B)" by simp
  ultimately show ?thesis
    using d by (auto simp: chain_def)
qed

lemma chain_splice:
  assumes ch: "chain h (A @ p # M @ S @ q # B)" and ne: "M \<noteq> []" "S \<noteq> []"
  obtains h' where "list_splice h (hd M) (hd S) q = Some h'" and "chain h' (A @ p # S @ M @ q # B)"
    and "same_off (set (A @ p # M @ S @ q # B)) h h'"
proof -
  define m s ml z where "m = hd M" and "s = hd S" and "ml = last M" and "z = last S"
  note ms = m_def s_def ml_def z_def
  from ne have inM: "m \<in> set M" "ml \<in> set M" and inS: "s \<in> set S" "z \<in> set S"
    by (simp_all add: ms)
  from ch [unfolded chain_split4 [OF ne]] have c:
    "distinct (A @ p # M @ S @ q # B)" "NULL \<notin> set (A @ p # M @ S @ q # B)"
    "dlinked h (A @ [p])" "next_of h p = m" "prev_of h m = p"
    "dlinked h M" "next_of h ml = s" "prev_of h s = ml"
    "dlinked h S" "next_of h z = q" "prev_of h q = z" "dlinked h (q # B)"
    "prev_of h (hd (A @ [p])) = NULL" "next_of h (last (q # B)) = NULL"
    by (simp_all add: ms)
  from c(1) inM inS have neq: "m \<noteq> s" "m \<noteq> z" "ml \<noteq> s" "ml \<noteq> z" "p \<noteq> m" "p \<noteq> ml" "p \<noteq> s" "p \<noteq> z"
    "q \<noteq> m" "q \<noteq> ml" "q \<noteq> s" "q \<noteq> z" "p \<noteq> q" by auto
  from c(2) inM inS have nn: "m \<noteq> NULL" "ml \<noteq> NULL" "s \<noteq> NULL" "z \<noteq> NULL" "p \<noteq> NULL" "q \<noteq> NULL"
    by (metis Un_iff list.set_intros(1) list.set_intros(2) set_append)+
  define h' where "h' = set_prev (set_next (set_next (set_prev (set_prev (set_next h ml q) q ml) s p) z m) p s) m z"
  have mi: "is_interior h m \<or> is_tail h m"
    using c nn by (auto simp: is_interior_def is_tail_def)
  have si: "is_interior h s" and zi: "is_interior h z"
    using chain_mid_interior [of h "A" p "M @ S" q B] ch inS by simp_all
  have lp: "list_prev h q = Some z"
    using c nn by (auto simp: list_prev_def is_interior_def is_tail_def assertO_def)
  have sp: "list_splice h m s q = Some h'"
    using mi si zi lp c neq by (simp add: list_splice_def h'_def Let_def)
  have ends: "ml \<notin> set (butlast M)" "z \<notin> set (butlast S)" "m \<notin> set (tl M)" "s \<notin> set (tl S)"
    using c(1) ne butlast_distinct [of M "[]"] butlast_distinct [of S "[]"]
    by (auto simp: ms tl_distinct)
  have sep: "m \<notin> set S" "ml \<notin> set S" "s \<notin> set M" "z \<notin> set M" using c(1) inM inS by auto
  have "dlinked h' (A @ [p]) \<longleftrightarrow> dlinked h (A @ [p])"
    by (rule dlinked_cong) (use c(1) inM inS neq in \<open>cases A; auto simp: h'_def\<close>)+
  moreover have "dlinked h' M \<longleftrightarrow> dlinked h M"
    by (rule dlinked_cong)
      (use c(1) sep ends in \<open>auto simp: h'_def dest: in_set_butlastD set_tlD\<close>)
  moreover have "dlinked h' S \<longleftrightarrow> dlinked h S"
    by (rule dlinked_cong)
      (use c(1) sep ends in \<open>auto simp: h'_def dest: in_set_butlastD set_tlD\<close>)
  moreover have "dlinked h' (q # B) \<longleftrightarrow> dlinked h (q # B)"
    by (rule dlinked_cong)
      (use c(1) inM inS neq in \<open>auto simp: h'_def dest: in_set_butlastD split: if_splits\<close>)
  moreover have "prev_of h' (hd (A @ [p])) = NULL"
    using c(1,13) inM inS neq by (cases A) (auto simp: h'_def)
  moreover have "next_of h' (last (q # B)) = NULL"
    using c(1,14) inM inS neq last_in_suffix [of "[]" q B] by (auto simp: h'_def)
  moreover have "distinct (A @ p # S @ M @ q # B)" "NULL \<notin> set (A @ p # S @ M @ q # B)"
    using c(1,2) by auto
  ultimately have "chain h' (A @ p # S @ M @ q # B)"
    unfolding chain_split4 [OF ne(2,1)] using c neq by (simp add: h'_def ms [symmetric])
  moreover have "same_off (set (A @ p # M @ S @ q # B)) h h'"
    using inM inS by (auto simp: same_off_def h'_def)
  ultimately show thesis using that sp unfolding ms by blast
qed

section \<open>The operations on well-formed lists\<close>

lemma nodes_simps [simp]:
  "set (nodes l xs) = insert (head_addr l) (insert (tail_addr l) (set xs))"
  "hd (nodes l xs) = head_addr l" "last (nodes l xs) = tail_addr l"
  by (auto simp: nodes_def)

lemma nodes_split: "nodes l (xs @ ys) = (head_addr l # xs) @ ys @ [tail_addr l]"
  by (simp add: nodes_def)

lemma wf_listD:
  assumes "wf_list h l xs"
  shows "l \<noteq> NULL" "chain h (nodes l xs)" "distinct xs" "head_addr l \<notin> set xs" "tail_addr l \<notin> set xs"
    "NULL \<notin> set xs" "head_addr l \<noteq> tail_addr l"
  using assms by (auto simp: wf_list_def chain_def nodes_def tail_addr_def head_addr_def)

lemma wf_list_begin:
  assumes "wf_list h l xs"
  shows "list_begin h l = Some (hd (xs @ [tail_addr l]))"
proof -
  have "chain h ([] @ head_addr l # hd (xs @ [tail_addr l]) # tl (xs @ [tail_addr l]))"
    using wf_listD(2) [OF assms] by (simp add: nodes_def)
  from chain_next(1) [OF this] wf_listD(1) [OF assms] show ?thesis
    by (simp add: list_begin_def)
qed

lemma wf_list_rbegin:
  assumes "wf_list h l xs"
  shows "list_rbegin h l = Some (last (head_addr l # xs))"
proof -
  have "nodes l xs = butlast (head_addr l # xs) @ last (head_addr l # xs) # tail_addr l # []"
    by (simp add: nodes_def)
  with wf_listD(2) [OF assms] have
    "chain h (butlast (head_addr l # xs) @ last (head_addr l # xs) # tail_addr l # [])" by simp
  from chain_next(2) [OF this] wf_listD(1) [OF assms] show ?thesis
    by (simp add: list_rbegin_def)
qed

lemma list_end_Some [simp]: "l \<noteq> NULL \<Longrightarrow> list_end l = Some (tail_addr l)"
  by (simp add: list_end_def)

lemma wf_list_init:
  assumes "l \<noteq> NULL"
  obtains h' where "list_init h l = Some h'" and "wf_list h' l []"
    and "same_off {head_addr l, tail_addr l} h h'"
  using assms that
  by (auto simp: list_init_def wf_list_def chain_def nodes_def head_addr_def tail_addr_def
      same_off_def Let_def)

lemma wf_list_empty: "wf_list h l xs \<Longrightarrow> list_empty h l = Some (xs = [])"
  using wf_list_begin [of h l xs] wf_listD [of h l xs]
  by (cases xs) (auto simp: list_empty_def)

lemma nodes_at:
  obtains A p B where "nodes l (xs @ ys) = A @ p # hd (ys @ [tail_addr l]) # B"
    and "\<And>e. nodes l (xs @ e # ys) = A @ p # e # hd (ys @ [tail_addr l]) # B"
proof
  let ?A = "butlast (head_addr l # xs)" and ?p = "last (head_addr l # xs)"
  let ?q = "hd (ys @ [tail_addr l])" and ?B = "tl (ys @ [tail_addr l])"
  have l: "head_addr l # xs = ?A @ [?p]" by simp
  have r: "ys @ [tail_addr l] = ?q # ?B" by simp
  show "nodes l (xs @ ys) = ?A @ ?p # ?q # ?B"
    unfolding nodes_split using l r by (metis append_Cons append_Nil append_assoc)
  show "nodes l (xs @ e # ys) = ?A @ ?p # e # ?q # ?B" for e
    using l r by (simp add: nodes_def)
qed

lemma wf_list_insert:
  assumes wf: "wf_list h l (xs @ ys)" and e: "e \<noteq> NULL" "e \<notin> set (nodes l (xs @ ys))"
  obtains h' where "list_insert h (hd (ys @ [tail_addr l])) e = Some h'" and "wf_list h' l (xs @ e # ys)"
    and "same_off (set (nodes l (xs @ e # ys))) h h'"
proof -
  obtain A p B where n: "nodes l (xs @ ys) = A @ p # hd (ys @ [tail_addr l]) # B"
    and n': "nodes l (xs @ e # ys) = A @ p # e # hd (ys @ [tail_addr l]) # B"
    by (metis nodes_at)
  define q where "q = hd (ys @ [tail_addr l])"
  have ch: "chain h (A @ p # q # B)" using wf_listD(2) [OF wf] n q_def by simp
  have "e \<notin> set (A @ p # q # B)" using e(2) n q_def by metis
  from chain_insert [OF ch this e(1)] obtain h' where
    h': "list_insert h q e = Some h'" "chain h' (A @ p # e # q # B)" "same_off {p, e, q} h h'" .
  have "same_off (set (nodes l (xs @ e # ys))) h h'"
    unfolding n' q_def [symmetric] by (rule same_off_mono [OF h'(3)]) auto
  moreover have "wf_list h' l (xs @ e # ys)"
    unfolding wf_list_def n' q_def [symmetric] using h'(2) wf_listD(1) [OF wf] by simp
  ultimately show thesis using h'(1) that unfolding q_def by blast
qed

lemma wf_list_push_back:
  assumes "wf_list h l xs" "e \<noteq> NULL" "e \<notin> set (nodes l xs)"
  obtains h' where "list_push_back h l e = Some h'" and "wf_list h' l (xs @ [e])"
    and "same_off (set (nodes l (xs @ [e]))) h h'"
proof (rule wf_list_insert [of h l xs "[]" e])
  fix h'
  assume "list_insert h (hd ([] @ [tail_addr l])) e = Some h'" "wf_list h' l (xs @ [e])"
    "same_off (set (nodes l (xs @ [e]))) h h'"
  with that wf_listD(1) [OF assms(1)] show thesis by (simp add: list_push_back_def)
qed (use assms in simp_all)

lemma wf_list_push_front:
  assumes "wf_list h l xs" "e \<noteq> NULL" "e \<notin> set (nodes l xs)"
  obtains h' where "list_push_front h l e = Some h'" and "wf_list h' l (e # xs)"
    and "same_off (set (nodes l (e # xs))) h h'"
proof (rule wf_list_insert [of h l "[]" xs e])
  fix h'
  assume "list_insert h (hd (xs @ [tail_addr l])) e = Some h'" "wf_list h' l ([] @ e # xs)"
    "same_off (set (nodes l ([] @ e # xs))) h h'"
  with that wf_list_begin [OF assms(1)] show thesis by (simp add: list_push_front_def)
qed (use assms in simp_all)

lemma wf_list_remove:
  assumes wf: "wf_list h l (xs @ e # ys)"
  obtains h' where "list_remove h e = Some (hd (ys @ [tail_addr l]), h')" and "wf_list h' l (xs @ ys)"
    and "same_off (set (nodes l (xs @ ys))) h h'"
proof -
  obtain A p B where n: "nodes l (xs @ ys) = A @ p # hd (ys @ [tail_addr l]) # B"
    and n': "nodes l (xs @ e # ys) = A @ p # e # hd (ys @ [tail_addr l]) # B"
    by (metis nodes_at)
  define q where "q = hd (ys @ [tail_addr l])"
  have ch: "chain h (A @ p # e # q # B)" using wf_listD(2) [OF wf] n' q_def by simp
  from chain_remove [OF ch] obtain h' where
    h': "list_remove h e = Some (q, h')" "chain h' (A @ p # q # B)" "same_off {p, q} h h'" .
  have "same_off (set (nodes l (xs @ ys))) h h'"
    unfolding n q_def [symmetric] by (rule same_off_mono [OF h'(3)]) auto
  moreover have "wf_list h' l (xs @ ys)"
    unfolding wf_list_def n q_def [symmetric] using h'(2) wf_listD(1) [OF wf] by simp
  ultimately show thesis using h'(1) that unfolding q_def by blast
qed

lemma wf_list_front: "wf_list h l (x # xs) \<Longrightarrow> list_front h l = Some x"
  using wf_list_begin [of h l "x # xs"] wf_list_empty [of h l "x # xs"] wf_listD(1) [of h l "x # xs"]
  by (auto simp: list_front_def list_begin_def)

lemma wf_list_back:
  assumes "wf_list h l (xs @ [x])"
  shows "list_back h l = Some x"
  using wf_list_rbegin [OF assms] wf_list_empty [OF assms] wf_listD(1) [OF assms]
  by (auto simp: list_back_def list_rbegin_def)

lemma wf_list_pop_front:
  assumes "wf_list h l (x # xs)"
  obtains h' where "list_pop_front h l = Some (x, h')" and "wf_list h' l xs"
    and "same_off (set (nodes l xs)) h h'"
proof (rule wf_list_remove [of h l "[]" x xs])
  fix h'
  assume "list_remove h x = Some (hd (xs @ [tail_addr l]), h')" "wf_list h' l ([] @ xs)"
    "same_off (set (nodes l ([] @ xs))) h h'"
  with that wf_list_front [OF assms] show thesis by (simp add: list_pop_front_def)
qed (use assms in simp)

lemma wf_list_pop_back:
  assumes "wf_list h l (xs @ [x])"
  obtains h' where "list_pop_back h l = Some (x, h')" and "wf_list h' l xs"
    and "same_off (set (nodes l xs)) h h'"
proof (rule wf_list_remove [of h l xs x "[]"])
  fix h'
  assume "list_remove h x = Some (hd ([] @ [tail_addr l]), h')" "wf_list h' l (xs @ [])"
    "same_off (set (nodes l (xs @ []))) h h'"
  with that wf_list_back [OF assms] show thesis by (simp add: list_pop_back_def)
qed (use assms in simp)

lemma pop_empty_faults:
  assumes "wf_list h l []"
  shows "list_pop_front h l = None" "list_pop_back h l = None"
  using wf_list_empty [OF assms]
  by (simp_all add: list_pop_front_def list_pop_back_def list_front_def list_back_def)

lemma wf_list_same_off:
  "wf_list h l xs \<Longrightarrow> same_off S h h' \<Longrightarrow> set (nodes l xs) \<inter> S = {} \<Longrightarrow> wf_list h' l xs"
  unfolding wf_list_def by (blast intro: chain_same_off)

section \<open>Traversals\<close>

lemma chain_step:
  assumes "chain h (A @ y # ys @ [t])"
  shows "list_next h y = Some (hd (ys @ [t]))" "y \<noteq> t" "y \<noteq> NULL"
proof -
  have "chain h (A @ y # hd (ys @ [t]) # tl (ys @ [t]))" using assms by simp
  from chain_next(6) [OF this] show "list_next h y = Some (hd (ys @ [t]))" .
  from chainD(2,3) [OF assms] show "y \<noteq> t" "y \<noteq> NULL" by auto
qed

lemma size_loop_chain:
  "chain h (A @ ys @ [t]) \<Longrightarrow> size_loop h (hd (ys @ [t])) t n = Some (n + length ys)"
proof (induction ys arbitrary: A n)
  case Nil
  show ?case by (subst size_loop.simps) simp
next
  case (Cons y ys)
  from Cons.prems have ch: "chain h ((A @ [y]) @ ys @ [t])" by simp
  note st = chain_step [of h A y ys t]
  have "size_loop h y t n = size_loop h (hd (ys @ [t])) t (n + 1)"
    using st Cons.prems by (subst size_loop.simps) simp
  with Cons.IH [OF ch] show ?case by simp
qed

lemma wf_list_size:
  assumes "wf_list h l xs"
  shows "list_size h l = Some (length xs)"
proof -
  have "chain h ([head_addr l] @ xs @ [tail_addr l])"
    using wf_listD(2) [OF assms] by (simp add: nodes_def)
  from size_loop_chain [OF this, of 0] show ?thesis
    using wf_list_begin [OF assms] wf_listD(1) [OF assms] by (simp add: list_size_def)
qed

end
