(* ===== verification/Klist_Algo.thy ===== *)
theory Klist_Algo
  imports Klist "HOL-Library.Multiset"
begin

text \<open>
  Correctness of the list.c routines that walk or reorder a whole list: reversal, maximum and
  minimum, ordered insertion, removal of adjacent duplicates and the natural merge sort. Each is
  related to a function on the sequence of element addresses; the comparison function is any
  strict weak order on them.
\<close>

section \<open>Reversal\<close>

lemma swap_links_simps [simp]:
  "prev_of (swap_links h e) = (prev_of h)(e := next_of h e)"
  "next_of (swap_links h e) = (next_of h)(e := prev_of h e)"
  by (simp_all add: swap_links_def Let_def)

lemma reverse_loop_swaps:
  assumes "dlinked h (R @ [t])" "distinct (R @ [t])" "NULL \<notin> set R"
  obtains h' where "reverse_loop h (hd (R @ [t])) t = Some h'"
    and "\<And>x. prev_of h' x = (if x \<in> set R then next_of h x else prev_of h x)"
    and "\<And>x. next_of h' x = (if x \<in> set R then prev_of h x else next_of h x)"
  using assms
proof (induction R arbitrary: h thesis)
  case Nil
  from Nil(1) [of h] show ?case by (simp add: reverse_loop.simps)
next
  case (Cons y R)
  let ?h1 = "swap_links h y"
  have y: "y \<notin> set (R @ [t])" "y \<noteq> NULL" "y \<noteq> t" using Cons.prems by auto
  have "dlinked ?h1 (R @ [t]) \<longleftrightarrow> dlinked h (R @ [t])"
    by (rule dlinked_cong) (use y in \<open>auto dest!: set_tlD\<close>)
  moreover have "dlinked h (R @ [t])" "next_of h y = hd (R @ [t])"
    using Cons.prems(2) by (cases R; auto)+
  ultimately obtain h' where h': "reverse_loop ?h1 (hd (R @ [t])) t = Some h'"
    "\<And>x. prev_of h' x = (if x \<in> set R then next_of ?h1 x else prev_of ?h1 x)"
    "\<And>x. next_of h' x = (if x \<in> set R then prev_of ?h1 x else next_of ?h1 x)"
    using Cons.IH [of ?h1] Cons.prems(3,4) by auto
  have "reverse_loop h y t = reverse_loop ?h1 (hd (R @ [t])) t"
    using y \<open>next_of h y = hd (R @ [t])\<close> by (subst reverse_loop.simps) (simp add: Let_def)
  with h' y show ?case by (intro Cons.prems(1) [of h']) (auto simp: fun_upd_def)
qed

lemma dlinked_rev:
  assumes "dlinked h xs"
    and "\<And>x. x \<in> set (tl xs) \<Longrightarrow> next_of h' x = prev_of h x"
    and "\<And>x. x \<in> set (butlast xs) \<Longrightarrow> prev_of h' x = next_of h x"
  shows "dlinked h' (rev xs)"
  using assms
proof (induction h xs rule: dlinked.induct)
  case (1 h a b c)
  have "dlinked h' (rev (b # c))"
    using 1 by (intro 1(1)) auto
  moreover have "next_of h' b = a" "prev_of h' a = b" using 1 by auto
  ultimately show ?case by (simp add: dlinked_snoc)
qed auto

lemma wf_list_reverse:
  assumes wf: "wf_list h l xs"
  obtains h' where "list_reverse h l = Some h'" and "wf_list h' l (rev xs)"
    and "same_off (set (nodes l xs)) h h'"
proof (cases "xs = []")
  case True
  with wf wf_list_empty [OF wf] that [of h] show thesis by (simp add: list_reverse_def)
next
  case False
  define t where "t = tail_addr l"
  define hl where "hl = head_addr l"
  note D = wf_listD [OF wf, folded t_def hl_def]
  have ch: "chain h (hl # xs @ [t])" using D(2) by (simp add: nodes_def t_def hl_def)
  define a z where "a = hd xs" and "z = last xs"
  have az: "a \<in> set xs" "z \<in> set xs" using False by (simp_all add: a_def z_def)
  then have nn: "a \<noteq> NULL" "z \<noteq> NULL" using D(6) by metis+
  have lk: "dlinked h xs" "next_of h hl = a" "prev_of h a = hl" "next_of h z = t" "prev_of h t = z"
    using chainD(4) [OF ch] dlinked_append2 [of "[hl]" "xs @ [t]" h] dlinked_append2 [of xs "[t]" h] False
    by (simp_all add: a_def z_def)
  obtain h1 where r: "reverse_loop h (hd (xs @ [t])) t = Some h1"
    and p1: "\<And>x. prev_of h1 x = (if x \<in> set xs then next_of h x else prev_of h x)"
    and n1: "\<And>x. next_of h1 x = (if x \<in> set xs then prev_of h x else next_of h x)"
    using reverse_loop_swaps [of h xs t] chainD(2,3,4) [OF ch] dlinked_append2 [of "[hl]" "xs @ [t]" h]
    by auto
  define h' where
    "h' = set_next (set_prev (set_prev (set_next h1 hl z) t a) z hl) a t"
  have "list_reverse h l = Some h'"
    using wf_list_empty [OF wf] wf_list_begin [OF wf] r False D az nn lk p1 n1
    by (auto simp: list_reverse_def h'_def Let_def t_def [symmetric] hl_def [symmetric])
  moreover have "chain h' (hl # rev xs @ [t])"
  proof -
    have d: "distinct (hl # xs @ [t])" "NULL \<notin> set (hl # xs @ [t])" using chainD(2,3) [OF ch] by auto
    have "dlinked h' (rev xs)"
      by (rule dlinked_rev [OF lk(1)])
        (use d az p1 n1 tl_distinct [of xs] butlast_distinct [of xs "[]"] False in
          \<open>auto simp: h'_def a_def z_def dest: set_tlD in_set_butlastD\<close>)
    moreover have "next_of h' hl = z" "prev_of h' z = hl" "next_of h' a = t" "prev_of h' t = a"
      using d az by (auto simp: h'_def)
    moreover have "hd (rev xs) = z" "last (rev xs) = a"
      using False by (simp_all add: a_def z_def hd_rev last_rev)
    ultimately have "dlinked h' (hl # rev xs @ [t])"
      using dlinked_append2 [of "[hl]" "rev xs @ [t]" h'] dlinked_append2 [of "rev xs" "[t]" h'] False
      by simp
    moreover have "prev_of h' hl = NULL" "next_of h' t = NULL"
      using chainD(5,6) [OF ch] d az p1 n1 by (auto simp: h'_def)
    ultimately show ?thesis using d by (auto simp: chain_def)
  qed
  moreover have "same_off (set (nodes l xs)) h h'"
    using az p1 n1 by (auto simp: same_off_def h'_def t_def hl_def)
  ultimately show thesis
    using that D(1) by (auto simp: wf_list_def nodes_def t_def hl_def)
qed

section \<open>Comparison functions\<close>

text \<open>
  What list.h asks of a \<^verbatim>\<open>list_less_func\<close>: a strict weak order. Elements neither of which is less
  than the other are equal as far as the list routines are concerned.
\<close>

definition strict_weak :: "('a \<Rightarrow> 'a \<Rightarrow> bool) \<Rightarrow> bool" where
  "strict_weak lt \<longleftrightarrow> (\<forall>x y. lt x y \<longrightarrow> \<not> lt y x) \<and> (\<forall>x y z. \<not> lt x y \<longrightarrow> \<not> lt y z \<longrightarrow> \<not> lt x z)"

definition eqv :: "('a \<Rightarrow> 'a \<Rightarrow> bool) \<Rightarrow> 'a \<Rightarrow> 'a \<Rightarrow> bool" where
  "eqv lt x y \<longleftrightarrow> \<not> lt x y \<and> \<not> lt y x"

abbreviation sorted_by :: "('a \<Rightarrow> 'a \<Rightarrow> bool) \<Rightarrow> 'a list \<Rightarrow> bool" where
  "sorted_by lt \<equiv> sorted_wrt (\<lambda>x y. \<not> lt y x)"

lemma strict_weakD:
  assumes "strict_weak lt"
  shows "lt x y \<Longrightarrow> \<not> lt y x" "\<not> lt x x"
    "\<not> lt x y \<Longrightarrow> \<not> lt y z \<Longrightarrow> \<not> lt x z" "lt x z \<Longrightarrow> lt x y \<or> lt y z"
    "lt x y \<Longrightarrow> \<not> lt z y \<Longrightarrow> lt x z" "\<not> lt y x \<Longrightarrow> lt y z \<Longrightarrow> lt x z"
  using assms unfolding strict_weak_def by metis+

section \<open>Maximum and minimum\<close>

fun lmax :: "('a \<Rightarrow> 'a \<Rightarrow> bool) \<Rightarrow> 'a \<Rightarrow> 'a list \<Rightarrow> 'a" where
  "lmax lt m [] = m"
| "lmax lt m (e # es) = lmax lt (if lt m e then e else m) es"

lemma max_loop_chain:
  "chain h (A @ ys @ [t]) \<Longrightarrow> max_loop h lt m (hd (ys @ [t])) t = Some (lmax lt m ys)"
proof (induction ys arbitrary: A m)
  case Nil
  show ?case by (subst max_loop.simps) simp
next
  case (Cons y ys)
  from Cons.prems have ch: "chain h ((A @ [y]) @ ys @ [t])" by simp
  show ?case
    using Cons.IH [OF ch] chain_step [of h A y ys t] Cons.prems
    by (subst max_loop.simps) simp
qed

lemma min_loop_chain:
  "chain h (A @ ys @ [t]) \<Longrightarrow> min_loop h lt m (hd (ys @ [t])) t = Some (lmax (\<lambda>x y. lt y x) m ys)"
proof (induction ys arbitrary: A m)
  case Nil
  show ?case by (subst min_loop.simps) simp
next
  case (Cons y ys)
  from Cons.prems have ch: "chain h ((A @ [y]) @ ys @ [t])" by simp
  show ?case
    using Cons.IH [OF ch] chain_step [of h A y ys t] Cons.prems
    by (subst min_loop.simps) simp
qed

lemma wf_list_max_min:
  assumes wf: "wf_list h l xs"
  shows "list_max h lt l = Some (case xs of [] \<Rightarrow> tail_addr l | m # es \<Rightarrow> lmax lt m es) \<and>
    list_min h lt l = Some (case xs of [] \<Rightarrow> tail_addr l | m # es \<Rightarrow> lmax (\<lambda>x y. lt y x) m es)"
proof (cases xs)
  case Nil
  with wf_list_begin [OF wf] wf_listD(1) [OF wf] show ?thesis
    by (simp add: list_max_def list_min_def)
next
  case (Cons m es)
  have "chain h ([head_addr l, m] @ es @ [tail_addr l])"
    using wf_listD(2) [OF wf] Cons by (simp add: nodes_def)
  note ch = max_loop_chain [OF this] min_loop_chain [OF this]
  have "list_next h m = Some (hd (es @ [tail_addr l]))"
    using chain_step [of h "[head_addr l]" m es "tail_addr l"] wf_listD(2) [OF wf] Cons
    by (simp add: nodes_def)
  then show ?thesis
    using wf_list_begin [OF wf] wf_listD [OF wf] Cons ch
    by (auto simp: list_max_def list_min_def)
qed

lemmas wf_list_max = wf_list_max_min [THEN conjunct1]
  and wf_list_min = wf_list_max_min [THEN conjunct2]

lemma lmax_max:
  assumes "strict_weak lt"
  obtains as bs where "m # es = as @ lmax lt m es # bs"
    and "\<And>x. x \<in> set as \<Longrightarrow> lt x (lmax lt m es)" and "\<And>x. x \<in> set bs \<Longrightarrow> \<not> lt (lmax lt m es) x"
proof -
  note sw = strict_weakD [OF assms]
  have "\<exists>as bs. m # es = as @ lmax lt m es # bs \<and> (\<forall>x\<in>set as. lt x (lmax lt m es)) \<and>
      (\<forall>x\<in>set bs. \<not> lt (lmax lt m es) x)"
  proof (induction es rule: rev_induct)
    case Nil
    show ?case by (rule exI [of _ "[]"]) simp
  next
    case (snoc e es)
    have l: "lmax lt m (es @ [e]) = (if lt (lmax lt m es) e then e else lmax lt m es)"
      by (induction es arbitrary: m) auto
    from snoc obtain as bs where *: "m # es = as @ lmax lt m es # bs" "\<forall>x\<in>set as. lt x (lmax lt m es)"
      "\<forall>x\<in>set bs. \<not> lt (lmax lt m es) x" by blast
    show ?case
    proof (cases "lt (lmax lt m es) e")
      case True
      have "lt x e" if "x \<in> set (m # es)" for x
      proof -
        have "x \<in> set (as @ lmax lt m es # bs)" using that *(1) by metis
        then consider "x \<in> set as" | "x = lmax lt m es" | "x \<in> set bs" by auto
        then show ?thesis
          using True *(2,3) sw(1) [OF True] sw(5) [of x "lmax lt m es" e] sw(6) [of "lmax lt m es" x e]
          by cases auto
      qed
      with l True show ?thesis by (intro exI [of _ "m # es"] exI [of _ "[]"]) auto
    next
      case False
      with l * show ?thesis by (intro exI [of _ as] exI [of _ "bs @ [e]"]) auto
    qed
  qed
  then show thesis using that by blast
qed

section \<open>Ordered insertion\<close>

lemma ordered_loop_chain:
  "chain h (A @ ys @ [t]) \<Longrightarrow>
   ordered_loop h lt (hd (ys @ [t])) t e = Some (hd (dropWhile (\<lambda>y. \<not> lt e y) ys @ [t]))"
proof (induction ys arbitrary: A)
  case Nil
  show ?case by (subst ordered_loop.simps) simp
next
  case (Cons y ys)
  from Cons.prems have ch: "chain h ((A @ [y]) @ ys @ [t])" by simp
  show ?case
    using Cons.IH [OF ch] chain_step [of h A y ys t] Cons.prems
    by (subst ordered_loop.simps) simp
qed

definition insert_ord :: "('a \<Rightarrow> 'a \<Rightarrow> bool) \<Rightarrow> 'a \<Rightarrow> 'a list \<Rightarrow> 'a list" where
  "insert_ord lt e xs = takeWhile (\<lambda>y. \<not> lt e y) xs @ e # dropWhile (\<lambda>y. \<not> lt e y) xs"

lemma wf_list_insert_ordered:
  assumes wf: "wf_list h l xs" and e: "e \<noteq> NULL" "e \<notin> set (nodes l xs)"
  obtains h' where "list_insert_ordered h lt l e = Some h'" and "wf_list h' l (insert_ord lt e xs)"
proof -
  let ?P = "\<lambda>y. \<not> lt e y"
  have "chain h ([head_addr l] @ xs @ [tail_addr l])"
    using wf_listD(2) [OF wf] by (simp add: nodes_def)
  note o = ordered_loop_chain [OF this, of lt e]
  show thesis
  proof (rule wf_list_insert [of h l "takeWhile ?P xs" "dropWhile ?P xs" e])
    fix h'
    assume "list_insert h (hd (dropWhile ?P xs @ [tail_addr l])) e = Some h'"
      "wf_list h' l (takeWhile ?P xs @ e # dropWhile ?P xs)"
    with o that show thesis
      using wf_list_begin [OF wf] wf_listD(1) [OF wf] e
      by (simp add: list_insert_ordered_def insert_ord_def)
  qed (use wf e in simp_all)
qed

lemma insert_ord_sorted:
  assumes "strict_weak lt" "sorted_by lt xs"
  shows "sorted_by lt (insert_ord lt e xs)"
  using assms(2)
proof (induction xs)
  case (Cons x xs)
  note sw = strict_weakD [OF assms(1)]
  show ?case
  proof (cases "lt e x")
    case True
    have "\<not> lt y e" if "y \<in> set (x # xs)" for y
      using that Cons.prems sw(1) [OF True] sw(3) [of y x e] sw(2) [of x] by auto
    with True Cons.prems show ?thesis by (simp add: insert_ord_def)
  next
    case False
    with Cons have "sorted_by lt (insert_ord lt e xs)" by simp
    moreover have "set (insert_ord lt e xs) = insert e (set xs)"
      by (simp add: insert_ord_def) (metis set_append takeWhile_dropWhile_id)
    ultimately show ?thesis using False Cons.prems by (auto simp: insert_ord_def)
  qed
qed (simp add: insert_ord_def)

lemma insert_ord_mset: "mset (insert_ord lt e xs) = add_mset e (mset xs)"
  by (induction xs) (auto simp: insert_ord_def)

section \<open>The natural merge sort on sequences\<close>

fun runs :: "('a \<Rightarrow> 'a \<Rightarrow> bool) \<Rightarrow> 'a list \<Rightarrow> 'a list list" where
  "runs lt [] = []"
| "runs lt (a # ys) = (case runs lt ys of [] \<Rightarrow> [[a]]
     | r # rs \<Rightarrow> if lt (hd r) a then [a] # r # rs else (a # r) # rs)"

fun lmerge :: "('a \<Rightarrow> 'a \<Rightarrow> bool) \<Rightarrow> 'a list \<Rightarrow> 'a list \<Rightarrow> 'a list" where
  "lmerge lt [] bs = bs"
| "lmerge lt as [] = as"
| "lmerge lt (a # as) (b # bs) =
     (if \<not> lt b a then a # lmerge lt as (b # bs) else b # lmerge lt (a # as) bs)"

fun merge_adj :: "('a \<Rightarrow> 'a \<Rightarrow> bool) \<Rightarrow> 'a list list \<Rightarrow> 'a list list" where
  "merge_adj lt (r1 # r2 # rs) = lmerge lt r1 r2 # merge_adj lt rs"
| "merge_adj lt [] = []"
| "merge_adj lt [r] = [r]"

lemma concat_runs [simp]: "concat (runs lt xs) = xs"
  by (induction xs) (auto split: list.splits)

lemma runs_nonempty: "r \<in> set (runs lt xs) \<Longrightarrow> r \<noteq> []"
  by (induction xs arbitrary: r) (auto split: list.splits if_splits)

lemma runs_Nil_iff [simp]: "runs lt xs = [] \<longleftrightarrow> xs = []"
  by (cases xs) (auto split: list.splits)

lemma hd_runs: "runs lt (y # ys) = r # rs \<Longrightarrow> hd r = y"
  by (auto split: list.splits if_splits)

lemma runs_tail: "runs lt xs = r # rs \<Longrightarrow> runs lt (concat rs) = rs"
proof (induction xs arbitrary: r rs)
  case (Cons a ys)
  then show ?case
    using concat_runs [of lt ys] by (auto split: list.splits if_splits)
qed simp

lemma runs_sorted:
  assumes "strict_weak lt" "r \<in> set (runs lt xs)"
  shows "sorted_by lt r"
  using assms(2)
proof (induction xs arbitrary: r)
  case (Cons a ys)
  show ?case
  proof (cases "runs lt ys")
    case Nil
    with Cons.prems show ?thesis by auto
  next
    case (Cons r' rs')
    have r': "sorted_by lt r'" "r' \<noteq> []" using Cons.IH [of r'] Cons runs_nonempty [of r' lt ys] by auto
    have "sorted_by lt (a # r')" if "\<not> lt (hd r') a"
    proof -
      have "\<not> lt y a" if y: "y \<in> set r'" for y
      proof -
        have "\<not> lt y (hd r')" using r' y strict_weakD(2) [OF assms(1)] by (cases r') auto
        with \<open>\<not> lt (hd r') a\<close> show ?thesis using strict_weakD(3) [OF assms(1)] by blast
      qed
      with r' show ?thesis by simp
    qed
    with Cons.prems Cons Cons.IH r' show ?thesis by (auto split: if_splits)
  qed
qed simp

lemma mset_lmerge [simp]: "mset (lmerge lt as bs) = mset as + mset bs"
  by (induction lt as bs rule: lmerge.induct) auto

lemma set_lmerge [simp]: "set (lmerge lt as bs) = set as \<union> set bs"
  by (induction lt as bs rule: lmerge.induct) auto

lemma lmerge_sorted:
  assumes "strict_weak lt" "sorted_by lt as" "sorted_by lt bs"
  shows "sorted_by lt (lmerge lt as bs)"
  using assms
proof (induction lt as bs rule: lmerge.induct)
  case (3 lt a as b bs)
  note sw = strict_weakD [OF 3(3)]
  show ?case
  proof (cases "lt b a")
    case True
    have "\<not> lt y b" if "y \<in> set (a # as) \<union> set bs" for y
      using that 3(4,5) sw(1) [OF True] sw(3) [of y a b] by auto
    with True 3 show ?thesis by auto
  next
    case False
    have "\<not> lt y a" if "y \<in> set as \<union> set (b # bs)" for y
      using that 3(4,5) False sw(3) [of y b a] by auto
    with False 3 show ?thesis by auto
  qed
qed auto

lemma lmerge_stable:
  assumes "strict_weak lt" "sorted_by lt as" "sorted_by lt bs"
  shows "filter (eqv lt x) (lmerge lt as bs) = filter (eqv lt x) as @ filter (eqv lt x) bs"
  using assms
proof (induction lt as bs rule: lmerge.induct)
  case (3 lt a as b bs)
  note sw = strict_weakD [OF 3(3)]
  show ?case
  proof (cases "lt b a")
    case True
    have "filter (eqv lt x) (a # as) = []" if "eqv lt x b"
    proof -
      have "\<not> eqv lt x y" if y: "y \<in> set (a # as)" for y
      proof -
        have "lt b y" using y 3(4) True sw(5) [OF True, of y] by auto
        with \<open>eqv lt x b\<close> show ?thesis using sw(6) [of b x y] by (auto simp: eqv_def)
      qed
      then show ?thesis by (simp only: filter_empty_conv) blast
    qed
    moreover have "filter (eqv lt x) (lmerge lt (a # as) bs) =
        filter (eqv lt x) (a # as) @ filter (eqv lt x) bs"
      using 3 True by simp
    ultimately show ?thesis using True by auto
  qed (use 3 in auto)
qed auto

lemma merge_adj_mset: "mset (concat (merge_adj lt rs)) = mset (concat rs)"
  by (induction lt rs rule: merge_adj.induct) auto

lemma merge_adj_sorted:
  "strict_weak lt \<Longrightarrow> \<forall>r \<in> set rs. sorted_by lt r \<Longrightarrow> \<forall>r \<in> set (merge_adj lt rs). sorted_by lt r"
  by (induction lt rs rule: merge_adj.induct) (auto simp: lmerge_sorted)

lemma merge_adj_stable:
  "strict_weak lt \<Longrightarrow> \<forall>r \<in> set rs. sorted_by lt r \<Longrightarrow>
   filter (eqv lt x) (concat (merge_adj lt rs)) = filter (eqv lt x) (concat rs)"
  by (induction lt rs rule: merge_adj.induct) (auto simp: lmerge_stable)

lemma lmerge_Nil_iff [simp]: "lmerge lt as bs = [] \<longleftrightarrow> as = [] \<and> bs = []"
  by (induction lt as bs rule: lmerge.induct) auto

lemma merge_adj_nonempty:
  "\<forall>r \<in> set rs. r \<noteq> [] \<Longrightarrow> \<forall>r \<in> set (merge_adj lt rs). r \<noteq> []"
  by (induction lt rs rule: merge_adj.induct) auto

lemma length_merge_adj: "length (merge_adj lt rs) = (length rs + 1) div 2"
  by (induction lt rs rule: merge_adj.induct) auto

lemma length_runs_append:
  assumes "r \<noteq> []" "sorted_by lt r"
  shows "length (runs lt (r @ xs)) \<le> Suc (length (runs lt xs))"
  using assms
proof (induction r)
  case (Cons a r)
  show ?case
  proof (cases r)
    case Nil
    then show ?thesis by (auto split: list.splits)
  next
    case (Cons b r')
    obtain q qs where q: "runs lt (r @ xs) = q # qs"
      using Cons runs_Nil_iff [of lt "r @ xs"] by (metis append_Cons list.distinct(1) list.exhaust)
    then have "hd q = b" using hd_runs [of lt b "r' @ xs"] Cons by simp
    with q Cons Cons.prems Cons.IH show ?thesis by auto
  qed
qed simp

lemma length_runs_concat:
  "\<forall>r \<in> set rs. r \<noteq> [] \<and> sorted_by lt r \<Longrightarrow> length (runs lt (concat rs)) \<le> length rs"
proof (induction rs)
  case (Cons r rs)
  then show ?case using length_runs_append [of r lt "concat rs"] by fastforce
qed simp

section \<open>The merge sort on the heap\<close>

lemma run_loop_chain:
  "chain h (A @ a # ys @ [t]) \<Longrightarrow> runs lt (a # ys) = r # rs \<Longrightarrow>
   run_loop h lt a t = Some (hd (concat rs @ [t]))"
proof (induction ys arbitrary: A a r rs)
  case Nil
  then show ?case
    using chain_step [of h A a "[]" t] by (subst run_loop.simps) simp
next
  case (Cons y ys)
  have st: "list_next h a = Some y" using chain_step [of h A a "y # ys" t] Cons.prems by simp
  have ch: "chain h ((A @ [a]) @ y # ys @ [t])" using Cons.prems by simp
  have yt: "y \<noteq> t" using chain_step(2) [OF ch] .
  have pv: "list_prev h y = Some a"
    using chain_next(7) [of h A a y "ys @ [t]"] Cons.prems by simp
  obtain r' rs' where r': "runs lt (y # ys) = r' # rs'"
    using runs_Nil_iff [of lt "y # ys"] by (metis list.distinct(1) list.exhaust)
  have hd: "hd r' = y" using hd_runs [OF r'] .
  show ?case
  proof (cases "lt y a")
    case True
    then have "rs = r' # rs'" using Cons.prems(2) r' hd by simp
    moreover have "concat (r' # rs') = y # ys" using r' concat_runs by metis
    ultimately show ?thesis using True st pv yt by (subst run_loop.simps) simp
  next
    case False
    then have "rs = rs'" using Cons.prems(2) r' hd by simp
    with Cons.IH [OF ch r'] False st pv yt show ?thesis by (subst run_loop.simps) simp
  qed
qed

lemma is_sorted_loop_chain:
  "chain h (A @ a # ys @ q # B) \<Longrightarrow>
   is_sorted_loop h lt a q = Some (successively (\<lambda>x y. \<not> lt y x) (a # ys))"
proof (induction ys arbitrary: A a)
  case Nil
  then show ?case
    using chain_next(6) [of h A a q B] by (subst is_sorted_loop.simps) simp
next
  case (Cons y ys)
  have nx: "list_next h a = Some y" "list_prev h y = Some a"
    using chain_next(6,7) [of h A a y "ys @ q # B"] Cons.prems by simp_all
  have "chain h ((A @ [a]) @ y # ys @ q # B)" using Cons.prems by simp
  from Cons.IH [OF this] nx chainD(2) [OF this] show ?case
    by (subst is_sorted_loop.simps) simp
qed

lemma merge_loop_chain:
  assumes "chain h (P @ as @ bs @ Q)" "P \<noteq> []" "Q \<noteq> []"
  obtains h' where "merge_loop h lt (hd (as @ bs @ Q)) (hd (bs @ Q)) (hd Q) = Some h'"
    and "chain h' (P @ lmerge lt as bs @ Q)" and "same_off (set (P @ as @ bs @ Q)) h h'"
  using assms
proof (induction lt as bs arbitrary: h P thesis rule: lmerge.induct)
  case (1 lt bs)
  from 1(1) [of h] 1(2) show ?case by (simp add: merge_loop.simps)
next
  case (2 lt a as)
  from 2(1) [of h] 2(2) show ?case by (simp add: merge_loop.simps)
next
  case (3 lt a as b bs)
  note ch = 3(4)
  have ne: "a \<noteq> b" "b \<noteq> hd Q" using chainD(2) [OF ch] 3(6) by (cases Q; auto)+
  show ?case
  proof (cases "lt b a")
    case False
    have nx: "list_next h a = Some (hd (as @ b # bs @ Q))"
    proof -
      have "chain h (P @ a # hd (as @ b # bs @ Q) # tl (as @ b # bs @ Q))" using ch by simp
      from chain_next(6) [OF this] show ?thesis .
    qed
    obtain h' where h': "merge_loop h lt (hd (as @ (b # bs) @ Q)) (hd ((b # bs) @ Q)) (hd Q) = Some h'"
      "chain h' ((P @ [a]) @ lmerge lt as (b # bs) @ Q)"
      "same_off (set ((P @ [a]) @ as @ (b # bs) @ Q)) h h'"
      using 3(1) [OF False, of h "P @ [a]"] ch 3(6) by auto
    have "merge_loop h lt a b (hd Q) = Some h'"
      using nx h'(1) ne False by (subst merge_loop.simps) simp
    with h' False show ?thesis by (intro 3(3)) (auto elim: same_off_mono)
  next
    case True
    define n where "n = hd (bs @ Q)"
    have bQ: "bs @ Q = n # tl (bs @ Q)" using 3(6) by (simp add: n_def)
    have chb: "chain h ((P @ a # as) @ b # n # tl (bs @ Q))" using ch bQ by simp
    have nx: "list_next h b = Some n" "list_prev h n = Some b" using chain_next(6,7) [OF chb] .
    have P: "P = butlast P @ [last P]" using 3(5) by simp
    have "chain h (butlast P @ last P # (a # as) @ [b] @ n # tl (bs @ Q))"
      using chb P by (metis append_Cons append_Nil append_assoc)
    from chain_splice [OF this] obtain h1 where h1: "list_splice h a b n = Some h1"
      "chain h1 (butlast P @ last P # [b] @ (a # as) @ n # tl (bs @ Q))"
      "same_off (set (butlast P @ last P # (a # as) @ [b] @ n # tl (bs @ Q))) h h1"
      by auto
    have e1: "butlast P @ last P # [b] @ (a # as) @ n # tl (bs @ Q) = (P @ [b]) @ (a # as) @ bs @ Q"
      using P bQ by (metis append_Cons append_Nil append_assoc)
    have e2: "set (butlast P @ last P # (a # as) @ [b] @ n # tl (bs @ Q)) = set (P @ (a # as) @ (b # bs) @ Q)"
      using arg_cong [OF e1, of set] by auto
    obtain h' where h': "merge_loop h1 lt (hd ((a # as) @ bs @ Q)) (hd (bs @ Q)) (hd Q) = Some h'"
      "chain h' ((P @ [b]) @ lmerge lt (a # as) bs @ Q)"
      "same_off (set ((P @ [b]) @ (a # as) @ bs @ Q)) h1 h'"
      using 3(2) [of h1 "P @ [b]"] True h1(2) e1 3(6) by auto
    have "merge_loop h lt a b (hd Q) = Some h'"
      using nx h1(1) h'(1) ne True n_def by (subst merge_loop.simps) simp
    moreover have "same_off (set (P @ (a # as) @ (b # bs) @ Q)) h h'"
      by (rule same_off_trans [OF h1(3) [unfolded e2]]) (use h'(3) in \<open>auto elim: same_off_mono\<close>)
    ultimately show ?thesis using h' True by (intro 3(3)) auto
  qed
qed

lemma wf_list_split: "wf_list h l (xs @ ys) \<longleftrightarrow> l \<noteq> NULL \<and> chain h ((head_addr l # xs) @ ys @ [tail_addr l])"
  by (simp add: wf_list_def nodes_split)

lemma find_end_of_run_wf:
  assumes "wf_list h l (ws @ zs)" "runs lt zs = r # rs"
  shows "find_end_of_run h lt (hd (zs @ [tail_addr l])) (tail_addr l) = Some (hd (concat rs @ [tail_addr l]))"
proof -
  obtain a ys where zs: "zs = a # ys" using assms(2) by (cases zs) auto
  have ch: "chain h ((head_addr l # ws) @ a # ys @ [tail_addr l])"
    using assms(1) zs by (simp add: wf_list_split)
  from run_loop_chain [OF ch] assms(2) zs chain_step(2,3) [OF ch] chainD(3) [OF ch] show ?thesis
    by (auto simp: find_end_of_run_def)
qed

lemma is_sorted_wf:
  assumes "wf_list h l (ws @ r @ zs)" "strict_weak lt" "sorted_by lt r" "r \<noteq> []"
  shows "is_sorted h lt (hd r) (hd (zs @ [tail_addr l])) = Some True"
proof -
  obtain a ys where r: "r = a # ys" using assms(4) by (cases r) auto
  let ?q = "hd (zs @ [tail_addr l])" and ?B = "tl (zs @ [tail_addr l])"
  have ch: "chain h ((head_addr l # ws) @ a # ys @ ?q # ?B)"
    using assms(1) r by (simp add: wf_list_split)
  have "a \<noteq> ?q" using chainD(2) [OF ch] by (cases zs) auto
  moreover have "successively (\<lambda>x y. \<not> lt y x) (a # ys)"
    using assms(3) r by (auto intro: successively_if_sorted_wrt)
  ultimately show ?thesis using is_sorted_loop_chain [OF ch] r by (simp add: is_sorted_def)
qed

lemma inplace_merge_wf:
  assumes wf: "wf_list h l (ws @ r1 @ r2 @ zs)" and lt: "strict_weak lt"
    and s: "sorted_by lt r1" "sorted_by lt r2" and ne: "r1 \<noteq> []" "r2 \<noteq> []"
  obtains h' where "inplace_merge h lt (hd r1) (hd r2) (hd (zs @ [tail_addr l])) = Some h'"
    and "wf_list h' l (ws @ lmerge lt r1 r2 @ zs)" and "same_off (set (nodes l (ws @ r1 @ r2 @ zs))) h h'"
proof -
  have ch: "chain h ((head_addr l # ws) @ r1 @ r2 @ zs @ [tail_addr l])"
    using wf by (simp add: wf_list_split)
  from merge_loop_chain [OF ch, of lt] obtain h' where
    h': "merge_loop h lt (hd (r1 @ r2 @ zs @ [tail_addr l])) (hd (r2 @ zs @ [tail_addr l])) (hd (zs @ [tail_addr l])) = Some h'"
      "chain h' ((head_addr l # ws) @ lmerge lt r1 r2 @ zs @ [tail_addr l])"
      "same_off (set ((head_addr l # ws) @ r1 @ r2 @ zs @ [tail_addr l])) h h'"
    by auto
  have "hd r1 \<noteq> NULL" "hd r2 \<noteq> NULL" "hd (zs @ [tail_addr l]) \<noteq> NULL"
    using chainD(3) [OF ch] ne by (cases r1; cases r2; cases zs; auto)+
  moreover have "is_sorted h lt (hd r1) (hd r2) = Some True"
    using is_sorted_wf [of h l ws r1 "r2 @ zs" lt] wf lt s ne by simp
  moreover have "is_sorted h lt (hd r2) (hd (zs @ [tail_addr l])) = Some True"
    using is_sorted_wf [of h l "ws @ r1" r2 zs lt] wf lt s ne by simp
  ultimately have "inplace_merge h lt (hd r1) (hd r2) (hd (zs @ [tail_addr l])) = Some h'"
    using h'(1) ne by (simp add: inplace_merge_def)
  moreover have "same_off (set (nodes l (ws @ r1 @ r2 @ zs))) h h'"
    using h'(3) by (rule same_off_mono) (auto simp: nodes_def)
  ultimately show thesis
    using that h'(2) wf by (simp add: wf_list_split)
qed

lemma sort_pass_wf:
  assumes "strict_weak lt" "wf_list h l (ws @ zs)" "runs lt zs = rs"
  obtains h' where "sort_pass h lt l (hd (zs @ [tail_addr l])) n = Some (h', n + length (merge_adj lt rs))"
    and "wf_list h' l (ws @ concat (merge_adj lt rs))" and "same_off (set (nodes l (ws @ zs))) h h'"
  using assms
proof (induction lt rs arbitrary: h ws zs n thesis rule: merge_adj.induct)
  case (1 lt r1 r2 rs)
  note lt = 1(3) and wf = 1(4) and rs = 1(5)
  have zs: "zs = r1 @ r2 @ concat rs" using concat_runs [of lt zs] rs by simp
  have s: "sorted_by lt r1" "sorted_by lt r2" "r1 \<noteq> []" "r2 \<noteq> []"
    using runs_sorted [OF lt, of _ zs] runs_nonempty [of _ lt zs] rs by auto
  have rs2: "runs lt (r2 @ concat rs) = r2 # rs" using runs_tail [OF rs] by simp
  have rs3: "runs lt (concat rs) = rs" using runs_tail [OF rs2] .
  have f1: "find_end_of_run h lt (hd r1) (tail_addr l) = Some (hd r2)"
    using find_end_of_run_wf [OF wf rs] zs s by simp
  have f2: "find_end_of_run h lt (hd r2) (tail_addr l) = Some (hd (concat rs @ [tail_addr l]))"
    using find_end_of_run_wf [of h l "ws @ r1" "r2 @ concat rs" lt r2 rs] wf zs rs2 s by simp
  obtain h1 where h1: "inplace_merge h lt (hd r1) (hd r2) (hd (concat rs @ [tail_addr l])) = Some h1"
    "wf_list h1 l (ws @ lmerge lt r1 r2 @ concat rs)" "same_off (set (nodes l (ws @ zs))) h h1"
    using inplace_merge_wf [of h l ws r1 r2 "concat rs" lt] wf lt s zs by auto
  obtain h' where h': "sort_pass h1 lt l (hd (concat rs @ [tail_addr l])) (n + 1) =
      Some (h', n + 1 + length (merge_adj lt rs))"
    "wf_list h' l ((ws @ lmerge lt r1 r2) @ concat (merge_adj lt rs))"
    "same_off (set (nodes l ((ws @ lmerge lt r1 r2) @ concat rs))) h1 h'"
    using 1(1) [where h = h1 and ws = "ws @ lmerge lt r1 r2" and zs = "concat rs" and n = "n + 1"] lt h1(2) rs3 by auto
  have ne: "hd r1 \<noteq> tail_addr l" "hd r2 \<noteq> tail_addr l" "l \<noteq> NULL"
    using wf_listD(1,5) [OF wf] s zs by (cases r1; cases r2; auto)+
  have "sort_pass h lt l (hd (zs @ [tail_addr l])) n = Some (h', n + length (merge_adj lt (r1 # r2 # rs)))"
    using f1 f2 h1(1) h'(1) ne s zs by (subst sort_pass.simps) simp
  moreover have "same_off (set (nodes l (ws @ zs))) h h'"
    by (rule same_off_trans [OF h1(3)]) (rule same_off_mono [OF h'(3)], use zs in auto)
  ultimately show ?case using 1(2) h'(2) by simp
next
  case (2 lt)
  then show ?case
    using wf_listD(1) [OF 2(3)] by (auto simp: sort_pass.simps)
next
  case (3 lt r)
  have zs: "zs = r" "r \<noteq> []" using concat_runs [of lt zs] 3(4) runs_nonempty [of r lt zs] by auto
  have "hd (zs @ [tail_addr l]) \<noteq> tail_addr l" using wf_listD(5) [OF 3(3)] zs by (cases r) auto
  moreover have "find_end_of_run h lt (hd (zs @ [tail_addr l])) (tail_addr l) = Some (tail_addr l)"
    using find_end_of_run_wf [OF 3(3,4)] by simp
  ultimately show ?case
    using 3(1) [of h] 3(3) zs wf_listD(1) [OF 3(3)] by (simp add: sort_pass.simps)
qed

lemma sort_loop_wf:
  assumes "strict_weak lt" "wf_list h l xs"
  obtains h' ys where "sort_loop h lt l = Some h'" and "wf_list h' l ys" and "sorted_by lt ys"
    and "mset ys = mset xs" and "\<And>x. filter (eqv lt x) ys = filter (eqv lt x) xs"
    and "same_off (set (nodes l xs)) h h'"
  using assms(2)
proof (induction "length (runs lt xs)" arbitrary: h xs thesis rule: less_induct)
  case less
  let ?ms = "merge_adj lt (runs lt xs)"
  let ?xs' = "concat ?ms"
  have sr: "\<forall>r \<in> set (runs lt xs). sorted_by lt r" using runs_sorted [OF assms(1)] by blast
  have ms: "\<forall>r \<in> set ?ms. r \<noteq> [] \<and> sorted_by lt r"
    using merge_adj_sorted [OF assms(1) sr] merge_adj_nonempty [of "runs lt xs" lt] runs_nonempty [of _ lt xs]
    by blast
  have perm: "mset ?xs' = mset xs" using merge_adj_mset [of lt "runs lt xs"] by simp
  then have sets: "set (nodes l ?xs') = set (nodes l xs)" by (metis nodes_simps(1) set_mset_mset)
  have stab: "filter (eqv lt x) ?xs' = filter (eqv lt x) xs" for x
    using merge_adj_stable [OF assms(1) sr] by simp
  obtain h1 where h1: "sort_pass h lt l (hd (xs @ [tail_addr l])) 0 = Some (h1, length ?ms)"
    "wf_list h1 l ?xs'" "same_off (set (nodes l xs)) h h1"
    using sort_pass_wf [of lt h l "[]" xs "runs lt xs" 0] assms(1) less.prems(2) by auto
  have step: "sort_loop h lt l = (if length ?ms > 1 then sort_loop h1 lt l else Some h1)"
    using h1(1) wf_list_begin [OF less.prems(2)] by (subst sort_loop.simps) simp
  show ?case
  proof (cases "length ?ms > 1")
    case True
    have "length (runs lt ?xs') \<le> length ?ms" by (rule length_runs_concat [OF ms])
    also have "\<dots> < length (runs lt xs)" using True by (simp add: length_merge_adj)
    finally obtain h' ys where "sort_loop h1 lt l = Some h'" "wf_list h' l ys" "sorted_by lt ys"
      "mset ys = mset ?xs'" "\<And>x. filter (eqv lt x) ys = filter (eqv lt x) ?xs'"
      "same_off (set (nodes l ?xs')) h1 h'"
      using less.hyps [of ?xs' h1] h1(2) by blast
    with step True perm stab h1(3) sets show ?thesis
      by (intro less.prems(1) [of h' ys]) (auto intro: same_off_trans)
  next
    case False
    then have "sorted_by lt ?xs'" using ms by (cases ?ms) auto
    with step False h1 perm stab show ?thesis by (intro less.prems(1) [of h1 ?xs']) auto
  qed
qed

lemma wf_list_sort:
  assumes "strict_weak lt" "wf_list h l xs"
  obtains h' ys where "list_sort h lt l = Some h'" and "wf_list h' l ys" and "sorted_by lt ys"
    and "mset ys = mset xs" and "\<And>x. filter (eqv lt x) ys = filter (eqv lt x) xs"
    and "same_off (set (nodes l xs)) h h'"
proof (rule sort_loop_wf [OF assms])
  fix h' ys
  assume h': "sort_loop h lt l = Some h'" "wf_list h' l ys" "sorted_by lt ys" "mset ys = mset xs"
    "\<And>x. filter (eqv lt x) ys = filter (eqv lt x) xs" "same_off (set (nodes l xs)) h h'"
  have "is_sorted h' lt (hd (ys @ [tail_addr l])) (tail_addr l) = Some True"
    using is_sorted_wf [of h' l "[]" ys "[]" lt] assms(1) h'(2,3)
    by (cases "ys = []") (simp_all add: is_sorted_def)
  with h' that show thesis
    using wf_list_begin [OF h'(2)] wf_listD(1) [OF h'(2)] by (simp add: list_sort_def)
qed

section \<open>Removing adjacent duplicates\<close>

fun uniq :: "('a \<Rightarrow> 'a \<Rightarrow> bool) \<Rightarrow> 'a list \<Rightarrow> 'a list" where
  "uniq lt (x # y # ys) = (if eqv lt x y then uniq lt (x # ys) else x # uniq lt (y # ys))"
| "uniq lt xs = xs"

fun dups :: "('a \<Rightarrow> 'a \<Rightarrow> bool) \<Rightarrow> 'a list \<Rightarrow> 'a list" where
  "dups lt (x # y # ys) = (if eqv lt x y then y # dups lt (x # ys) else dups lt (y # ys))"
| "dups lt xs = []"

text \<open>The list that receives the duplicates, if any, and that it shares no node with the other.\<close>

definition dup_list :: "lheap \<Rightarrow> addr \<Rightarrow> addr list \<Rightarrow> addr \<Rightarrow> addr list \<Rightarrow> bool" where
  "dup_list h d ds l xs \<longleftrightarrow> d \<noteq> NULL \<longrightarrow> wf_list h d ds \<and> set (nodes d ds) \<inter> set (nodes l xs) = {}"

lemma unique_drop:
  assumes wf: "wf_list h l (ws @ x # y # ys)" and d: "dup_list h d ds l (ws @ x # y # ys)"
  obtains h1 h2 where "list_remove h y = Some (hd (ys @ [tail_addr l]), h1)"
    and "(if d \<noteq> NULL then list_push_back h1 d y else Some h1) = Some h2"
    and "wf_list h2 l (ws @ x # ys)" and "dup_list h2 d (ds @ [y]) l (ws @ x # ys)"
proof -
  obtain h1 where h1: "list_remove h y = Some (hd (ys @ [tail_addr l]), h1)"
    "wf_list h1 l (ws @ x # ys)" "same_off (set (nodes l (ws @ x # ys))) h h1"
    using wf_list_remove [of h l "ws @ [x]" y ys] wf by auto
  have y: "y \<noteq> NULL" "y \<notin> set (nodes l (ws @ x # ys))"
    using wf_listD [OF wf] by (auto simp: nodes_def)
  show thesis
  proof (cases "d = NULL")
    case True
    with h1 that show thesis by (simp add: dup_list_def)
  next
    case False
    with d have wd: "wf_list h d ds" "set (nodes d ds) \<inter> set (nodes l (ws @ x # y # ys)) = {}"
      by (simp_all add: dup_list_def)
    have wd1: "wf_list h1 d ds"
      by (rule wf_list_same_off [OF wd(1) h1(3)]) (use wd(2) in auto)
    have yd: "y \<notin> set (nodes d ds)" using wd(2) by auto
    obtain h2 where h2: "list_push_back h1 d y = Some h2" "wf_list h2 d (ds @ [y])"
      "same_off (set (nodes d (ds @ [y]))) h1 h2"
      using wf_list_push_back [OF wd1 y(1) yd] by blast
    have "wf_list h2 l (ws @ x # ys)"
      by (rule wf_list_same_off [OF h1(2) h2(3)]) (use wd(2) y(2) in auto)
    moreover have "dup_list h2 d (ds @ [y]) l (ws @ x # ys)"
      using h2(2) wd(2) y(2) by (auto simp: dup_list_def)
    ultimately show thesis using that h1(1) h2(1) False by simp
  qed
qed

lemma unique_loop_wf:
  assumes "wf_list h l (ws @ x # ys)" "dup_list h d ds l (ws @ x # ys)"
  shows "\<exists>h'. unique_loop h lt x (tail_addr l) d = Some h' \<and> wf_list h' l (ws @ uniq lt (x # ys)) \<and>
    dup_list h' d (ds @ dups lt (x # ys)) l (ws @ uniq lt (x # ys))"
  using assms
proof (induction ys arbitrary: h ws x ds)
  case Nil
  have "list_next h x = Some (tail_addr l)"
    using chain_step(1) [of h "head_addr l # ws" x "[]" "tail_addr l"] Nil.prems by (simp add: wf_list_split)
  with Nil.prems show ?case by (subst unique_loop.simps) simp
next
  case (Cons y zs)
  have nx: "list_next h x = Some y"
    using chain_step(1) [of h "head_addr l # ws" x "y # zs" "tail_addr l"] Cons.prems by (simp add: wf_list_split)
  have yt: "y \<noteq> tail_addr l" using wf_listD(5) [OF Cons.prems(1)] by auto
  show ?case
  proof (cases "eqv lt x y")
    case True
    obtain h1 h2 where *: "list_remove h y = Some (hd (zs @ [tail_addr l]), h1)"
      "(if d \<noteq> NULL then list_push_back h1 d y else Some h1) = Some h2"
      "wf_list h2 l (ws @ x # zs)" "dup_list h2 d (ds @ [y]) l (ws @ x # zs)"
      using unique_drop [OF Cons.prems] by blast
    have "unique_loop h lt x (tail_addr l) d = unique_loop h2 lt x (tail_addr l) d"
      using nx yt True * by (subst unique_loop.simps) (simp add: eqv_def)
    with Cons.IH [OF *(3,4)] True show ?thesis by simp
  next
    case False
    have "unique_loop h lt x (tail_addr l) d = unique_loop h lt y (tail_addr l) d"
      using nx yt False by (subst unique_loop.simps) (auto simp: eqv_def)
    with Cons.IH [of h "ws @ [x]" y ds] Cons.prems False show ?thesis by simp
  qed
qed

lemma wf_list_unique:
  assumes "wf_list h l xs" "dup_list h d ds l xs"
  shows "\<exists>h'. list_unique h lt l d = Some h' \<and> wf_list h' l (uniq lt xs) \<and>
    dup_list h' d (ds @ dups lt xs) l (uniq lt xs)"
  using unique_loop_wf [of h l "[]" "hd xs" "tl xs" d ds lt] assms wf_list_empty [OF assms(1)]
    wf_list_begin [OF assms(1)] wf_listD(1) [OF assms(1)]
  by (cases xs) (simp_all add: list_unique_def)

lemma uniq_dups_mset: "mset (uniq lt xs) + mset (dups lt xs) = mset xs"
  by (induction lt xs rule: uniq.induct) auto

lemma uniq_adjacent: "successively (\<lambda>x y. \<not> eqv lt x y) (uniq lt xs)"
proof -
  have "successively (\<lambda>x y. \<not> eqv lt x y) (uniq lt xs) \<and> (xs \<noteq> [] \<longrightarrow> uniq lt xs \<noteq> [] \<and> hd (uniq lt xs) = hd xs)"
    by (induction lt xs rule: uniq.induct) (auto simp: successively_Cons)
  then show ?thesis by simp
qed

section \<open>Moving a segment between two lists\<close>

lemma chain_split3:
  assumes "S \<noteq> []"
  shows "chain h (A @ p # S @ q # B) \<longleftrightarrow>
    distinct (A @ p # S @ q # B) \<and> NULL \<notin> set (A @ p # S @ q # B) \<and>
    dlinked h (A @ [p]) \<and> next_of h p = hd S \<and> prev_of h (hd S) = p \<and>
    dlinked h S \<and> next_of h (last S) = q \<and> prev_of h q = last S \<and> dlinked h (q # B) \<and>
    prev_of h (hd (A @ [p])) = NULL \<and> next_of h (last (q # B)) = NULL"
proof -
  have "dlinked h (A @ p # S @ q # B) \<longleftrightarrow> dlinked h (A @ [p]) \<and> dlinked h (S @ q # B) \<and>
      next_of h p = hd S \<and> prev_of h (hd S) = p"
    using dlinked_append2 [of "A @ [p]" "S @ q # B" h] assms by simp
  moreover have "dlinked h (S @ q # B) \<longleftrightarrow> dlinked h S \<and> dlinked h (q # B) \<and>
      next_of h (last S) = q \<and> prev_of h q = last S"
    using dlinked_append2 [of S "q # B" h] assms by simp
  moreover have "hd (A @ p # S @ q # B) = hd (A @ [p])" by (cases A) auto
  ultimately show ?thesis by (auto simp: chain_def)
qed

lemma chain_split2:
  "chain h (A @ p # q # B) \<longleftrightarrow>
    distinct (A @ p # q # B) \<and> NULL \<notin> set (A @ p # q # B) \<and>
    dlinked h (A @ [p]) \<and> next_of h p = q \<and> prev_of h q = p \<and> dlinked h (q # B) \<and>
    prev_of h (hd (A @ [p])) = NULL \<and> next_of h (last (q # B)) = NULL"
proof -
  have "dlinked h (A @ p # q # B) \<longleftrightarrow> dlinked h (A @ [p]) \<and> dlinked h (q # B) \<and>
      next_of h p = q \<and> prev_of h q = p"
    using dlinked_append2 [of "A @ [p]" "q # B" h] by simp
  moreover have "hd (A @ p # q # B) = hd (A @ [p])" by (cases A) auto
  ultimately show ?thesis by (auto simp: chain_def)
qed

lemma dlinked_set_next: "x \<notin> set (butlast c) \<Longrightarrow> dlinked (set_next h x v) c \<longleftrightarrow> dlinked h c"
  by (rule dlinked_cong) auto

lemma dlinked_set_prev: "x \<notin> set (tl c) \<Longrightarrow> dlinked (set_prev h x v) c \<longleftrightarrow> dlinked h c"
  by (rule dlinked_cong) auto

lemma dlinked_set_other:
  "x \<notin> set c \<Longrightarrow> dlinked (set_next h x v) c \<longleftrightarrow> dlinked h c"
  "x \<notin> set c \<Longrightarrow> dlinked (set_prev h x v) c \<longleftrightarrow> dlinked h c"
  by (auto intro!: dlinked_set_next dlinked_set_prev dest: in_set_butlastD set_tlD)

lemmas dlinked_set = dlinked_set_other dlinked_set_next dlinked_set_prev

lemma chain_splice2:
  assumes ch1: "chain h (A @ p # S @ q # B)" and ne: "S \<noteq> []" and ch2: "chain h (C @ r # t # D)"
    and dis: "set (A @ p # S @ q # B) \<inter> set (C @ r # t # D) = {}"
  obtains h' where "list_splice h t (hd S) q = Some h'" and "chain h' (A @ p # q # B)"
    and "chain h' (C @ r # S @ t # D)"
proof -
  define s z where "s = hd S" and "z = last S"
  note ms = s_def z_def
  from ne have inS: "s \<in> set S" "z \<in> set S" by (simp_all add: ms)
  from ch1 [unfolded chain_split3 [OF ne]] have c:
    "distinct (A @ p # S @ q # B)" "NULL \<notin> set (A @ p # S @ q # B)" "dlinked h (A @ [p])"
    "prev_of h s = p" "dlinked h S" "next_of h z = q" "prev_of h q = z" "dlinked h (q # B)"
    "prev_of h (hd (A @ [p])) = NULL" "next_of h (last (q # B)) = NULL" "next_of h p = s"
    by (simp_all add: ms)
  from ch2 [unfolded chain_split2] have e:
    "distinct (C @ r # t # D)" "NULL \<notin> set (C @ r # t # D)" "dlinked h (C @ [r])"
    "prev_of h t = r" "dlinked h (t # D)" "prev_of h (hd (C @ [r])) = NULL" "next_of h (last (t # D)) = NULL"
    by simp_all
  define h' where "h' = set_prev (set_next (set_next (set_prev (set_prev (set_next h p q) q p) s r) z t) r s) t z"
  have i: "is_interior h s" "is_interior h z" using chain_mid_interior [OF ch1] inS by simp_all
  have nn: "q \<noteq> NULL" "z \<noteq> NULL" using c(2) inS by (metis Un_iff list.set_intros set_append)+
  have neq: "s \<noteq> q" "z \<noteq> p" "s \<noteq> p" "z \<noteq> q" "p \<noteq> q" "s \<notin> set (C @ r # t # D)" "z \<notin> set (C @ r # t # D)"
    "p \<notin> set (C @ r # t # D)" "q \<notin> set (C @ r # t # D)" "r \<notin> set (A @ p # S @ q # B)"
    "t \<notin> set (A @ p # S @ q # B)" "r \<noteq> t"
    using c(1) e(1) inS dis by auto
  have lp: "list_prev h q = Some z"
    using c nn by (auto simp: list_prev_def is_interior_def is_tail_def assertO_def)
  have rt: "z \<noteq> t" "s \<noteq> t" "p \<noteq> r" "q \<noteq> t" "s \<noteq> r" "z \<noteq> r" "p \<noteq> t" "q \<noteq> r" using neq by auto
  have sp: "list_splice h t s q = Some h'"
    using chain_before [OF ch2] i lp neq(1) rt c(4,6,7) e(4) by (simp add: list_splice_def h'_def Let_def)
  have ends: "z \<notin> set (butlast S)" "s \<notin> set (tl S)"
    using c(1) ne butlast_distinct [of S "[]"] by (auto simp: ms tl_distinct)
  have out: "p \<notin> set A" "s \<notin> set A" "z \<notin> set A" "q \<notin> set A" "r \<notin> set A" "t \<notin> set A"
    "p \<notin> set B" "s \<notin> set B" "z \<notin> set B" "q \<notin> set B" "r \<notin> set B" "t \<notin> set B"
    "p \<notin> set S" "q \<notin> set S" "r \<notin> set S" "t \<notin> set S" "r \<notin> set C" "t \<notin> set C" "r \<notin> set D" "t \<notin> set D"
    "p \<notin> set C" "s \<notin> set C" "q \<notin> set C" "p \<notin> set D" "z \<notin> set D" "r \<notin> set D"
    using c(1) e(1) neq inS by auto
  have "last (q # B) \<in> set (q # B)" "last (t # D) \<in> set (t # D)"
    "hd (A @ [p]) \<in> set (A @ [p])" "hd (C @ [r]) \<in> set (C @ [r])"
    by (rule last_in_set, simp, rule last_in_set, simp, rule hd_in_set, simp, rule hd_in_set, simp)
  moreover have "set (q # B) \<inter> {p, z, r} = {}" "set (t # D) \<inter> {p, z, r} = {}"
    "set (A @ [p]) \<inter> {q, s, t} = {}" "set (C @ [r]) \<inter> {q, s, t} = {}"
    using out neq(1-5,12) rt by simp_all
  ultimately have lasts: "last (q # B) \<notin> {p, z, r}" "last (t # D) \<notin> {p, z, r}"
    and heads: "hd (A @ [p]) \<notin> {q, s, t}" "hd (C @ [r]) \<notin> {q, s, t}"
    by blast+
  have "dlinked h' (A @ [p]) \<longleftrightarrow> dlinked h (A @ [p])"
    using out neq rt by (simp add: h'_def dlinked_set)
  moreover have "dlinked h' S \<longleftrightarrow> dlinked h S"
    using out ends by (simp add: h'_def dlinked_set)
  moreover have "dlinked h' (q # B) \<longleftrightarrow> dlinked h (q # B)"
    using out neq rt by (simp add: h'_def dlinked_set)
  moreover have "dlinked h' (C @ [r]) \<longleftrightarrow> dlinked h (C @ [r])"
    using out neq by (simp add: h'_def dlinked_set)
  moreover have "dlinked h' (t # D) \<longleftrightarrow> dlinked h (t # D)"
    using out neq by (simp add: h'_def dlinked_set)
  moreover have "prev_of h' (hd (A @ [p])) = NULL" "prev_of h' (hd (C @ [r])) = NULL"
    "next_of h' (last (q # B)) = NULL" "next_of h' (last (t # D)) = NULL"
    using c(9,10) e(6,7) heads lasts by (simp_all del: last.simps add: h'_def)
  moreover have "next_of h' p = q" "prev_of h' q = p" "next_of h' r = s" "prev_of h' s = r"
    "next_of h' z = t" "prev_of h' t = z"
    using neq(1-5,12) rt by (simp_all add: h'_def)
  moreover have "distinct (A @ p # q # B)" "NULL \<notin> set (A @ p # q # B)" "NULL \<notin> set (C @ r # S @ t # D)"
    using c(1,2) e(2) by auto
  moreover have "distinct (C @ r # S @ t # D)"
    using c(1) e(1) out dis by (simp add: Int_Un_distrib Int_Un_distrib2 Int_commute)
  ultimately have "chain h' (A @ p # q # B)" "chain h' (C @ r # S @ t # D)"
    unfolding chain_split2 [of h'] chain_split3 [OF ne, of h'] ms [symmetric] using c e by blast+
  with sp that show thesis unfolding ms by blast
qed

end
