(* ===== verification/Klist_Props.thy ===== *)
theory Klist_Props
  imports Klist_Algo
begin

text \<open>
  What the kernel list promises its clients. The interface \<open>fifo_queue\<close> is the contract that the
  ready list, the waiter lists and the wait-status lists rely on (append at the back, take from the
  front); it is interpreted on \<^const>\<open>list_push_back\<close> and \<^const>\<open>list_pop_front\<close>. The remaining
  theorems state the behaviour of the algorithms of list.c on well-formed lists.
\<close>

section \<open>Heaps given by a chain of elements\<close>

fun link_list :: "addr list \<Rightarrow> lheap" where
  "link_list (a # b # c) = set_next (set_prev (link_list (b # c)) b a) a b"
| "link_list c = \<lparr>prev_of = \<lambda>a. NULL, next_of = \<lambda>a. NULL\<rparr>"

abbreviation list_at :: "addr \<Rightarrow> addr list \<Rightarrow> lheap" where
  "list_at l xs \<equiv> link_list (nodes l xs)"

lemmas wf_eval = wf_list_def chain_def nodes_def head_addr_def tail_addr_def

section \<open>First in, first out\<close>

fun push_all :: "('q \<Rightarrow> 'a \<Rightarrow> 'q option) \<Rightarrow> 'q \<Rightarrow> 'a list \<Rightarrow> 'q option" where
  "push_all push q [] = Some q"
| "push_all push q (x # xs) = do { q \<leftarrow> push q x; push_all push q xs }"

fun pop_times :: "('q \<Rightarrow> ('a \<times> 'q) option) \<Rightarrow> nat \<Rightarrow> 'q \<Rightarrow> ('a list \<times> 'q) option" where
  "pop_times pop 0 q = Some ([], q)"
| "pop_times pop (Suc n) q = do {
     (x, q) \<leftarrow> pop q;
     (xs, q) \<leftarrow> pop_times pop n q;
     Some (x # xs, q) }"

locale fifo_queue =
  fixes holds :: "'q \<Rightarrow> 'a list \<Rightarrow> bool"
    and addable :: "'a list \<Rightarrow> 'a \<Rightarrow> bool"
    and push :: "'q \<Rightarrow> 'a \<Rightarrow> 'q option"
    and pop :: "'q \<Rightarrow> ('a \<times> 'q) option"
  assumes push_holds: "holds q xs \<Longrightarrow> addable xs x \<Longrightarrow> \<exists>q'. push q x = Some q' \<and> holds q' (xs @ [x])"
    and pop_holds: "holds q (x # xs) \<Longrightarrow> \<exists>q'. pop q = Some (x, q') \<and> holds q' xs"
    and pop_nothing: "holds q [] \<Longrightarrow> pop q = None"
begin

lemma push_all_holds:
  assumes "holds q xs" and "\<And>us y vs. ys = us @ y # vs \<Longrightarrow> addable (xs @ us) y"
  shows "\<exists>q'. push_all push q ys = Some q' \<and> holds q' (xs @ ys)"
  using assms
proof (induction ys arbitrary: q xs)
  case (Cons y ys)
  obtain q1 where q1: "push q y = Some q1" "holds q1 (xs @ [y])"
    using push_holds [OF Cons.prems(1)] Cons.prems(2) [of "[]" y ys] by auto
  have "addable ((xs @ [y]) @ us) z" if "ys = us @ z # vs" for us z vs
    using Cons.prems(2) [of "y # us" z vs] that by simp
  from Cons.IH [OF q1(2) this] q1(1) show ?case by simp
qed simp

lemma pop_times_holds:
  "holds q (xs @ ys) \<Longrightarrow> \<exists>q'. pop_times pop (length xs) q = Some (xs, q') \<and> holds q' ys"
proof (induction xs arbitrary: q)
  case (Cons x xs)
  obtain q1 where q1: "pop q = Some (x, q1)" "holds q1 (xs @ ys)"
    using pop_holds [of q x "xs @ ys"] Cons.prems by auto
  from Cons.IH [OF q1(2)] q1(1) show ?case by fastforce
qed simp

lemma first_in_first_out:
  assumes "holds q xs" and "\<And>us y vs. ys = us @ y # vs \<Longrightarrow> addable (xs @ us) y"
  shows "\<exists>q' q''. push_all push q ys = Some q' \<and> holds q' (xs @ ys) \<and>
    pop_times pop (length (xs @ ys)) q' = Some (xs @ ys, q'') \<and> holds q'' [] \<and> pop q'' = None"
  using push_all_holds [OF assms] pop_times_holds [of _ "xs @ ys" "[]"] pop_nothing by fastforce

end

interpretation klist: fifo_queue "\<lambda>h. wf_list h l" "\<lambda>xs e. e \<noteq> NULL \<and> e \<notin> set (nodes l xs)"
    "\<lambda>h. list_push_back h l" "\<lambda>h. list_pop_front h l" for l
proof
  show "\<exists>h'. list_push_back h l e = Some h' \<and> wf_list h' l (xs @ [e])"
    if "wf_list h l xs" "e \<noteq> NULL \<and> e \<notin> set (nodes l xs)" for h xs e
    using wf_list_push_back [of h l xs e] that by blast
  show "\<exists>h'. list_pop_front h l = Some (e, h') \<and> wf_list h' l xs" if "wf_list h l (e # xs)" for h e xs
    using wf_list_pop_front [OF that] by blast
  show "list_pop_front h l = None" if "wf_list h l []" for h
    using pop_empty_faults(1) [OF that] .
qed

lemma fresh_prefix:
  assumes "distinct (xs @ ys)" "NULL \<notin> set ys" "set ys \<inter> {head_addr l, tail_addr l} = {}"
    and "ys = us @ y # vs"
  shows "y \<noteq> NULL \<and> y \<notin> set (nodes l (xs @ us))"
  using assms by auto

text \<open>C28: elements appended to a well-formed kernel list come back in the order they were queued,
  behind the ones already there; afterwards the list is empty and a further pop stops the kernel.\<close>

theorem list_fifo:
  assumes "wf_list h l xs" and "distinct (xs @ ys)" and "NULL \<notin> set ys"
    and "set ys \<inter> {head_addr l, tail_addr l} = {}"
  shows "\<exists>h' h''. push_all (\<lambda>h. list_push_back h l) h ys = Some h' \<and> wf_list h' l (xs @ ys) \<and>
    pop_times (\<lambda>h. list_pop_front h l) (length (xs @ ys)) h' = Some (xs @ ys, h'') \<and>
    wf_list h'' l [] \<and> list_pop_front h'' l = None"
  using klist.first_in_first_out [OF assms(1) fresh_prefix [OF assms(2-4)]] .

theorem list_fifo_witness:
  "\<exists>h' h''. push_all (\<lambda>h. list_push_back h 100) (list_at 100 [20]) [40, 10] = Some h' \<and>
    wf_list h' 100 ([20] @ [40, 10]) \<and>
    pop_times (\<lambda>h. list_pop_front h 100) (length ([20] @ [40, 10] :: addr list)) h' = Some ([20] @ [40, 10], h'') \<and>
    wf_list h'' 100 [] \<and> list_pop_front h'' 100 = None"
  by (rule list_fifo) (simp_all add: wf_eval)

lemma nodes_seg:
  obtains A p B where "nodes k (as @ S @ bs) = A @ p # S @ hd (bs @ [tail_addr k]) # B"
    and "nodes k (as @ bs) = A @ p # hd (bs @ [tail_addr k]) # B"
proof -
  obtain A p where "head_addr k # as = A @ [p]" by (metis neq_Nil_conv rev_exhaust)
  moreover obtain B where "bs @ [tail_addr k] = hd (bs @ [tail_addr k]) # B" by (cases bs) auto
  ultimately show thesis using that [of A p B] by (simp add: nodes_def)
qed

section \<open>Sorting and ordered insertion\<close>

text \<open>C11: given a strict weak order, \<^verbatim>\<open>list_sort\<close> returns on every well-formed list, and the list then
  is well formed, holds the same elements in nondecreasing order, keeps elements that compare equal
  in their original order, and no element outside the list has been touched.\<close>

theorem list_sort_correct:
  assumes "strict_weak lt" and "wf_list h l xs"
  shows "\<exists>h' ys. list_sort h lt l = Some h' \<and> wf_list h' l ys \<and> sorted_by lt ys \<and> mset ys = mset xs \<and>
    (\<forall>x. filter (eqv lt x) ys = filter (eqv lt x) xs) \<and> same_off (set (nodes l xs)) h h'"
  using wf_list_sort [OF assms] by metis

lemma strict_weak_div: "strict_weak (\<lambda>a b :: addr. a div k < b div k)"
  by (auto simp: strict_weak_def)

theorem list_sort_correct_witness:
  "\<exists>h' ys. list_sort (list_at 100 [32, 10, 31, 20]) (\<lambda>a b. a div 10 < b div 10) 100 = Some h' \<and>
    wf_list h' 100 ys \<and> sorted_by (\<lambda>a b. a div 10 < b div 10) ys \<and> mset ys = mset [32, 10, 31, 20] \<and>
    (\<forall>x. filter (eqv (\<lambda>a b. a div 10 < b div 10) x) ys =
       filter (eqv (\<lambda>a b. a div 10 < b div 10) x) [32, 10, 31, 20]) \<and>
    same_off (set (nodes 100 [32, 10, 31, 20])) (list_at 100 [32, 10, 31, 20]) h'"
  by (rule list_sort_correct) (simp_all add: strict_weak_div wf_eval)

text \<open>C31: \<^verbatim>\<open>list_insert_ordered\<close> puts a fresh element into a sorted list so that the list stays sorted
  and holds exactly one element more, behind all elements that are not greater than it.\<close>

theorem list_insert_ordered_correct:
  assumes "strict_weak lt" and "wf_list h l xs" and "sorted_by lt xs"
    and "e \<noteq> NULL" and "e \<notin> set (nodes l xs)"
  shows "\<exists>h' ys. list_insert_ordered h lt l e = Some h' \<and> wf_list h' l ys \<and> sorted_by lt ys \<and>
    ys = takeWhile (\<lambda>y. \<not> lt e y) xs @ e # dropWhile (\<lambda>y. \<not> lt e y) xs"
  using wf_list_insert_ordered [OF assms(2,4,5), of lt] insert_ord_sorted [OF assms(1,3), of e]
  unfolding insert_ord_def by metis

theorem list_insert_ordered_correct_witness:
  "\<exists>h' ys. list_insert_ordered (list_at 100 [10, 20, 40]) (<) 100 30 = Some h' \<and> wf_list h' 100 ys \<and>
    sorted_by (<) ys \<and> ys = takeWhile (\<lambda>y. \<not> 30 < y) [10, 20, 40] @ 30 # dropWhile (\<lambda>y. \<not> 30 < y) [10, 20, 40]"
  by (rule list_insert_ordered_correct) (auto simp: strict_weak_def wf_eval)

section \<open>Reversal, duplicates, extrema, splicing\<close>

text \<open>\<^verbatim>\<open>list_reverse\<close> returns on every well-formed list, leaves it well formed with its elements in
  the opposite order, changes nothing outside it, and a second call restores the original order.\<close>

theorem list_reverse_correct:
  assumes "wf_list h l xs"
  shows "\<exists>h' h''. list_reverse h l = Some h' \<and> wf_list h' l (rev xs) \<and> same_off (set (nodes l xs)) h h' \<and>
    list_reverse h' l = Some h'' \<and> wf_list h'' l xs"
proof -
  obtain h' where h': "list_reverse h l = Some h'" "wf_list h' l (rev xs)" "same_off (set (nodes l xs)) h h'"
    using wf_list_reverse [OF assms] by blast
  obtain h'' where "list_reverse h' l = Some h''" "wf_list h'' l (rev (rev xs))"
    using wf_list_reverse [OF h'(2)] by blast
  with h' show ?thesis by simp
qed

theorem list_reverse_correct_witness:
  "\<exists>h' h''. list_reverse (list_at 100 [30, 10, 20]) 100 = Some h' \<and> wf_list h' 100 (rev [30, 10, 20]) \<and>
    same_off (set (nodes 100 [30, 10, 20])) (list_at 100 [30, 10, 20]) h' \<and>
    list_reverse h' 100 = Some h'' \<and> wf_list h'' 100 [30, 10, 20]"
  by (rule list_reverse_correct) (simp add: wf_eval)

text \<open>C29: \<^verbatim>\<open>list_unique\<close> returns; every element is afterwards in exactly one of the two lists, the first
  list has no two adjacent elements that compare equal, and the removed ones are appended to
  the list of duplicates in the order in which they were met.\<close>

theorem list_unique_correct:
  assumes "wf_list h l xs" and "wf_list h d ds" and "set (nodes d ds) \<inter> set (nodes l xs) = {}"
  shows "\<exists>h' us vs. list_unique h lt l d = Some h' \<and> wf_list h' l us \<and> wf_list h' d (ds @ vs) \<and>
    mset us + mset vs = mset xs \<and> successively (\<lambda>x y. \<not> eqv lt x y) us \<and>
    us = uniq lt xs \<and> vs = dups lt xs"
proof -
  have "d \<noteq> NULL" using wf_listD(1) [OF assms(2)] .
  with wf_list_unique [OF assms(1), of d ds lt] assms(2,3) obtain h' where
    "list_unique h lt l d = Some h'" "wf_list h' l (uniq lt xs)" "wf_list h' d (ds @ dups lt xs)"
    by (auto simp: dup_list_def)
  with uniq_dups_mset [of lt xs] uniq_adjacent [of lt xs] show ?thesis by blast
qed

theorem list_unique_correct_witness:
  "\<exists>h' us vs. list_unique ((list_at 100 [12, 10, 20])\<lparr>next_of := (next_of (list_at 100 [12, 10, 20]))(200 := 208),
      prev_of := (prev_of (list_at 100 [12, 10, 20]))(208 := 200)\<rparr>) (\<lambda>a b. a div 10 < b div 10) 100 200 = Some h' \<and>
    wf_list h' 100 us \<and> wf_list h' 200 ([] @ vs) \<and> mset us + mset vs = mset [12, 10, 20] \<and>
    successively (\<lambda>x y. \<not> eqv (\<lambda>a b. a div 10 < b div 10) x y) us \<and>
    us = uniq (\<lambda>a b. a div 10 < b div 10) [12, 10, 20] \<and> vs = dups (\<lambda>a b. a div 10 < b div 10) [12, 10, 20]"
  by (rule list_unique_correct) (simp_all add: wf_eval)

lemma first_max:
  assumes "strict_weak lt"
  shows "\<exists>as bs. e # es = as @ lmax lt e es # bs \<and> (\<forall>x\<in>set as. lt x (lmax lt e es)) \<and>
    (\<forall>x\<in>set bs. \<not> lt (lmax lt e es) x)"
  using lmax_max [OF assms, of e es] by metis

text \<open>On a nonempty list \<^verbatim>\<open>list_max\<close> returns the first of the greatest elements and \<^verbatim>\<open>list_min\<close> the
  first of the smallest ones; on an empty list both return the tail.\<close>

theorem list_max_min_correct:
  assumes "strict_weak lt" and "wf_list h l xs"
  shows "if xs = [] then list_max h lt l = Some (tail_addr l) \<and> list_min h lt l = Some (tail_addr l)
    else (\<exists>as m bs. list_max h lt l = Some m \<and> xs = as @ m # bs \<and>
            (\<forall>x\<in>set as. lt x m) \<and> (\<forall>x\<in>set bs. \<not> lt m x)) \<and>
         (\<exists>as m bs. list_min h lt l = Some m \<and> xs = as @ m # bs \<and>
            (\<forall>x\<in>set as. lt m x) \<and> (\<forall>x\<in>set bs. \<not> lt x m))"
proof (cases xs)
  case (Cons e es)
  have "strict_weak (\<lambda>x y. lt y x)" using assms(1) unfolding strict_weak_def by blast
  note * = first_max [OF assms(1), of e es] first_max [OF this, of e es]
  have "list_max h lt l = Some (lmax lt e es)" "list_min h lt l = Some (lmax (\<lambda>x y. lt y x) e es)"
    using Cons wf_list_max_min [OF assms(2), of lt] by simp_all
  with * show ?thesis unfolding Cons by simp
qed (use wf_list_max_min [OF assms(2), of lt] in simp)

theorem list_max_min_correct_witness:
  "if [30, 42, 41] = ([] :: addr list) then list_max (list_at 100 [30, 42, 41]) (\<lambda>a b. a div 10 < b div 10) 100 = Some (tail_addr 100) \<and>
      list_min (list_at 100 [30, 42, 41]) (\<lambda>a b. a div 10 < b div 10) 100 = Some (tail_addr 100)
    else (\<exists>as m bs. list_max (list_at 100 [30, 42, 41]) (\<lambda>a b. a div 10 < b div 10) 100 = Some m \<and>
            [30, 42, 41] = as @ m # bs \<and> (\<forall>x\<in>set as. x div 10 < m div 10) \<and> (\<forall>x\<in>set bs. \<not> m div 10 < x div 10)) \<and>
         (\<exists>as m bs. list_min (list_at 100 [30, 42, 41]) (\<lambda>a b. a div 10 < b div 10) 100 = Some m \<and>
            [30, 42, 41] = as @ m # bs \<and> (\<forall>x\<in>set as. m div 10 < x div 10) \<and> (\<forall>x\<in>set bs. \<not> x div 10 < m div 10))"
  by (rule list_max_min_correct) (simp_all add: strict_weak_div wf_eval)

text \<open>C30: \<^verbatim>\<open>list_splice\<close> takes a nonempty segment out of one list and puts it, in order, before any
  position of a disjoint list, the end included; both lists stay well formed.\<close>

theorem list_splice_correct:
  assumes "wf_list h k (as @ S @ bs)" and "S \<noteq> []" and "wf_list h l (cs @ ds)"
    and "set (nodes k (as @ S @ bs)) \<inter> set (nodes l (cs @ ds)) = {}"
  shows "\<exists>h'. list_splice h (hd (ds @ [tail_addr l])) (hd S) (hd (bs @ [tail_addr k])) = Some h' \<and>
    wf_list h' k (as @ bs) \<and> wf_list h' l (cs @ S @ ds)"
proof -
  obtain A p B where n: "nodes k (as @ S @ bs) = A @ p # S @ hd (bs @ [tail_addr k]) # B"
    "nodes k (as @ bs) = A @ p # hd (bs @ [tail_addr k]) # B"
    using nodes_seg [of k as S bs] by metis
  obtain C r D where m: "nodes l (cs @ ds) = C @ r # hd (ds @ [tail_addr l]) # D"
    "nodes l (cs @ S @ ds) = C @ r # S @ hd (ds @ [tail_addr l]) # D"
    using nodes_seg [of l cs S ds] by metis
  show ?thesis
    using chain_splice2 [of h A p S _ B C r _ D] assms unfolding wf_list_def n m by metis
qed

theorem list_splice_correct_witness:
  "\<exists>h'. list_splice ((list_at 100 [10, 20, 30])\<lparr>next_of := (next_of (list_at 100 [10, 20, 30]))(200 := 208),
      prev_of := (prev_of (list_at 100 [10, 20, 30]))(208 := 200)\<rparr>)
      (hd ([] @ [tail_addr 200])) (hd [20, 30]) (hd ([] @ [tail_addr 100])) = Some h' \<and>
    wf_list h' 100 ([10] @ []) \<and> wf_list h' 200 ([] @ [20, 30] @ [])"
  by (rule list_splice_correct) (simp_all add: wf_eval)

end
