(* ===== verification/Block.thy ===== *)
theory Block
  imports Prelude
begin

text \<open>
  Block devices, devices/block.c, and partitions of them, devices/partition.c.

  A sector holds \<open>BLOCK_SECTOR_SIZE\<close> bytes. The driver behind a device is given, as in the code, by a
  pair of operations on its private data (\<^verbatim>\<open>struct block_operations\<close> and \<^verbatim>\<open>aux\<close>); reading may change
  that data too. The interface \<open>sector_store\<close> says what everything that stores sectors promises: a
  driver, a block device, a partition and, in the next theory, the buffer cache. It is shown here
  that a device over a lawful driver is lawful, and that a partition of a lawful device is.
\<close>

section \<open>The code\<close>

abbreviation BLOCK_SECTOR_SIZE :: nat where
  "BLOCK_SECTOR_SIZE \<equiv> 512"

type_synonym sector_data = "u8 list"

datatype block_type = BLOCK_KERNEL | BLOCK_FILESYS | BLOCK_SCRATCH | BLOCK_SWAP | BLOCK_RAW | BLOCK_FOREIGN

record 'm block_operations =
  op_read :: "'m \<Rightarrow> nat \<Rightarrow> (sector_data \<times> 'm) option"
  op_write :: "'m \<Rightarrow> nat \<Rightarrow> sector_data \<Rightarrow> 'm option"

record 'm block =
  btype :: block_type
  bsize :: nat
  ops :: "'m block_operations"
  aux :: 'm
  read_cnt :: u64
  write_cnt :: u64

definition block_register :: "block_type \<Rightarrow> nat \<Rightarrow> 'm block_operations \<Rightarrow> 'm \<Rightarrow> 'm block" where
  "block_register ty n os m = \<lparr>btype = ty, bsize = n, ops = os, aux = m, read_cnt = 0, write_cnt = 0\<rparr>"

definition block_size :: "'m block \<Rightarrow> nat" where
  "block_size b = bsize b"

definition check_sector :: "'m block \<Rightarrow> nat \<Rightarrow> unit option" where
  "check_sector b sector = (if bsize b \<le> sector then None else Some ())"

definition block_read :: "'m block \<Rightarrow> nat \<Rightarrow> (sector_data \<times> 'm block) option" where
  "block_read b sector = do {
     check_sector b sector;
     (d, m) \<leftarrow> op_read (ops b) (aux b) sector;
     Some (d, b\<lparr>aux := m, read_cnt := read_cnt b + 1\<rparr>) }"

definition block_write :: "'m block \<Rightarrow> nat \<Rightarrow> sector_data \<Rightarrow> 'm block option" where
  "block_write b sector buffer = do {
     check_sector b sector;
     assertO (btype b \<noteq> BLOCK_FOREIGN);
     m \<leftarrow> op_write (ops b) (aux b) sector buffer;
     Some (b\<lparr>aux := m, write_cnt := write_cnt b + 1\<rparr>) }"

record 'm partition =
  pblock :: "'m block"
  pstart :: nat

definition partition_read :: "'m partition \<Rightarrow> nat \<Rightarrow> (sector_data \<times> 'm partition) option" where
  "partition_read p sector = do {
     (d, b) \<leftarrow> block_read (pblock p) (sz (pstart p + sector));
     Some (d, p\<lparr>pblock := b\<rparr>) }"

definition partition_write :: "'m partition \<Rightarrow> nat \<Rightarrow> sector_data \<Rightarrow> 'm partition option" where
  "partition_write p sector buffer = do {
     b \<leftarrow> block_write (pblock p) (sz (pstart p + sector)) buffer;
     Some (p\<lparr>pblock := b\<rparr>) }"

definition partition_operations :: "'m partition block_operations" where
  "partition_operations = \<lparr>op_read = partition_read, op_write = partition_write\<rparr>"

definition partition_type :: "u8 \<Rightarrow> block_type" where
  "partition_type part_type =
     (if part_type = 0x20 then BLOCK_KERNEL
      else if part_type = 0x21 then BLOCK_FILESYS
      else if part_type = 0x22 then BLOCK_SCRATCH
      else if part_type = 0x23 then BLOCK_SWAP
      else BLOCK_FOREIGN)"

definition found_partition :: "'m block \<Rightarrow> u8 \<Rightarrow> nat \<Rightarrow> nat \<Rightarrow> 'm partition block option" where
  "found_partition b part_type start n =
     (if block_size b \<le> start then None
      else if sz (start + n) < start \<or> block_size b < sz (start + n) then None
      else Some (block_register (partition_type part_type) n partition_operations \<lparr>pblock = b, pstart = start\<rparr>))"

section \<open>Stores of sectors\<close>

locale sector_store =
  fixes good :: "'s \<Rightarrow> bool"
    and view :: "'s \<Rightarrow> nat \<Rightarrow> sector_data"
    and n :: nat
    and rd :: "'s \<Rightarrow> nat \<Rightarrow> (sector_data \<times> 's) option"
    and wr :: "'s \<Rightarrow> nat \<Rightarrow> sector_data \<Rightarrow> 's option"
  assumes rd_view: "good s \<Longrightarrow> a < n \<Longrightarrow> \<exists>s'. rd s a = Some (view s a, s') \<and> good s' \<and> view s' = view s"
    and wr_view: "good s \<Longrightarrow> a < n \<Longrightarrow> length d = BLOCK_SECTOR_SIZE \<Longrightarrow>
      \<exists>s'. wr s a d = Some s' \<and> good s' \<and> view s' = (view s)(a := d)"
    and view_length: "good s \<Longrightarrow> a < n \<Longrightarrow> length (view s a) = BLOCK_SECTOR_SIZE"

datatype request = Rd nat | Wr nat sector_data

fun sector_of :: "request \<Rightarrow> nat" where
  "sector_of (Rd a) = a"
| "sector_of (Wr a d) = a"

fun valid_request :: "nat \<Rightarrow> request \<Rightarrow> bool" where
  "valid_request n (Rd a) \<longleftrightarrow> a < n"
| "valid_request n (Wr a d) \<longleftrightarrow> a < n \<and> length d = BLOCK_SECTOR_SIZE"

text \<open>Serving a sequence of requests; the answers to the reads, in order. Below, the same for a plain
  array of sectors, which is the specification of every store.\<close>

fun serve :: "('s \<Rightarrow> nat \<Rightarrow> (sector_data \<times> 's) option) \<Rightarrow> ('s \<Rightarrow> nat \<Rightarrow> sector_data \<Rightarrow> 's option) \<Rightarrow>
    's \<Rightarrow> request list \<Rightarrow> (sector_data list \<times> 's) option" where
  "serve rd wr s [] = Some ([], s)"
| "serve rd wr s (Rd a # rs) = do {
     (d, s) \<leftarrow> rd s a;
     (ds, s) \<leftarrow> serve rd wr s rs;
     Some (d # ds, s) }"
| "serve rd wr s (Wr a d # rs) = do { s \<leftarrow> wr s a d; serve rd wr s rs }"

fun serve_array :: "(nat \<Rightarrow> sector_data) \<Rightarrow> request list \<Rightarrow> sector_data list \<times> (nat \<Rightarrow> sector_data)" where
  "serve_array v [] = ([], v)"
| "serve_array v (Rd a # rs) = (let (ds, v') = serve_array v rs in (v a # ds, v'))"
| "serve_array v (Wr a d # rs) = serve_array (v(a := d)) rs"

context sector_store
begin

lemma rdE:
  assumes "good s" "a < n"
  obtains s' where "rd s a = Some (view s a, s')" and "good s'" and "view s' = view s"
  using rd_view [OF assms] by blast

lemma wrE:
  assumes "good s" "a < n" "length d = BLOCK_SECTOR_SIZE"
  obtains s' where "wr s a d = Some s'" and "good s'" and "view s' = (view s)(a := d)"
  using wr_view [OF assms] by blast

lemma serve_refines:
  assumes "good s" "list_all (valid_request n) rs"
  shows "\<exists>s'. serve rd wr s rs = Some (fst (serve_array (view s) rs), s') \<and> good s' \<and>
    view s' = snd (serve_array (view s) rs)"
  using assms
proof (induction rs arbitrary: s)
  case (Cons r rs)
  show ?case
  proof (cases r)
    case (Rd a)
    with Cons.prems obtain s1 where "rd s a = Some (view s a, s1)" "good s1" "view s1 = view s"
      using rdE [of s a] by auto
    with Cons.IH [of s1] Cons.prems Rd show ?thesis by (auto split: prod.split)
  next
    case (Wr a d)
    with Cons.prems obtain s1 where "wr s a d = Some s1" "good s1" "view s1 = (view s)(a := d)"
      using wrE [of s a d] by auto
    with Cons.IH [of s1] Cons.prems Wr show ?thesis by (simp del: fun_upd_apply)
  qed
qed simp

end

section \<open>A device over a lawful driver, a partition of a lawful device\<close>

definition block_good :: "('m \<Rightarrow> bool) \<Rightarrow> nat \<Rightarrow> 'm block_operations \<Rightarrow> 'm block \<Rightarrow> bool" where
  "block_good good n os b \<longleftrightarrow> bsize b = n \<and> ops b = os \<and> btype b \<noteq> BLOCK_FOREIGN \<and> good (aux b)"

definition block_view :: "('m \<Rightarrow> nat \<Rightarrow> sector_data) \<Rightarrow> 'm block \<Rightarrow> nat \<Rightarrow> sector_data" where
  "block_view view b = view (aux b)"

lemma block_store:
  assumes "sector_store good view n (op_read os) (op_write os)"
  shows "sector_store (block_good good n os) (block_view view) n block_read block_write"
proof -
  note * = sector_store.rd_view [OF assms] sector_store.wr_view [OF assms] sector_store.view_length [OF assms]
  show ?thesis
  proof
    fix b :: "'a block" and a
    assume b: "block_good good n os b" and a: "a < n"
    obtain m where m: "op_read os (aux b) a = Some (view (aux b) a, m)" "good m" "view m = view (aux b)"
      using *(1) [of "aux b" a] b a by (auto simp: block_good_def)
    then show "\<exists>b'. block_read b a = Some (block_view view b a, b') \<and> block_good good n os b' \<and>
        block_view view b' = block_view view b"
      using b a by (simp add: block_read_def check_sector_def block_good_def block_view_def)
    show "length (block_view view b a) = BLOCK_SECTOR_SIZE"
      using b a *(3) by (simp add: block_good_def block_view_def)
    fix d :: sector_data
    assume d: "length d = BLOCK_SECTOR_SIZE"
    obtain m where m: "op_write os (aux b) a d = Some m" "good m" "view m = (view (aux b))(a := d)"
      using *(2) [of "aux b" a d] b a d by (auto simp: block_good_def)
    then show "\<exists>b'. block_write b a d = Some b' \<and> block_good good n os b' \<and>
        block_view view b' = (block_view view b)(a := d)"
      using b a by (simp add: block_write_def check_sector_def block_good_def block_view_def)
  qed
qed

lemma block_past_end: "bsize b \<le> a \<Longrightarrow> block_read b a = None" "bsize b \<le> a \<Longrightarrow> block_write b a d = None"
  by (simp_all add: block_read_def block_write_def check_sector_def)

definition part_good :: "('m block \<Rightarrow> bool) \<Rightarrow> nat \<Rightarrow> 'm partition \<Rightarrow> bool" where
  "part_good good start p \<longleftrightarrow> pstart p = start \<and> good (pblock p)"

definition part_view :: "('m block \<Rightarrow> nat \<Rightarrow> sector_data) \<Rightarrow> 'm partition \<Rightarrow> nat \<Rightarrow> sector_data" where
  "part_view view p a = view (pblock p) (pstart p + a)"

lemma partition_store:
  assumes "sector_store good view n block_read block_write" and "start + k \<le> n" and "n < 2 ^ 32"
  shows "sector_store (part_good good start) (part_view view) k partition_read partition_write"
proof -
  note * = sector_store.rd_view [OF assms(1)] sector_store.wr_view [OF assms(1)] sector_store.view_length [OF assms(1)]
  show ?thesis
  proof
    fix p :: "'a partition" and a
    assume p: "part_good good start p" and a: "a < k"
    have sa: "start + a < n" "sz (start + a) = start + a" using a assms(2,3) by simp_all
    obtain b where "block_read (pblock p) (start + a) = Some (view (pblock p) (start + a), b)" "good b"
      "view b = view (pblock p)"
      using *(1) [of "pblock p" "start + a"] p sa by (auto simp: part_good_def)
    then show "\<exists>p'. partition_read p a = Some (part_view view p a, p') \<and> part_good good start p' \<and>
        part_view view p' = part_view view p"
      using p sa by (auto simp: partition_read_def part_good_def part_view_def fun_eq_iff)
    show "length (part_view view p a) = BLOCK_SECTOR_SIZE"
      using p sa *(3) by (simp add: part_good_def part_view_def)
    fix d :: sector_data
    assume d: "length d = BLOCK_SECTOR_SIZE"
    obtain b where "block_write (pblock p) (start + a) d = Some b" "good b"
      "view b = (view (pblock p))(start + a := d)"
      using *(2) [of "pblock p" "start + a" d] p sa d by (auto simp: part_good_def)
    then show "\<exists>p'. partition_write p a d = Some p' \<and> part_good good start p' \<and>
        part_view view p' = (part_view view p)(a := d)"
      using p sa by (auto simp: partition_write_def part_good_def part_view_def fun_eq_iff)
  qed
qed

section \<open>A driver that keeps the sectors in memory\<close>

definition ram_ops :: "nat \<Rightarrow> sector_data list block_operations" where
  "ram_ops n = \<lparr>op_read = (\<lambda>m a. map_option (\<lambda>d. (d, m)) (idx_get m a)), op_write = idx_set\<rparr>"

definition ram_good :: "nat \<Rightarrow> sector_data list \<Rightarrow> bool" where
  "ram_good n m \<longleftrightarrow> length m = n \<and> list_all (\<lambda>d. length d = BLOCK_SECTOR_SIZE) m"

definition ram_view :: "sector_data list \<Rightarrow> nat \<Rightarrow> sector_data" where
  "ram_view m a = (if a < length m then m ! a else [])"

interpretation ram: sector_store "ram_good n" ram_view n "op_read (ram_ops n)" "op_write (ram_ops n)" for n
  by unfold_locales
    (auto simp: ram_ops_def ram_good_def ram_view_def list_all_length nth_list_update fun_eq_iff idx_get_def idx_set_def)

interpretation ram_dev: sector_store "block_good (ram_good n) n (ram_ops n)" "block_view ram_view" n
    block_read block_write for n
  by (rule block_store) (rule ram.sector_store_axioms)

end
