(* ===== verification/Cache.thy ===== *)
theory Cache
  imports Block
begin

text \<open>
  The buffer cache of filesys/inode.c (lines 47 to 255): up to \<open>CACHE_SIZE\<close> sectors with a reference
  age per entry, write-back, eviction of the entry that has not been used for longest.

  The operations are modelled one at a time, each running to its end: the entry locks and the lock of
  \<^verbatim>\<open>entry_num\<close>, which order concurrent callers, have no counterpart. The ages (\<^verbatim>\<open>int ref_count\<close>) are
  integers. Every \<^verbatim>\<open>malloc\<close> of a bounce buffer asks the oracle \<open>alloc_ok\<close>, numbered by the count of
  allocations so far, so that every pattern of failures is covered.
\<close>

section \<open>The code\<close>

abbreviation CACHE_SIZE :: nat where
  "CACHE_SIZE \<equiv> 32"

definition NO_SECTOR :: nat where
  "NO_SECTOR = 2 ^ 32 - 1"

record cache_entry =
  ce_sector :: nat
  ref_count :: int
  ce_write :: bool
  ce_data :: sector_data

record 'm cstate =
  fs_device :: "'m block"
  entry_num :: nat
  cache_entrys :: "cache_entry list"
  alloc_ok :: "nat \<Rightarrow> bool"
  allocs :: nat

definition malloc :: "'m cstate \<Rightarrow> bool \<times> 'm cstate" where
  "malloc c = (alloc_ok c (allocs c), c\<lparr>allocs := allocs c + 1\<rparr>)"

definition cache_init :: "'m cstate \<Rightarrow> 'm cstate" where
  "cache_init c = c\<lparr>entry_num := 0,
     cache_entrys := map (\<lambda>e. e\<lparr>ce_sector := NO_SECTOR, ref_count := 0, ce_write := False\<rparr>) (cache_entrys c)\<rparr>"

text \<open>The first loop of \<^verbatim>\<open>cache_read\<close>; a later match overwrites the data of an earlier one.\<close>

fun read_scan :: "nat \<Rightarrow> sector_data option \<Rightarrow> cache_entry list \<Rightarrow> cache_entry list \<times> sector_data option" where
  "read_scan sector acc [] = ([], acc)"
| "read_scan sector acc (e # es) =
     (if ce_sector e = sector
      then apfst (Cons (e\<lparr>ref_count := 0\<rparr>)) (read_scan sector (Some (ce_data e)) es)
      else apfst (Cons (e\<lparr>ref_count := ref_count e + 1\<rparr>)) (read_scan sector acc es))"

text \<open>The loop of \<^verbatim>\<open>cache_write\<close>: the index of the last match (\<^verbatim>\<open>found\<close>, \<^verbatim>\<open>replace\<close>) and of the first entry
  of greatest age (\<^verbatim>\<open>max\<close>, \<^verbatim>\<open>max_index\<close>).\<close>

fun write_scan :: "nat \<Rightarrow> nat \<Rightarrow> int \<Rightarrow> nat \<Rightarrow> nat option \<Rightarrow> cache_entry list \<Rightarrow>
    cache_entry list \<times> nat \<times> nat option" where
  "write_scan sector i mx max_index replace [] = ([], max_index, replace)"
| "write_scan sector i mx max_index replace (e # es) =
     (if ce_sector e = sector
      then apfst (Cons (e\<lparr>ref_count := 0\<rparr>)) (write_scan sector (i + 1) mx max_index (Some i) es)
      else apfst (Cons (e\<lparr>ref_count := ref_count e + 1\<rparr>))
             (if mx < ref_count e + 1
              then write_scan sector (i + 1) (ref_count e + 1) i replace es
              else write_scan sector (i + 1) mx max_index replace es))"

definition cache_write :: "'m cstate \<Rightarrow> nat \<Rightarrow> sector_data \<Rightarrow> 'm cstate option" where
  "cache_write c sector d = (
     let n = entry_num c;
         (es, max_index, replace) = write_scan sector 0 0 0 None (take n (cache_entrys c));
         es = es @ drop n (cache_entrys c);
         new = \<lparr>ce_sector = sector, ref_count = 0, ce_write = True, ce_data = d\<rparr> in
     case replace of
       Some r \<Rightarrow> do { es \<leftarrow> idx_set es r new; Some (c\<lparr>cache_entrys := es\<rparr>) }
     | None \<Rightarrow> do {
         c \<leftarrow> (if n < CACHE_SIZE
              then do { es \<leftarrow> idx_set es n new; Some (c\<lparr>cache_entrys := es, entry_num := n + 1\<rparr>) }
              else Some (c\<lparr>cache_entrys := es\<rparr>));
         if entry_num c < CACHE_SIZE then Some c
         else if entry_num c = CACHE_SIZE then do {
           victim \<leftarrow> idx_get (cache_entrys c) max_index;
           b \<leftarrow> (if ce_write victim then block_write (fs_device c) (ce_sector victim) (ce_data victim)
                else Some (fs_device c));
           es \<leftarrow> idx_set (cache_entrys c) max_index new;
           Some (c\<lparr>fs_device := b, cache_entrys := es\<rparr>) }
         else Some c })"

definition cache_read :: "'m cstate \<Rightarrow> nat \<Rightarrow> (bool \<times> sector_data \<times> 'm cstate) option" where
  "cache_read c sector = (
     let n = entry_num c;
         (es, hit) = read_scan sector None (take n (cache_entrys c)) in
     case hit of
       Some d \<Rightarrow> Some (True, d, c\<lparr>cache_entrys := es @ drop n (cache_entrys c)\<rparr>)
     | None \<Rightarrow> do {
         let es = map (\<lambda>e. e\<lparr>ref_count := ref_count e - 1\<rparr>) es @ drop n (cache_entrys c);
         (d, b) \<leftarrow> block_read (fs_device c) sector;
         c \<leftarrow> cache_write (c\<lparr>cache_entrys := es, fs_device := b\<rparr>) sector d;
         Some (False, d, c) })"

text \<open>The bytes copied to the caller's buffer, or \<open>None\<close> when both allocations failed and the buffer is
  left alone.\<close>

definition cache_read_bytes :: "'m cstate \<Rightarrow> nat \<Rightarrow> nat \<Rightarrow> nat \<Rightarrow> (u8 list option \<times> 'm cstate) option" where
  "cache_read_bytes c sector_idx ofs len = (
     let (ok, c) = malloc c;
         (ok, c) = (if ok then (True, c) else malloc c) in
     if \<not> ok then Some (None, c)
     else do {
       (_, bounce, c) \<leftarrow> cache_read c sector_idx;
       assertO (ofs + len \<le> BLOCK_SECTOR_SIZE);
       Some (Some (take len (drop ofs bounce)), c) })"

text \<open>The bounce buffer is filled from the cache only when part of the sector survives.\<close>

definition fill_bounce :: "'m cstate \<Rightarrow> nat \<Rightarrow> bool \<Rightarrow> (sector_data \<times> 'm cstate) option" where
  "fill_bounce c sector_idx keep =
     (if keep then do { (_, d, c) \<leftarrow> cache_read c sector_idx; Some (d, c) }
      else Some (replicate BLOCK_SECTOR_SIZE 0, c))"

definition cache_write_bytes ::
    "'m cstate \<Rightarrow> nat \<Rightarrow> u8 list \<Rightarrow> nat \<Rightarrow> nat \<Rightarrow> nat \<Rightarrow> (bool \<times> 'm cstate) option" where
  "cache_write_bytes c sector_idx buffer sector_ofs chunk_size sector_left = (
     let (_, c) = malloc c;
         (ok, c) = malloc c in
     if \<not> ok then Some (False, c)
     else do {
       (bounce, c) \<leftarrow> fill_bounce c sector_idx (0 < sector_ofs \<or> chunk_size < sector_left);
       assertO (sector_ofs + chunk_size \<le> BLOCK_SECTOR_SIZE \<and> chunk_size \<le> length buffer);
       c \<leftarrow> cache_write c sector_idx
              (take sector_ofs bounce @ take chunk_size buffer @ drop (sector_ofs + chunk_size) bounce);
       Some (True, c) })"

fun sync_loop :: "'m block \<Rightarrow> cache_entry list \<Rightarrow> 'm block option" where
  "sync_loop b [] = Some b"
| "sync_loop b (e # es) = do { b \<leftarrow> block_write b (ce_sector e) (ce_data e); sync_loop b es }"

definition cache_sync :: "'m cstate \<Rightarrow> 'm cstate option" where
  "cache_sync c = do {
     b \<leftarrow> sync_loop (fs_device c) (take (entry_num c) (cache_entrys c));
     Some (c\<lparr>fs_device := b\<rparr>) }"

section \<open>What the cache stores\<close>

fun cached :: "cache_entry list \<Rightarrow> nat \<Rightarrow> sector_data option" where
  "cached [] a = None"
| "cached (e # es) a = (case cached es a of Some d \<Rightarrow> Some d
     | None \<Rightarrow> if ce_sector e = a then Some (ce_data e) else None)"

definition live :: "'m cstate \<Rightarrow> cache_entry list" where
  "live c = take (entry_num c) (cache_entrys c)"

definition cache_view :: "('m \<Rightarrow> nat \<Rightarrow> sector_data) \<Rightarrow> 'm cstate \<Rightarrow> nat \<Rightarrow> sector_data" where
  "cache_view view c a = (case cached (live c) a of Some d \<Rightarrow> d | None \<Rightarrow> block_view view (fs_device c) a)"

text \<open>Entries of the same sector always have the same age; so the first of them is evicted first.\<close>

definition ages_agree :: "cache_entry list \<Rightarrow> bool" where
  "ages_agree es \<longleftrightarrow> (\<forall>e\<in>set es. \<forall>f\<in>set es. ce_sector e = ce_sector f \<longrightarrow> ref_count e = ref_count f)"

definition entry_good :: "nat \<Rightarrow> cache_entry \<Rightarrow> bool" where
  "entry_good n e \<longleftrightarrow> ce_sector e < n \<and> length (ce_data e) = BLOCK_SECTOR_SIZE \<and> ce_write e \<and> 0 \<le> ref_count e"

definition cache_good :: "('m \<Rightarrow> bool) \<Rightarrow> nat \<Rightarrow> 'm block_operations \<Rightarrow> 'm cstate \<Rightarrow> bool" where
  "cache_good good n os c \<longleftrightarrow> block_good good n os (fs_device c) \<and> length (cache_entrys c) = CACHE_SIZE \<and>
     entry_num c \<le> CACHE_SIZE \<and> list_all (entry_good n) (live c) \<and> ages_agree (live c)"

definition touch :: "nat \<Rightarrow> cache_entry \<Rightarrow> cache_entry" where
  "touch a e = e\<lparr>ref_count := if ce_sector e = a then 0 else ref_count e + 1\<rparr>"

abbreviation sectors :: "cache_entry list \<Rightarrow> nat set" where
  "sectors es \<equiv> ce_sector ` set es"

lemma touch_simps [simp]:
  "ce_sector (touch a e) = ce_sector e" "ce_data (touch a e) = ce_data e" "ce_write (touch a e) = ce_write e"
  by (simp_all add: touch_def)

lemma touch_age [simp]: "ref_count (touch a e) = (if ce_sector e = a then 0 else ref_count e + 1)"
  by (simp add: touch_def)

lemma cached_append [simp]:
  "cached (es @ fs) a = (case cached fs a of Some d \<Rightarrow> Some d | None \<Rightarrow> cached es a)"
  by (induction es) (auto split: option.split)

lemma cached_None: "cached es a = None \<longleftrightarrow> a \<notin> sectors es"
  by (induction es) (auto split: option.split)

lemma cached_not_in: "a \<notin> sectors es \<Longrightarrow> cached es a = None"
  by (simp add: cached_None)

lemma cached_touch [simp]: "cached (map (touch b) es) a = cached es a"
  by (induction es) (simp_all split: option.split)

lemma ages_agreeD: "ages_agree es \<Longrightarrow> e \<in> set es \<Longrightarrow> f \<in> set es \<Longrightarrow> ce_sector e = ce_sector f \<Longrightarrow> ref_count e = ref_count f"
  unfolding ages_agree_def by blast

lemma ages_touch:
  assumes "ages_agree es"
  shows "ages_agree (map (touch a) es)"
proof -
  have "ref_count (touch a e) = ref_count (touch a f)"
    if "e \<in> set es" "f \<in> set es" "ce_sector e = ce_sector f" for e f
    using ages_agreeD [OF assms that] that(3) by (simp add: touch_def)
  then show ?thesis unfolding ages_agree_def set_map by (metis imageE touch_simps(1))
qed

lemma good_touch: "list_all (entry_good n) es \<Longrightarrow> list_all (entry_good n) (map (touch a) es)"
  by (auto simp: list_all_iff entry_good_def touch_def)

lemma cached_length: "list_all (entry_good n) es \<Longrightarrow> cached es a = Some d \<Longrightarrow> length d = BLOCK_SECTOR_SIZE"
  by (induction es) (auto simp: entry_good_def split: option.splits if_splits)

lemma read_scan_eq:
  "read_scan a acc es = (map (touch a) es, case cached es a of Some d \<Rightarrow> Some d | None \<Rightarrow> acc)"
  by (induction es arbitrary: acc) (auto simp: touch_def split: option.split)

lemma write_scan_map: "fst (write_scan a i mx mi rep es) = map (touch a) es"
  by (induction es arbitrary: i mx mi rep) (simp_all add: touch_def)

lemma write_scan_miss: "a \<notin> sectors es \<Longrightarrow> snd (snd (write_scan a i mx mi rep es)) = rep"
  by (induction es arbitrary: i mx mi rep) simp_all

lemma write_scan_victim:
  assumes "a \<notin> sectors es"
  shows "fst (snd (write_scan a i mx mi rep es)) = mi \<and> (\<forall>e\<in>set es. ref_count e + 1 \<le> mx) \<or>
    (\<exists>A e B. es = A @ e # B \<and> fst (snd (write_scan a i mx mi rep es)) = i + length A \<and>
       mx < ref_count e + 1 \<and> (\<forall>f\<in>set A. ref_count f < ref_count e))"
  using assms
proof (induction es arbitrary: i mx mi)
  case (Cons e es)
  then have na: "a \<notin> sectors es" by simp
  show ?case
  proof (cases "mx < ref_count e + 1")
    case True
    then have w: "snd (write_scan a i mx mi rep (e # es)) = snd (write_scan a (i + 1) (ref_count e + 1) i rep es)"
      using Cons.prems by simp
    from Cons.IH [OF na, of "i + 1" "ref_count e + 1" i] show ?thesis
    proof (elim disjE conjE exE)
      assume "fst (snd (write_scan a (i + 1) (ref_count e + 1) i rep es)) = i"
      then show ?thesis using w True by (intro disjI2 exI [of _ "[]"]) simp
    next
      fix A f B
      assume "es = A @ f # B" "fst (snd (write_scan a (i + 1) (ref_count e + 1) i rep es)) = i + 1 + length A"
        "ref_count e + 1 < ref_count f + 1" "\<forall>g\<in>set A. ref_count g < ref_count f"
      then show ?thesis using w True by (intro disjI2 exI [of _ "e # A"] exI [of _ f] exI [of _ B]) simp
    qed
  next
    case False
    then have w: "snd (write_scan a i mx mi rep (e # es)) = snd (write_scan a (i + 1) mx mi rep es)"
      using Cons.prems by simp
    from Cons.IH [OF na, of "i + 1" mx mi] show ?thesis
    proof (elim disjE conjE exE)
      fix A f B
      assume "es = A @ f # B" "fst (snd (write_scan a (i + 1) mx mi rep es)) = i + 1 + length A"
        "mx < ref_count f + 1" "\<forall>g\<in>set A. ref_count g < ref_count f"
      then show ?thesis using w False by (intro disjI2 exI [of _ "e # A"] exI [of _ f] exI [of _ B]) simp
    qed (use w False in simp_all)
  qed
qed simp

lemma write_scan_hit:
  assumes "a \<in> sectors es"
  obtains A e B where "es = A @ e # B" and "ce_sector e = a" and "a \<notin> sectors B"
    and "snd (snd (write_scan a i mx mi rep es)) = Some (i + length A)"
  using assms
proof (induction es arbitrary: i mx mi rep thesis)
  case (Cons e es)
  show ?case
  proof (cases "a \<in> sectors es")
    case True
    have "\<exists>i' mx' mi' rep'. i' = i + 1 \<and>
        snd (write_scan a i mx mi rep (e # es)) = snd (write_scan a i' mx' mi' rep' es)"
      by (simp, blast)
    then obtain mx' mi' rep' where
      w: "snd (write_scan a i mx mi rep (e # es)) = snd (write_scan a (i + 1) mx' mi' rep' es)"
      by blast
    obtain A f B where "es = A @ f # B" "ce_sector f = a" "a \<notin> sectors B"
      "snd (snd (write_scan a (i + 1) mx' mi' rep' es)) = Some (i + 1 + length A)"
      using Cons.IH [OF _ True, of "i + 1" mx' mi' rep'] by metis
    with w Cons.prems(1) [of "e # A" f B] show ?thesis by simp
  next
    case False
    with Cons.prems write_scan_miss show ?thesis by fastforce
  qed
qed simp

section \<open>Coherence\<close>

locale cache_over = drv: sector_store good view n "op_read os" "op_write os"
  for good :: "'m \<Rightarrow> bool" and view n and os :: "'m block_operations"

sublocale cache_over \<subseteq> dev: sector_store "block_good good n os" "block_view view" n block_read block_write
  by (rule block_store) (rule drv.sector_store_axioms)

lemma live_simps:
  assumes "entry_num c \<le> length (cache_entrys c)"
  shows "length (live c) = entry_num c" "cache_entrys c = live c @ drop (entry_num c) (cache_entrys c)"
  using assms by (simp_all add: live_def)

lemma live_update [simp]:
  "length es = entry_num c \<Longrightarrow> live (c\<lparr>cache_entrys := es @ fs\<rparr>) = es"
  "length es = entry_num c \<Longrightarrow> live (c\<lparr>fs_device := b, cache_entrys := es @ fs\<rparr>) = es"
  "length es = entry_num c \<Longrightarrow> live (c\<lparr>cache_entrys := es @ fs, fs_device := b\<rparr>) = es"
  "length es = k \<Longrightarrow> live (c\<lparr>cache_entrys := es @ fs, entry_num := k\<rparr>) = es"
  "live (c\<lparr>fs_device := b\<rparr>) = live c" "live (c\<lparr>allocs := i\<rparr>) = live c"
  by (simp_all add: live_def)

lemma good_update:
  assumes "list_all (entry_good n) (A @ e # B)" "ages_agree (A @ e # B)" "entry_good n x"
    and "\<And>f. f \<in> set A \<union> set B \<Longrightarrow> ce_sector f = ce_sector x \<Longrightarrow> ref_count f = ref_count x"
  shows "list_all (entry_good n) (A @ x # B)" "ages_agree (A @ x # B)"
proof -
  show "list_all (entry_good n) (A @ x # B)" using assms(1,3) by simp
  have "ref_count f = ref_count g"
    if "f \<in> set (A @ x # B)" "g \<in> set (A @ x # B)" "ce_sector f = ce_sector g" for f g
  proof -
    have in_old: "h \<in> set (A @ e # B)" if "h \<in> set A \<union> set B" for h using that by auto
    have "f = x \<or> f \<in> set A \<union> set B" "g = x \<or> g \<in> set A \<union> set B" using that by simp_all
    then show ?thesis using assms(4) ages_agreeD [OF assms(2) in_old in_old] that(3) by metis
  qed
  then show "ages_agree (A @ x # B)" unfolding ages_agree_def by blast
qed

lemma good_snoc:
  assumes "list_all (entry_good n) A" "ages_agree A" "entry_good n x" "ce_sector x \<notin> sectors A"
  shows "list_all (entry_good n) (A @ [x])" "ages_agree (A @ [x])"
proof -
  show "list_all (entry_good n) (A @ [x])" using assms(1,3) by simp
  have "ref_count f = ref_count g"
    if "f \<in> set (A @ [x])" "g \<in> set (A @ [x])" "ce_sector f = ce_sector g" for f g
  proof -
    have "f = x \<or> f \<in> set A" "g = x \<or> g \<in> set A" using that by auto
    then show ?thesis using assms(4) ages_agreeD [OF assms(2), of f g] that(3) by (metis image_eqI)
  qed
  then show "ages_agree (A @ [x])" unfolding ages_agree_def by blast
qed

abbreviation new_entry :: "nat \<Rightarrow> sector_data \<Rightarrow> cache_entry" where
  "new_entry a d \<equiv> \<lparr>ce_sector = a, ref_count = 0, ce_write = True, ce_data = d\<rparr>"

lemma write_scan_tuple:
  assumes "fst (snd (write_scan a i mx mi rep es)) = mi'" "snd (snd (write_scan a i mx mi rep es)) = rep'"
  shows "write_scan a i mx mi rep es = (map (touch a) es, mi', rep')"
  using assms write_scan_map [of a i mx mi rep es] by (metis prod.collapse)

lemma cache_write_hit:
  assumes "live c = A @ e # B" "snd (snd (write_scan a 0 0 0 None (live c))) = Some (length A)"
  shows "cache_write c a d = Some (c\<lparr>cache_entrys :=
    (map (touch a) A @ new_entry a d # map (touch a) B) @ drop (entry_num c) (cache_entrys c)\<rparr>)"
proof -
  obtain mi where "write_scan a 0 0 0 None (live c) = (map (touch a) (live c), mi, Some (length A))"
    using write_scan_tuple [OF refl assms(2)] by blast
  then show ?thesis
    using assms(1) by (simp add: cache_write_def Let_def live_def [symmetric] idx_set_def list_update_append)
qed

lemma cache_write_add:
  assumes "a \<notin> sectors (live c)" "entry_num c < 31" "length (cache_entrys c) = CACHE_SIZE"
  shows "cache_write c a d = Some (c\<lparr>cache_entrys :=
    (map (touch a) (live c) @ [new_entry a d]) @ drop (Suc (entry_num c)) (cache_entrys c),
    entry_num := Suc (entry_num c)\<rparr>)"
proof -
  have l: "length (live c) = entry_num c" using assms(2,3) by (simp add: live_def)
  have d: "drop (entry_num c) (cache_entrys c) \<noteq> []" using assms(2,3) by simp
  then obtain x xs where xs: "drop (entry_num c) (cache_entrys c) = x # xs" by (meson neq_Nil_conv)
  moreover have "drop (Suc (entry_num c)) (cache_entrys c) = xs"
    by (metis xs drop_Suc list.sel(3) tl_drop)
  moreover obtain mi where "write_scan a 0 0 0 None (live c) = (map (touch a) (live c), mi, None)"
    using write_scan_tuple [OF refl write_scan_miss [OF assms(1), of 0 0 0 None]] by blast
  ultimately show ?thesis
    using assms l
    by (simp add: cache_write_def Let_def live_def [symmetric] idx_set_def list_update_append)
qed

lemma cache_write_evict:
  assumes "a \<notin> sectors (live c)" "31 \<le> entry_num c" "entry_num c \<le> CACHE_SIZE"
    and "length (cache_entrys c) = CACHE_SIZE" "live c = A @ v # B"
    and "fst (snd (write_scan a 0 0 0 None (live c))) = length A" "ce_write v"
    and "block_write (fs_device c) (ce_sector v) (ce_data v) = Some b"
  shows "cache_write c a d = Some (c\<lparr>entry_num := CACHE_SIZE, fs_device := b, cache_entrys :=
    map (touch a) A @ new_entry a d # map (touch a) B @ (if entry_num c = 31 then [new_entry a d] else [])\<rparr>)"
proof -
  note w = write_scan_tuple [OF assms(6) write_scan_miss [OF assms(1), of 0 0 0 None]]
  have l: "length (live c) = entry_num c" using assms(3,4) by (simp add: live_def)
  show ?thesis
  proof (cases "entry_num c = 31")
    case True
    then have "length (drop (entry_num c) (cache_entrys c)) = 1" using assms(4) by simp
    then obtain x where x: "drop (entry_num c) (cache_entrys c) = [x]" by (metis One_nat_def length_0_conv length_Suc_conv)
    have u: "idx_set (map (touch a) (live c) @ [x]) (entry_num c) (new_entry a d) = Some (map (touch a) (live c) @ [new_entry a d])"
      using l by (simp add: idx_set_def) (metis length_map list_update_length)
    have e: "idx_get (map (touch a) (live c) @ [new_entry a d]) (length A) = Some (touch a v)"
      "idx_set (map (touch a) (live c) @ [new_entry a d]) (length A) (new_entry a d) =
        Some (map (touch a) A @ new_entry a d # map (touch a) B @ [new_entry a d])"
      using assms(5) by (simp_all add: idx_get_def idx_set_def nth_append list_update_append)
    show ?thesis
      unfolding cache_write_def Let_def live_def [symmetric] w x using assms(7,8) True u e
      by (simp del: idx_get_Some idx_set_Some)
  next
    case False
    then have k: "entry_num c = 32" "drop (entry_num c) (cache_entrys c) = []" using assms by simp_all
    moreover have "Suc (length A + length B) = 32" using l k assms(5) by simp
    ultimately show ?thesis
      unfolding cache_write_def Let_def live_def [symmetric] w using assms(5,7,8)
      by (simp add: idx_set_def idx_get_def list_update_append nth_append)
  qed
qed

lemma new_entry_good [simp]: "entry_good n (new_entry a d) \<longleftrightarrow> a < n \<and> length d = BLOCK_SECTOR_SIZE"
  by (auto simp: entry_good_def)

lemma good_hit:
  assumes "list_all (entry_good n) (A @ e # B)" "ages_agree (A @ e # B)" "a < n" "length d = BLOCK_SECTOR_SIZE"
  shows "list_all (entry_good n) (map (touch a) A @ new_entry a d # map (touch a) B)"
    "ages_agree (map (touch a) A @ new_entry a d # map (touch a) B)"
proof -
  note * = good_touch [OF assms(1), of a] ages_touch [OF assms(2), of a]
  have x: "ref_count f = ref_count (new_entry a d)"
    if f: "f \<in> set (map (touch a) A) \<union> set (map (touch a) B)" and "ce_sector f = ce_sector (new_entry a d)" for f
  proof -
    obtain g where "f = touch a g" using f by auto
    then show ?thesis using that(2) by simp
  qed
  note g = good_update [of n "map (touch a) A" "touch a e" "map (touch a) B" "new_entry a d"]
  show "list_all (entry_good n) (map (touch a) A @ new_entry a d # map (touch a) B)"
    by (rule g(1)) (use * assms(3,4) x in simp_all)
  show "ages_agree (map (touch a) A @ new_entry a d # map (touch a) B)"
    by (rule g(2)) (use * assms(3,4) x in simp_all)
qed

lemma good_add:
  assumes "list_all (entry_good n) L" "ages_agree L" "a < n" "length d = BLOCK_SECTOR_SIZE" "a \<notin> sectors L"
  shows "list_all (entry_good n) (map (touch a) L @ [new_entry a d])" "ages_agree (map (touch a) L @ [new_entry a d])"
  using good_snoc [OF good_touch ages_touch, OF assms(1,2), of "new_entry a d" a] assms(3-5)
  by (auto simp: image_image)

text \<open>The victim is the first entry of its sector.\<close>

lemma victim_first:
  assumes "a \<notin> sectors L" "list_all (entry_good n) L" "ages_agree L" "L \<noteq> []"
  obtains A v B where "L = A @ v # B" and "fst (snd (write_scan a 0 0 0 None L)) = length A"
    and "ce_sector v \<notin> sectors A"
proof -
  obtain A v B where "L = A @ v # B" "fst (snd (write_scan a 0 0 0 None L)) = length A"
    "\<forall>f\<in>set A. ref_count f < ref_count v"
  proof -
    have "\<not> (\<forall>e\<in>set L. ref_count e + 1 \<le> 0)"
      using assms(2,4) by (cases L) (auto simp: entry_good_def)
    then show thesis using write_scan_victim [OF assms(1), of 0 0 0 None] that by (metis add_0)
  qed
  moreover have "ce_sector v \<noteq> ce_sector f" if "f \<in> set A" for f
  proof -
    have "ref_count f \<noteq> ref_count v" using calculation(3) that by force
    then show ?thesis using ages_agreeD [OF assms(3), of f v] calculation(1) that by auto
  qed
  ultimately show thesis using that by blast
qed

context cache_over
begin

lemma cache_write_hit_view:
  assumes c: "cache_good good n os c" and a: "a < n" "length d = BLOCK_SECTOR_SIZE" and hit: "a \<in> sectors (live c)"
  shows "\<exists>c'. cache_write c a d = Some c' \<and> cache_good good n os c' \<and> cache_view view c' = (cache_view view c)(a := d)"
proof -
  obtain A e B where L: "live c = A @ e # B" "ce_sector e = a" "a \<notin> sectors B"
    "snd (snd (write_scan a 0 0 0 None (live c))) = Some (length A)"
    using write_scan_hit [OF hit, of 0 0 0 None] by auto
  let ?L = "map (touch a) A @ new_entry a d # map (touch a) B"
  let ?c = "c\<lparr>cache_entrys := ?L @ drop (entry_num c) (cache_entrys c)\<rparr>"
  have len: "length (live c) = entry_num c" "length (cache_entrys c) = CACHE_SIZE" "entry_num c \<le> CACHE_SIZE"
    using c live_simps [of c] by (simp_all add: cache_good_def)
  then have lv: "live ?c = ?L" by (intro live_update) (simp add: L(1))
  have "cache_good good n os ?c"
    unfolding cache_good_def lv using good_hit [of n A e B a d] c a len L(1) by (simp add: cache_good_def)
  moreover have "cache_view view ?c = (cache_view view c)(a := d)"
    unfolding cache_view_def [abs_def] lv L(1) using L(2) cached_not_in [OF L(3)]
    by (auto simp: fun_eq_iff split: option.split)
  ultimately show ?thesis using cache_write_hit [OF L(1,4)] by blast
qed

lemma cache_write_add_view:
  assumes c: "cache_good good n os c" and a: "a < n" "length d = BLOCK_SECTOR_SIZE"
    and miss: "a \<notin> sectors (live c)" "entry_num c < 31"
  shows "\<exists>c'. cache_write c a d = Some c' \<and> cache_good good n os c' \<and> cache_view view c' = (cache_view view c)(a := d)"
proof -
  let ?L = "map (touch a) (live c) @ [new_entry a d]"
  let ?c = "c\<lparr>cache_entrys := ?L @ drop (Suc (entry_num c)) (cache_entrys c), entry_num := Suc (entry_num c)\<rparr>"
  have len: "length (live c) = entry_num c" "length (cache_entrys c) = CACHE_SIZE"
    using c live_simps [of c] by (simp_all add: cache_good_def)
  then have lv: "live ?c = ?L" by (intro live_update) simp
  have "cache_good good n os ?c"
    unfolding cache_good_def lv using good_add [of n "live c" a d] c a len miss by (simp add: cache_good_def)
  moreover have "cache_view view ?c = (cache_view view c)(a := d)"
    unfolding cache_view_def [abs_def] lv by (auto simp: fun_eq_iff split: option.split)
  ultimately show ?thesis using cache_write_add [OF miss(1,2) len(2)] by blast
qed

lemma cache_write_evict_view:
  assumes c: "cache_good good n os c" and a: "a < n" "length d = BLOCK_SECTOR_SIZE"
    and miss: "a \<notin> sectors (live c)" "31 \<le> entry_num c"
  shows "\<exists>c'. cache_write c a d = Some c' \<and> cache_good good n os c' \<and> cache_view view c' = (cache_view view c)(a := d)"
proof -
  have len: "length (live c) = entry_num c" "length (cache_entrys c) = CACHE_SIZE" "entry_num c \<le> CACHE_SIZE"
    and inv: "list_all (entry_good n) (live c)" "ages_agree (live c)" "block_good good n os (fs_device c)"
    using c live_simps [of c] by (simp_all add: cache_good_def)
  then have "live c \<noteq> []" using miss(2) by auto
  then obtain A v B where L: "live c = A @ v # B" "fst (snd (write_scan a 0 0 0 None (live c))) = length A"
    "ce_sector v \<notin> sectors A"
    using victim_first [OF miss(1) inv(1,2)] by metis
  have v: "ce_sector v < n" "length (ce_data v) = BLOCK_SECTOR_SIZE" "ce_write v" "ce_sector v \<noteq> a"
    using inv(1) L(1) miss(1) by (auto simp: entry_good_def)
  obtain b where b: "block_write (fs_device c) (ce_sector v) (ce_data v) = Some b" "block_good good n os b"
    "block_view view b = (block_view view (fs_device c))(ce_sector v := ce_data v)"
    using dev.wrE [OF inv(3) v(1,2)] by metis
  let ?X = "if entry_num c = 31 then [new_entry a d] else []"
  let ?L = "map (touch a) A @ new_entry a d # map (touch a) B @ ?X"
  let ?c = "c\<lparr>entry_num := CACHE_SIZE, fs_device := b, cache_entrys := ?L\<rparr>"
  have lL: "length ?L = CACHE_SIZE" using len L(1) miss(2) by simp
  then have lv: "live ?c = ?L" by (simp only: live_def cstate.simps) simp
  have "list_all (entry_good n) (A @ v # B)" "ages_agree (A @ v # B)" using inv L(1) by simp_all
  note g = good_hit [OF this a]
  have "set ?L = set (map (touch a) A @ new_entry a d # map (touch a) B)" by auto
  then have "ages_agree ?L" using g(2) unfolding ages_agree_def by blast
  then have "cache_good good n os ?c"
    unfolding cache_good_def lv using g(1) a b(2) lL by simp
  moreover have "cached A a = None" "cached B a = None"
    using miss(1) L(1) by (auto intro!: cached_not_in)
  then have "cache_view view ?c = (cache_view view c)(a := d)"
    unfolding cache_view_def [abs_def] lv L(1) using v(4) b(3) cached_not_in [OF L(3)]
    by (auto simp: fun_eq_iff split: option.split)
  ultimately show ?thesis
    using cache_write_evict [OF miss len(3,2) L(1,2) v(3) b(1)] by blast
qed

lemma cache_write_view:
  assumes "cache_good good n os c" "a < n" "length d = BLOCK_SECTOR_SIZE"
  shows "\<exists>c'. cache_write c a d = Some c' \<and> cache_good good n os c' \<and> cache_view view c' = (cache_view view c)(a := d)"
  using cache_write_hit_view [OF assms] cache_write_add_view [OF assms] cache_write_evict_view [OF assms]
  by (meson not_less)

lemma cache_read_hit_view:
  assumes c: "cache_good good n os c" and hit: "cached (live c) a = Some d"
  shows "\<exists>c'. cache_read c a = Some (True, d, c') \<and> cache_good good n os c' \<and> cache_view view c' = cache_view view c"
proof -
  let ?c = "c\<lparr>cache_entrys := map (touch a) (live c) @ drop (entry_num c) (cache_entrys c)\<rparr>"
  have len: "length (live c) = entry_num c" "length (cache_entrys c) = CACHE_SIZE" "entry_num c \<le> CACHE_SIZE"
    using c live_simps [of c] by (simp_all add: cache_good_def)
  then have lv: "live ?c = map (touch a) (live c)" by (intro live_update) simp
  have "cache_good good n os ?c"
    unfolding cache_good_def lv using good_touch [of n "live c" a] ages_touch [of "live c" a] c len
    by (simp add: cache_good_def)
  moreover have "cache_view view ?c = cache_view view c"
    unfolding cache_view_def [abs_def] lv by (simp add: fun_eq_iff split: option.split)
  ultimately show ?thesis
    using hit by (simp add: cache_read_def read_scan_eq live_def [symmetric] Let_def)
qed

lemma touch_back: "a \<notin> sectors es \<Longrightarrow> map (\<lambda>e. e\<lparr>ref_count := ref_count e - 1\<rparr>) (map (touch a) es) = es"
  by (induction es) (auto simp: touch_def)

lemma cache_read_miss_view:
  assumes c: "cache_good good n os c" and a: "a < n" and miss: "a \<notin> sectors (live c)"
  shows "\<exists>c'. cache_read c a = Some (False, cache_view view c a, c') \<and> cache_good good n os c' \<and>
    cache_view view c' = cache_view view c"
proof -
  have bg: "block_good good n os (fs_device c)" and len: "entry_num c \<le> length (cache_entrys c)"
    using c by (simp_all add: cache_good_def)
  obtain b where b: "block_read (fs_device c) a = Some (block_view view (fs_device c) a, b)"
    "block_good good n os b" "block_view view b = block_view view (fs_device c)"
    using dev.rdE [OF bg a] by metis
  let ?c = "c\<lparr>fs_device := b\<rparr>"
  have "cache_good good n os ?c" using c b(2) by (simp add: cache_good_def)
  moreover have v: "cache_view view ?c = cache_view view c" "cache_view view c a = block_view view (fs_device c) a"
    using cached_not_in [OF miss] by (simp_all add: cache_view_def b(3) fun_eq_iff split: option.split)
  moreover have "length (block_view view (fs_device c) a) = BLOCK_SECTOR_SIZE" using dev.view_length [OF bg a] .
  ultimately obtain c' where "cache_write ?c a (cache_view view c a) = Some c'" "cache_good good n os c'"
    "cache_view view c' = cache_view view c"
    using cache_write_view [of ?c a "cache_view view c a"] a by (auto simp: fun_upd_idem)
  moreover have "c\<lparr>cache_entrys := live c @ drop (entry_num c) (cache_entrys c), fs_device := b\<rparr> = ?c"
    by (simp add: live_def)
  ultimately show ?thesis
    using b(1) cached_not_in [OF miss] v(2)
    by (simp add: cache_read_def read_scan_eq live_def [symmetric] Let_def touch_back [OF miss, simplified])
qed

lemma cache_read_view:
  assumes "cache_good good n os c" "a < n"
  shows "\<exists>found c'. cache_read c a = Some (found, cache_view view c a, c') \<and> cache_good good n os c' \<and>
    cache_view view c' = cache_view view c"
proof (cases "cached (live c) a")
  case None
  then show ?thesis using cache_read_miss_view [OF assms] unfolding cached_None by blast
next
  case (Some d)
  then have "cache_view view c a = d" by (simp add: cache_view_def)
  then show ?thesis using cache_read_hit_view [OF assms(1) Some] by auto
qed

lemma cache_view_length:
  assumes "cache_good good n os c" "a < n"
  shows "length (cache_view view c a) = BLOCK_SECTOR_SIZE"
  using assms dev.view_length [of "fs_device c" a] cached_length [of n "live c" a]
  by (auto simp: cache_view_def cache_good_def split: option.split)

text \<open>Writing back leaves what the cache shows unchanged and makes the device agree with it.\<close>

lemma sync_loop_view:
  assumes "block_good good n os b" "list_all (entry_good n) es"
  shows "\<exists>b'. sync_loop b es = Some b' \<and> block_good good n os b' \<and>
    (\<forall>a. block_view view b' a = (case cached es a of Some d \<Rightarrow> d | None \<Rightarrow> block_view view b a))"
  using assms
proof (induction es arbitrary: b)
  case (Cons e es)
  then obtain b1 where b1: "block_write b (ce_sector e) (ce_data e) = Some b1" "block_good good n os b1"
    "block_view view b1 = (block_view view b)(ce_sector e := ce_data e)"
    using dev.wrE [of b "ce_sector e" "ce_data e"] by (auto simp: entry_good_def)
  with Cons.IH [OF b1(2)] Cons.prems show ?case by (fastforce split: option.split)
qed simp

lemma cache_sync_view:
  assumes "cache_good good n os c"
  shows "\<exists>c'. cache_sync c = Some c' \<and> cache_good good n os c' \<and> cache_view view c' = cache_view view c \<and>
    block_view view (fs_device c') = cache_view view c"
proof -
  obtain b where "sync_loop (fs_device c) (live c) = Some b" "block_good good n os b"
    "\<forall>a. block_view view b a = cache_view view c a"
    using sync_loop_view [of "fs_device c" "live c"] assms by (auto simp: cache_good_def cache_view_def)
  then show ?thesis using assms
    by (auto simp: cache_sync_def live_def [symmetric] cache_good_def cache_view_def fun_eq_iff split: option.split)
qed

lemma cache_init_view:
  assumes "block_good good n os (fs_device c)" "length (cache_entrys c) = CACHE_SIZE"
  shows "cache_good good n os (cache_init c)" "cache_view view (cache_init c) = block_view view (fs_device c)"
  using assms by (simp_all add: cache_init_def cache_good_def cache_view_def [abs_def] live_def ages_agree_def)

end

section \<open>The cache as a store of sectors\<close>

definition cache_fetch :: "'m cstate \<Rightarrow> nat \<Rightarrow> (sector_data \<times> 'm cstate) option" where
  "cache_fetch c a = map_option snd (cache_read c a)"

sublocale cache_over \<subseteq> cache: sector_store "cache_good good n os" "cache_view view" n cache_fetch cache_write
proof
  fix c a assume c: "cache_good good n os c" "a < n"
  show "\<exists>c'. cache_fetch c a = Some (cache_view view c a, c') \<and> cache_good good n os c' \<and>
      cache_view view c' = cache_view view c"
    using cache_read_view [OF c] by (auto simp: cache_fetch_def)
  show "length (cache_view view c a) = BLOCK_SECTOR_SIZE" using cache_view_length [OF c] .
  show "\<exists>c'. cache_write c a d = Some c' \<and> cache_good good n os c' \<and> cache_view view c' = (cache_view view c)(a := d)"
    if "length d = BLOCK_SECTOR_SIZE" for d using cache_write_view [OF c that] .
qed

lemma cache_fetchD: "cache_fetch c a = Some (d, c') \<Longrightarrow> \<exists>found. cache_read c a = Some (found, d, c')"
  by (auto simp: cache_fetch_def)

definition fresh_cache :: "'m block \<Rightarrow> (nat \<Rightarrow> bool) \<Rightarrow> 'm cstate" where
  "fresh_cache b mem = cache_init \<lparr>fs_device = b, entry_num = 0,
     cache_entrys = replicate CACHE_SIZE \<lparr>ce_sector = 0, ref_count = 0, ce_write = False, ce_data = []\<rparr>,
     alloc_ok = mem, allocs = 0\<rparr>"

lemma fresh_cache_simps [simp]: "fs_device (fresh_cache b mem) = b" "alloc_ok (fresh_cache b mem) = mem"
  by (simp_all add: fresh_cache_def cache_init_def)

lemma malloc_simps [simp]:
  "fs_device (snd (malloc c)) = fs_device c" "entry_num (snd (malloc c)) = entry_num c"
  "cache_entrys (snd (malloc c)) = cache_entrys c" "alloc_ok (snd (malloc c)) = alloc_ok c"
  by (simp_all add: malloc_def)

context cache_over
begin

lemma cache_store: "sector_store (cache_good good n os) (cache_view view) n cache_fetch cache_write"
  by (rule cache.sector_store_axioms)

lemma fresh_cache_good:
  assumes "block_good good n os b"
  shows "cache_good good n os (fresh_cache b mem)" "cache_view view (fresh_cache b mem) = block_view view b"
  unfolding fresh_cache_def using assms by (simp_all add: cache_init_view)

lemma malloc_keeps [simp]:
  "cache_good good n os (snd (malloc c)) = cache_good good n os c"
  "cache_view view (snd (malloc c)) = cache_view view c"
  by (simp_all add: malloc_def cache_good_def cache_view_def fun_eq_iff split: option.split)

lemma cache_read_bytes_view:
  assumes "cache_good good n os c" "a < n" "ofs + len \<le> BLOCK_SECTOR_SIZE"
  shows "\<exists>r c'. cache_read_bytes c a ofs len = Some (r, c') \<and> cache_good good n os c' \<and>
    cache_view view c' = cache_view view c \<and>
    (r = Some (take len (drop ofs (cache_view view c a))) \<or>
     r = None \<and> \<not> alloc_ok c (allocs c) \<and> \<not> alloc_ok c (allocs c + 1))"
proof -
  define c1 where "c1 = (if alloc_ok c (allocs c) then snd (malloc c) else snd (malloc (snd (malloc c))))"
  have c1: "cache_good good n os c1" "cache_view view c1 = cache_view view c"
    using assms(1) by (simp_all add: c1_def)
  obtain found c' where "cache_read c1 a = Some (found, cache_view view c a, c')" "cache_good good n os c'"
    "cache_view view c' = cache_view view c"
    using cache_read_view [OF c1(1) assms(2)] c1(2) by auto
  with c1 assms(3) show ?thesis
    by (auto simp: cache_read_bytes_def malloc_def c1_def split: if_splits)
qed

lemma fill_bounce_view:
  assumes "cache_good good n os c" "a < n"
  shows "\<exists>c'. fill_bounce c a keep = Some (if keep then cache_view view c a else replicate BLOCK_SECTOR_SIZE 0, c') \<and>
    cache_good good n os c' \<and> cache_view view c' = cache_view view c"
  using cache_read_view [OF assms] assms by (cases keep) (auto simp: fill_bounce_def)

lemma cache_write_bytes_view:
  assumes c: "cache_good good n os c" "a < n" and k: "ofs + k \<le> BLOCK_SECTOR_SIZE" "k \<le> length buf"
  shows "if alloc_ok c (allocs c + 1)
    then \<exists>c'. cache_write_bytes c a buf ofs k left = Some (True, c') \<and> cache_good good n os c' \<and>
      cache_view view c' = (cache_view view c)(a :=
        splice_bytes (if 0 < ofs \<or> k < left then cache_view view c a else replicate BLOCK_SECTOR_SIZE 0) ofs (take k buf))
    else \<exists>c'. cache_write_bytes c a buf ofs k left = Some (False, c') \<and> cache_good good n os c' \<and>
      cache_view view c' = cache_view view c"
proof -
  define c1 where "c1 = snd (malloc (snd (malloc c)))"
  have c1: "cache_good good n os c1" "cache_view view c1 = cache_view view c"
    using c(1) by (simp_all add: c1_def)
  have m: "malloc (snd (malloc c)) = (alloc_ok c (allocs c + 1), c1)" by (simp add: c1_def malloc_def)
  define old where "old = (if 0 < ofs \<or> k < left then cache_view view c a else replicate BLOCK_SECTOR_SIZE 0)"
  have "length old = BLOCK_SECTOR_SIZE" using cache_view_length [OF c] by (simp add: old_def)
  then have "length (splice_bytes old ofs (take k buf)) = BLOCK_SECTOR_SIZE" using k by simp
  note w = cache_write_view [OF _ c(2) this]
  have sp: "splice_bytes old ofs (take k buf) = take ofs old @ take k buf @ drop (ofs + k) old"
    using k by (simp add: splice_bytes_def)
  show ?thesis
  proof (cases "alloc_ok c (allocs c + 1)")
    case True
    obtain c2 where c2: "fill_bounce c1 a (0 < ofs \<or> k < left) = Some (old, c2)"
      "cache_good good n os c2" "cache_view view c2 = cache_view view c"
      using fill_bounce_view [OF c1(1) c(2), of "0 < ofs \<or> k < left"] c1(2) unfolding old_def by metis
    obtain c' where "cache_write c2 a (splice_bytes old ofs (take k buf)) = Some c'" "cache_good good n os c'"
      "cache_view view c' = (cache_view view c)(a := splice_bytes old ofs (take k buf))"
      using w [OF c2(2)] c2(3) by auto
    moreover from this have "cache_write_bytes c a buf ofs k left = Some (True, c')"
      unfolding cache_write_bytes_def using m True c2(1) k sp by (simp add: case_prod_beta)
    ultimately show ?thesis using True unfolding old_def by auto
  next
    case False
    then show ?thesis using m c1 by (simp add: cache_write_bytes_def case_prod_beta)
  qed
qed

end

section \<open>Properties\<close>

interpretation ram_cache: cache_over "ram_good n" ram_view n "ram_ops n" for n
  by unfold_locales

lemma cache_overI: "sector_store good view n (op_read os) (op_write os) \<Longrightarrow> cache_over good view n os"
  by (simp add: cache_over_def)

definition ram_disk :: "nat \<Rightarrow> sector_data list block" where
  "ram_disk n = block_register BLOCK_FILESYS n (ram_ops n) (replicate n (replicate BLOCK_SECTOR_SIZE 0))"

lemma ram_disk_good: "block_good (ram_good n) n (ram_ops n) (ram_disk n)"
  by (simp add: block_good_def ram_good_def ram_disk_def block_register_def list_all_length)

text \<open>C1: the cache is transparent. For every driver that stores sectors, every sequence of reads and
  writes of valid sectors through a fresh cache returns, and returns exactly the data that the same
  sequence returns on the bare device; after \<^verbatim>\<open>cache_sync\<close> the device holds what it would hold
  without a cache.\<close>

theorem cache_transparent:
  assumes "sector_store good view n (op_read os) (op_write os)" and "block_good good n os b"
    and "list_all (valid_request n) rs"
  shows "\<exists>ds c' c'' b'. serve cache_fetch cache_write (fresh_cache b mem) rs = Some (ds, c') \<and>
    serve block_read block_write b rs = Some (ds, b') \<and>
    cache_sync c' = Some c'' \<and> block_view view (fs_device c'') = block_view view b'"
proof -
  note ov = cache_overI [OF assms(1)]
  note fresh = cache_over.fresh_cache_good [OF ov assms(2), of mem]
  obtain c' where c': "serve cache_fetch cache_write (fresh_cache b mem) rs =
      Some (fst (serve_array (block_view view b) rs), c')"
    "cache_good good n os c'" "cache_view view c' = snd (serve_array (block_view view b) rs)"
    using sector_store.serve_refines [OF cache_over.cache_store [OF ov] fresh(1) assms(3)] fresh(2) by auto
  obtain b' where "serve block_read block_write b rs = Some (fst (serve_array (block_view view b) rs), b')"
    "block_view view b' = snd (serve_array (block_view view b) rs)"
    using sector_store.serve_refines [OF block_store [OF assms(1)] assms(2,3)] by auto
  with c' cache_over.cache_sync_view [OF ov c'(2)] show ?thesis by auto
qed

theorem cache_transparent_witness:
  "\<exists>ds c' c'' b'. serve cache_fetch cache_write (fresh_cache (ram_disk 40) (\<lambda>_. True))
      [Wr 3 (replicate 512 7), Rd 3, Rd 39] = Some (ds, c') \<and>
    serve block_read block_write (ram_disk 40) [Wr 3 (replicate 512 7), Rd 3, Rd 39] = Some (ds, b') \<and>
    cache_sync c' = Some c'' \<and> block_view ram_view (fs_device c'') = block_view ram_view b'"
  by (rule cache_transparent [OF ram.sector_store_axioms ram_disk_good]) simp

text \<open>C22: the buffer cache keeps its promise on a partition: caching the sectors of a partition that
  lies within a device over a lawful driver gives a lawful store of that partition's sectors.\<close>

theorem cached_partition_store:
  assumes "sector_store good view n (op_read os) (op_write os)" and "start + k \<le> n" and "n < 2 ^ 32"
  shows "sector_store (cache_good (part_good (block_good good n os) start) k partition_operations)
    (cache_view (part_view (block_view view))) k cache_fetch cache_write"
proof -
  have "sector_store (part_good (block_good good n os) start) (part_view (block_view view)) k
      (op_read partition_operations) (op_write partition_operations)"
    using partition_store [OF block_store [OF assms(1)] assms(2,3)] by (simp add: partition_operations_def)
  from cache_over.cache_store [OF cache_overI [OF this]] show ?thesis .
qed

theorem cached_partition_store_witness:
  "sector_store (cache_good (part_good (block_good (ram_good 100) 100 (ram_ops 100)) 10) 50 partition_operations)
    (cache_view (part_view (block_view ram_view))) 50 cache_fetch cache_write"
  by (rule cached_partition_store [OF ram.sector_store_axioms]) simp_all

text \<open>C33: when the last free slot of the cache is filled, \<^verbatim>\<open>cache_write\<close> goes on to evict an entry as
  if the cache had been full: the new sector is stored twice and a cached sector is lost although
  there was room for it.\<close>

theorem cache_fill_stores_twice:
  assumes "sector_store good view n (op_read os) (op_write os)" and "cache_good good n os c"
    and "entry_num c = 31" and "a \<notin> sectors (live c)" and "a < n"
  shows "\<exists>c' i j. cache_write c a d = Some c' \<and> entry_num c' = 32 \<and> i < j \<and> j < 32 \<and>
    ce_sector (cache_entrys c' ! i) = a \<and> ce_sector (cache_entrys c' ! j) = a"
proof -
  have len: "length (live c) = 31" "length (cache_entrys c) = CACHE_SIZE"
    and inv: "list_all (entry_good n) (live c)" "ages_agree (live c)" "block_good good n os (fs_device c)"
    using assms(2,3) live_simps [of c] by (simp_all add: cache_good_def)
  then obtain A v B where L: "live c = A @ v # B" "fst (snd (write_scan a 0 0 0 None (live c))) = length A"
    using victim_first [OF assms(4) inv(1,2)] by (metis list.size(3) zero_neq_numeral)
  have v: "ce_sector v < n" "length (ce_data v) = BLOCK_SECTOR_SIZE" "ce_write v"
    using inv(1) L(1) by (auto simp: entry_good_def)
  obtain b where "block_write (fs_device c) (ce_sector v) (ce_data v) = Some b"
    using sector_store.wr_view [OF block_store [OF assms(1)] inv(3) v(1,2)] by blast
  from cache_write_evict [OF assms(4) _ _ len(2) L v(3) this] assms(3)
  have "cache_write c a d = Some (c\<lparr>entry_num := CACHE_SIZE, fs_device := b, cache_entrys :=
      map (touch a) A @ new_entry a d # map (touch a) B @ [new_entry a d]\<rparr>)" by simp
  moreover have "Suc (length A + length B) = 31" using len(1) L(1) by simp
  ultimately show ?thesis
    by (intro exI [of _ _] exI [of _ "length A"] exI [of _ 31] conjI) (auto simp: nth_append nth_Cons')
qed

definition nearly_full :: "sector_data list cstate" where
  "nearly_full = \<lparr>fs_device = ram_disk 40, entry_num = 31,
     cache_entrys = map (\<lambda>i. new_entry i (replicate BLOCK_SECTOR_SIZE 0)) [0..<32],
     alloc_ok = \<lambda>_. True, allocs = 0\<rparr>"

lemma nearly_full_live: "live nearly_full = map (\<lambda>i. new_entry i (replicate BLOCK_SECTOR_SIZE 0)) [0..<31]"
  by (simp add: nearly_full_def live_def take_map take_upt)

lemma nearly_full_good: "cache_good (ram_good 40) 40 (ram_ops 40) nearly_full"
proof -
  have "ages_agree (live nearly_full)"
    unfolding ages_agree_def nearly_full_live by simp
  moreover have "list_all (entry_good 40) (live nearly_full)"
    unfolding nearly_full_live by (simp add: list_all_iff)
  ultimately show ?thesis
    unfolding cache_good_def by (simp add: nearly_full_def ram_disk_good)
qed

theorem cache_fill_stores_twice_witness:
  "\<exists>c' i j. cache_write nearly_full 35 (replicate 512 1) = Some c' \<and> entry_num c' = 32 \<and> i < j \<and> j < 32 \<and>
    ce_sector (cache_entrys c' ! i) = 35 \<and> ce_sector (cache_entrys c' ! j) = 35"
proof (rule cache_fill_stores_twice [OF ram.sector_store_axioms nearly_full_good])
  show "entry_num nearly_full = 31" by (simp add: nearly_full_def)
  show "35 \<notin> sectors (live nearly_full)" by (auto simp: nearly_full_live)
qed simp

end
