(* ===== verification/Bitmap.thy ===== *)
theory Bitmap
  imports Prelude
begin

text \<open>
  Bitmaps, lib/kernel/bitmap.c: an array of 32-bit elements that simulates an array of bits. The
  model keeps the elements (\<^verbatim>\<open>unsigned long\<close> on i386) as words; the abstraction \<open>bmap\<close> is the list of
  bits, and the operations refine the obvious ones on that list. Indices and counts are \<^verbatim>\<open>size_t\<close>
  values, given as numbers below \<open>2 ^ 32\<close>, with \<^const>\<open>sz\<close> where the code's arithmetic can wrap. The
  two blocks that \<^verbatim>\<open>bitmap_create\<close> asks \<^verbatim>\<open>malloc\<close> for are arguments; the second is given with
  whatever it contains.
\<close>

unbundle bit_operations_syntax

section \<open>The code\<close>

record bitmap =
  bit_cnt :: nat
  bits :: "u32 list"

abbreviation ELEM_BITS :: nat where
  "ELEM_BITS \<equiv> 32"

definition BITMAP_ERROR :: nat where
  "BITMAP_ERROR = 2 ^ 32 - 1"

definition DIV_ROUND_UP :: "nat \<Rightarrow> nat \<Rightarrow> nat" where
  "DIV_ROUND_UP x step = sz (x + step - 1) div step"

definition elem_idx :: "nat \<Rightarrow> nat" where
  "elem_idx bit_idx = bit_idx div ELEM_BITS"

definition bit_mask :: "nat \<Rightarrow> u32" where
  "bit_mask bit_idx = push_bit (bit_idx mod ELEM_BITS) 1"

definition elem_cnt :: "nat \<Rightarrow> nat" where
  "elem_cnt n = DIV_ROUND_UP n ELEM_BITS"

definition byte_cnt :: "nat \<Rightarrow> nat" where
  "byte_cnt n = sz (4 * elem_cnt n)"

definition last_mask :: "bitmap \<Rightarrow> u32" where
  "last_mask b = (let last_bits = bit_cnt b mod ELEM_BITS in
     if last_bits \<noteq> 0 then push_bit last_bits 1 - 1 else -1)"

definition bitmap_size :: "bitmap \<Rightarrow> nat" where
  "bitmap_size b = bit_cnt b"

definition bitmap_mark :: "bitmap \<Rightarrow> nat \<Rightarrow> bitmap option" where
  "bitmap_mark b bit_idx = do {
     let idx = elem_idx bit_idx;
     e \<leftarrow> idx_get (bits b) idx;
     es \<leftarrow> idx_set (bits b) idx (e OR bit_mask bit_idx);
     Some (b\<lparr>bits := es\<rparr>) }"

definition bitmap_reset :: "bitmap \<Rightarrow> nat \<Rightarrow> bitmap option" where
  "bitmap_reset b bit_idx = do {
     let idx = elem_idx bit_idx;
     e \<leftarrow> idx_get (bits b) idx;
     es \<leftarrow> idx_set (bits b) idx (e AND NOT (bit_mask bit_idx));
     Some (b\<lparr>bits := es\<rparr>) }"

definition bitmap_flip :: "bitmap \<Rightarrow> nat \<Rightarrow> bitmap option" where
  "bitmap_flip b bit_idx = do {
     let idx = elem_idx bit_idx;
     e \<leftarrow> idx_get (bits b) idx;
     es \<leftarrow> idx_set (bits b) idx (e XOR bit_mask bit_idx);
     Some (b\<lparr>bits := es\<rparr>) }"

definition bitmap_set :: "bitmap \<Rightarrow> nat \<Rightarrow> bool \<Rightarrow> bitmap option" where
  "bitmap_set b idx val = do {
     assertO (idx < bit_cnt b);
     if val then bitmap_mark b idx else bitmap_reset b idx }"

definition bitmap_test :: "bitmap \<Rightarrow> nat \<Rightarrow> bool option" where
  "bitmap_test b idx = do {
     assertO (idx < bit_cnt b);
     e \<leftarrow> idx_get (bits b) (elem_idx idx);
     Some (e AND bit_mask idx \<noteq> 0) }"

function set_loop :: "bitmap \<Rightarrow> nat \<Rightarrow> nat \<Rightarrow> nat \<Rightarrow> bool \<Rightarrow> bitmap option" where
  "set_loop b start i cnt val =
     (if i < cnt then do { b \<leftarrow> bitmap_set b (sz (start + i)) val; set_loop b start (i + 1) cnt val }
      else Some b)"
  by pat_completeness auto
termination by (relation "measure (\<lambda>(b, start, i, cnt, val). cnt - i)") auto

definition bitmap_set_multiple :: "bitmap \<Rightarrow> nat \<Rightarrow> nat \<Rightarrow> bool \<Rightarrow> bitmap option" where
  "bitmap_set_multiple b start cnt val = do {
     assertO (start \<le> bit_cnt b);
     assertO (sz (start + cnt) \<le> bit_cnt b);
     set_loop b start 0 cnt val }"

definition bitmap_set_all :: "bitmap \<Rightarrow> bool \<Rightarrow> bitmap option" where
  "bitmap_set_all b val = bitmap_set_multiple b 0 (bitmap_size b) val"

definition bitmap_create :: "bool \<Rightarrow> u32 list option \<Rightarrow> nat \<Rightarrow> bitmap option option" where
  "bitmap_create got_struct got_bits n =
     (if got_struct then
        (if got_bits \<noteq> None \<or> n = 0
         then do {
           b \<leftarrow> bitmap_set_all \<lparr>bit_cnt = n, bits = (case got_bits of None \<Rightarrow> [] | Some es \<Rightarrow> es)\<rparr> False;
           Some (Some b) }
         else Some None)
      else Some None)"

definition bitmap_buf_size :: "nat \<Rightarrow> nat" where
  "bitmap_buf_size n = sz (8 + byte_cnt n)"

definition bitmap_create_in_buf :: "nat \<Rightarrow> u32 list \<Rightarrow> nat \<Rightarrow> bitmap option" where
  "bitmap_create_in_buf n block block_size = do {
     assertO (bitmap_buf_size n \<le> block_size);
     bitmap_set_all \<lparr>bit_cnt = n, bits = drop 2 block\<rparr> False }"

function count_loop :: "bitmap \<Rightarrow> nat \<Rightarrow> nat \<Rightarrow> nat \<Rightarrow> bool \<Rightarrow> nat \<Rightarrow> nat option" where
  "count_loop b start i cnt val value_cnt =
     (if i < cnt then do {
        t \<leftarrow> bitmap_test b (sz (start + i));
        count_loop b start (i + 1) cnt val (if t = val then value_cnt + 1 else value_cnt) }
      else Some value_cnt)"
  by pat_completeness auto
termination by (relation "measure (\<lambda>(b, start, i, cnt, val, n). cnt - i)") auto

definition bitmap_count :: "bitmap \<Rightarrow> nat \<Rightarrow> nat \<Rightarrow> bool \<Rightarrow> nat option" where
  "bitmap_count b start cnt val = do {
     assertO (start \<le> bit_cnt b);
     assertO (sz (start + cnt) \<le> bit_cnt b);
     count_loop b start 0 cnt val 0 }"

function contains_loop :: "bitmap \<Rightarrow> nat \<Rightarrow> nat \<Rightarrow> nat \<Rightarrow> bool \<Rightarrow> bool option" where
  "contains_loop b start i cnt val =
     (if i < cnt then do {
        t \<leftarrow> bitmap_test b (sz (start + i));
        if t = val then Some True else contains_loop b start (i + 1) cnt val }
      else Some False)"
  by pat_completeness auto
termination by (relation "measure (\<lambda>(b, start, i, cnt, val). cnt - i)") auto

definition bitmap_contains :: "bitmap \<Rightarrow> nat \<Rightarrow> nat \<Rightarrow> bool \<Rightarrow> bool option" where
  "bitmap_contains b start cnt val = do {
     assertO (start \<le> bit_cnt b);
     assertO (sz (start + cnt) \<le> bit_cnt b);
     contains_loop b start 0 cnt val }"

definition bitmap_any :: "bitmap \<Rightarrow> nat \<Rightarrow> nat \<Rightarrow> bool option" where
  "bitmap_any b start cnt = bitmap_contains b start cnt True"

definition bitmap_none :: "bitmap \<Rightarrow> nat \<Rightarrow> nat \<Rightarrow> bool option" where
  "bitmap_none b start cnt = map_option Not (bitmap_contains b start cnt True)"

definition bitmap_all :: "bitmap \<Rightarrow> nat \<Rightarrow> nat \<Rightarrow> bool option" where
  "bitmap_all b start cnt = map_option Not (bitmap_contains b start cnt False)"

function scan_loop :: "bitmap \<Rightarrow> nat \<Rightarrow> nat \<Rightarrow> nat \<Rightarrow> bool \<Rightarrow> nat option" where
  "scan_loop b i lst cnt val =
     (if i \<le> lst then do {
        c \<leftarrow> bitmap_contains b i cnt (\<not> val);
        if \<not> c then Some i else scan_loop b (i + 1) lst cnt val }
      else Some BITMAP_ERROR)"
  by pat_completeness auto
termination by (relation "measure (\<lambda>(b, i, lst, cnt, val). Suc lst - i)") auto

definition bitmap_scan :: "bitmap \<Rightarrow> nat \<Rightarrow> nat \<Rightarrow> bool \<Rightarrow> nat option" where
  "bitmap_scan b start cnt val = do {
     assertO (start \<le> bit_cnt b);
     if cnt \<le> bit_cnt b then scan_loop b start (bit_cnt b - cnt) cnt val
     else Some BITMAP_ERROR }"

definition bitmap_scan_and_flip :: "bitmap \<Rightarrow> nat \<Rightarrow> nat \<Rightarrow> bool \<Rightarrow> (nat \<times> bitmap) option" where
  "bitmap_scan_and_flip b start cnt val = do {
     idx \<leftarrow> bitmap_scan b start cnt val;
     if idx \<noteq> BITMAP_ERROR
     then do { b \<leftarrow> bitmap_set_multiple b idx cnt (\<not> val); Some (idx, b) }
     else Some (idx, b) }"

definition bitmap_file_size :: "bitmap \<Rightarrow> nat" where
  "bitmap_file_size b = byte_cnt (bit_cnt b)"

section \<open>The array of bits\<close>

declare set_loop.simps [simp del] count_loop.simps [simp del] contains_loop.simps [simp del]
  scan_loop.simps [simp del]

definition bit_at :: "bitmap \<Rightarrow> nat \<Rightarrow> bool" where
  "bit_at b i = bit (bits b ! (i div ELEM_BITS)) (i mod ELEM_BITS)"

definition bmap :: "bitmap \<Rightarrow> bool list" where
  "bmap b = map (bit_at b) [0..<bit_cnt b]"

definition bitmap_ok :: "bitmap \<Rightarrow> bool" where
  "bitmap_ok b \<longleftrightarrow> bit_cnt b + 31 < 2 ^ 32 \<and> elem_cnt (bit_cnt b) \<le> length (bits b)"

lemma bmap_length [simp]: "length (bmap b) = bit_cnt b"
  by (simp add: bmap_def)

lemma bmap_nth [simp]: "i < bit_cnt b \<Longrightarrow> bmap b ! i = bit_at b i"
  by (simp add: bmap_def)

lemma elem_cnt_eq: "n + 31 < 2 ^ 32 \<Longrightarrow> elem_cnt n = (n + 31) div 32"
  by (simp add: elem_cnt_def DIV_ROUND_UP_def)

lemma bitmap_idx:
  assumes "bitmap_ok b" "i < bit_cnt b"
  shows "i div ELEM_BITS < length (bits b)" "elem_idx i < length (bits b)"
proof -
  have "i div 32 < (bit_cnt b + 31) div 32" using assms(2) by (simp add: div_less_iff_less_mult)
  then show "i div ELEM_BITS < length (bits b)" "elem_idx i < length (bits b)"
    using assms(1) by (auto simp: bitmap_ok_def elem_cnt_eq elem_idx_def)
qed

lemma bit_mask_bit: "bit (bit_mask i) k \<longleftrightarrow> k = i mod ELEM_BITS"
  using mod_less_divisor [of 32 i] by (auto simp: bit_mask_def bit_simps)

lemma div_mod_neq: "i \<noteq> j \<Longrightarrow> i div n = j div n \<Longrightarrow> i mod n \<noteq> j mod (n :: nat)"
  by (metis div_mult_mod_eq)

text \<open>Each single-bit operation changes one bit and stays within the array.\<close>

lemma bit_update:
  assumes "bitmap_ok b" "i < bit_cnt b"
    and "\<And>k. k < ELEM_BITS \<Longrightarrow> bit w k = (if k = i mod ELEM_BITS then v else bit (bits b ! elem_idx i) k)"
  shows "bmap (b\<lparr>bits := (bits b)[elem_idx i := w]\<rparr>) = (bmap b)[i := v]"
    and "bitmap_ok (b\<lparr>bits := (bits b)[elem_idx i := w]\<rparr>)"
proof -
  have "bit_at (b\<lparr>bits := (bits b)[elem_idx i := w]\<rparr>) j = (bmap b)[i := v] ! j" if "j < bit_cnt b" for j
  proof (cases "j div ELEM_BITS = i div ELEM_BITS")
    case True
    with that assms bitmap_idx [OF assms(1)] div_mod_neq [of j i 32] show ?thesis
      by (cases "j = i") (auto simp: bit_at_def elem_idx_def nth_list_update)
  qed (use that in \<open>auto simp: bit_at_def elem_idx_def nth_list_update\<close>)
  then show "bmap (b\<lparr>bits := (bits b)[elem_idx i := w]\<rparr>) = (bmap b)[i := v]"
    by (intro nth_equalityI) simp_all
qed (use assms(1) in \<open>simp add: bitmap_ok_def\<close>)

lemma bitmap_mark_ok:
  assumes "bitmap_ok b" "i < bit_cnt b"
  obtains b' where "bitmap_mark b i = Some b'" and "bmap b' = (bmap b)[i := True]" and "bitmap_ok b'"
    and "bit_cnt b' = bit_cnt b" and "length (bits b') = length (bits b)"
proof -
  let ?w = "bits b ! elem_idx i OR bit_mask i"
  have w: "bit ?w k = (if k = i mod ELEM_BITS then True else bit (bits b ! elem_idx i) k)" if "k < ELEM_BITS" for k
    using that by (simp add: bit_or_iff bit_mask_bit)
  show thesis
    by (rule that [of "b\<lparr>bits := (bits b)[elem_idx i := ?w]\<rparr>"])
      (simp_all add: bitmap_mark_def Let_def bitmap_idx assms bit_update [OF assms w])
qed

lemma bitmap_reset_ok:
  assumes "bitmap_ok b" "i < bit_cnt b"
  obtains b' where "bitmap_reset b i = Some b'" and "bmap b' = (bmap b)[i := False]" and "bitmap_ok b'"
    and "bit_cnt b' = bit_cnt b" and "length (bits b') = length (bits b)"
proof -
  let ?w = "bits b ! elem_idx i AND NOT (bit_mask i)"
  have w: "bit ?w k = (if k = i mod ELEM_BITS then False else bit (bits b ! elem_idx i) k)" if "k < ELEM_BITS" for k
    using that by (simp add: bit_and_iff bit_not_iff bit_mask_bit)
  show thesis
    by (rule that [of "b\<lparr>bits := (bits b)[elem_idx i := ?w]\<rparr>"])
      (simp_all add: bitmap_reset_def Let_def bitmap_idx assms bit_update [OF assms w])
qed

lemma bitmap_flip_ok:
  assumes "bitmap_ok b" "i < bit_cnt b"
  obtains b' where "bitmap_flip b i = Some b'" and "bmap b' = (bmap b)[i := \<not> bmap b ! i]" and "bitmap_ok b'"
    and "bit_cnt b' = bit_cnt b" and "length (bits b') = length (bits b)"
proof -
  let ?w = "bits b ! elem_idx i XOR bit_mask i"
  have w: "bit ?w k = (if k = i mod ELEM_BITS then \<not> bmap b ! i else bit (bits b ! elem_idx i) k)" if "k < ELEM_BITS" for k
    using that assms(2) by (simp add: bit_xor_iff bit_mask_bit bit_at_def elem_idx_def)
  show thesis
    by (rule that [of "b\<lparr>bits := (bits b)[elem_idx i := ?w]\<rparr>"])
      (simp_all add: bitmap_flip_def Let_def bitmap_idx assms bit_update [OF assms w])
qed

lemma bitmap_set_ok:
  assumes "bitmap_ok b" "i < bit_cnt b"
  obtains b' where "bitmap_set b i v = Some b'" and "bmap b' = (bmap b)[i := v]" and "bitmap_ok b'"
    and "bit_cnt b' = bit_cnt b" and "length (bits b') = length (bits b)"
proof (cases v)
  case True
  have "bitmap_set b i v = bitmap_mark b i" using True assms(2) by (simp add: bitmap_set_def)
  with that True bitmap_mark_ok [OF assms] show thesis by metis
next
  case False
  have "bitmap_set b i v = bitmap_reset b i" using False assms(2) by (simp add: bitmap_set_def)
  with that False bitmap_reset_ok [OF assms] show thesis by metis
qed

lemma bitmap_test_ok:
  assumes "bitmap_ok b" "i < bit_cnt b"
  shows "bitmap_test b i = Some (bmap b ! i)"
  using bitmap_idx [OF assms] assms(2)
  by (simp add: bitmap_test_def bit_mask_def bit_at_def elem_idx_def and_exp_eq_0_iff_not_bit)

lemma bitmap_set_out: "bit_cnt b \<le> i \<Longrightarrow> bitmap_set b i v = None" "bit_cnt b \<le> i \<Longrightarrow> bitmap_test b i = None"
  by (simp_all add: bitmap_set_def bitmap_test_def)

section \<open>Groups of bits\<close>

abbreviation segment :: "nat \<Rightarrow> nat \<Rightarrow> 'a list \<Rightarrow> 'a list" where
  "segment start cnt xs \<equiv> take cnt (drop start xs)"

definition fill :: "nat \<Rightarrow> nat \<Rightarrow> 'a \<Rightarrow> 'a list \<Rightarrow> 'a list" where
  "fill start cnt v xs = take start xs @ replicate cnt v @ drop (start + cnt) xs"

lemma fill_0 [simp]: "fill start 0 v xs = xs"
  by (simp add: fill_def)

lemma fill_Suc: "start < length xs \<Longrightarrow> fill (Suc start) cnt v (xs[start := v]) = fill start (Suc cnt) v xs"
  by (simp add: fill_def take_Suc_conv_app_nth)

lemma fill_nth:
  "start + cnt \<le> length xs \<Longrightarrow> i < length xs \<Longrightarrow>
   fill start cnt v xs ! i = (if start \<le> i \<and> i < start + cnt then v else xs ! i)"
  by (auto simp: fill_def nth_append)

lemma segment_Suc: "start < length xs \<Longrightarrow> segment start (Suc cnt) xs = xs ! start # segment (Suc start) cnt xs"
  by (simp add: Cons_nth_drop_Suc [symmetric])

lemma set_loop_ok:
  assumes "bitmap_ok b" "start + cnt \<le> bit_cnt b" "i \<le> cnt"
  shows "\<exists>b'. set_loop b start i cnt v = Some b' \<and> bitmap_ok b' \<and> bit_cnt b' = bit_cnt b \<and>
    length (bits b') = length (bits b) \<and> bmap b' = fill (start + i) (cnt - i) v (bmap b)"
  using assms
proof (induction "cnt - i" arbitrary: b i)
  case 0
  then show ?case by (simp add: set_loop.simps)
next
  case (Suc n)
  then have i: "start + i < bit_cnt b" "start + i < 2 ^ 32" by (auto simp: bitmap_ok_def)
  have n: "n = cnt - Suc i" "Suc i \<le> cnt" "i < cnt" using Suc.hyps(2) by simp_all
  obtain b1 where b1: "bitmap_set b (start + i) v = Some b1" "bmap b1 = (bmap b)[start + i := v]"
    "bitmap_ok b1" "bit_cnt b1 = bit_cnt b" "length (bits b1) = length (bits b)"
    using bitmap_set_ok [OF Suc.prems(1) i(1)] by metis
  have "cnt - i = Suc (cnt - Suc i)" using Suc by simp
  then have "fill (start + Suc i) (cnt - Suc i) v (bmap b1) = fill (start + i) (cnt - i) v (bmap b)"
    using i(1) b1(2) fill_Suc [of "start + i" "bmap b" "cnt - Suc i" v] by simp
  moreover obtain b' where "set_loop b1 start (Suc i) cnt v = Some b'" "bitmap_ok b'"
    "bit_cnt b' = bit_cnt b1" "length (bits b') = length (bits b1)"
    "bmap b' = fill (start + Suc i) (cnt - Suc i) v (bmap b1)"
    using Suc.hyps(1) [of "Suc i" b1] n Suc.prems b1 by auto
  ultimately show ?case
    using i b1 n by (subst set_loop.simps) simp
qed

lemma bitmap_set_multiple_ok:
  assumes "bitmap_ok b" "start + cnt \<le> bit_cnt b"
  shows "\<exists>b'. bitmap_set_multiple b start cnt v = Some b' \<and> bitmap_ok b' \<and> bit_cnt b' = bit_cnt b \<and>
    length (bits b') = length (bits b) \<and> bmap b' = fill start cnt v (bmap b)"
  using set_loop_ok [OF assms, of 0 v] assms by (simp add: bitmap_set_multiple_def bitmap_ok_def)

lemma bitmap_set_all_ok:
  assumes "bitmap_ok b"
  shows "\<exists>b'. bitmap_set_all b v = Some b' \<and> bitmap_ok b' \<and> bit_cnt b' = bit_cnt b \<and>
    length (bits b') = length (bits b) \<and> bmap b' = replicate (bit_cnt b) v"
  using bitmap_set_multiple_ok [OF assms, of 0 "bit_cnt b" v]
  by (simp add: bitmap_set_all_def bitmap_size_def fill_def)

lemma count_loop_ok:
  assumes "bitmap_ok b" "start + cnt \<le> bit_cnt b" "i \<le> cnt"
  shows "count_loop b start i cnt v n = Some (n + count_list (segment (start + i) (cnt - i) (bmap b)) v)"
  using assms
proof (induction "cnt - i" arbitrary: n i)
  case 0
  then show ?case by (simp add: count_loop.simps)
next
  case (Suc m)
  then have i: "start + i < bit_cnt b" "start + i < 2 ^ 32" "cnt - i = Suc (cnt - Suc i)"
    "m = cnt - Suc i" "Suc i \<le> cnt" "i < cnt"
    by (auto simp: bitmap_ok_def)
  show ?case
    using Suc.hyps(1) [of "Suc i"] Suc.prems i bitmap_test_ok [OF Suc.prems(1) i(1)]
    by (subst count_loop.simps) (simp add: segment_Suc)
qed

lemma bitmap_count_ok:
  assumes "bitmap_ok b" "start + cnt \<le> bit_cnt b"
  shows "bitmap_count b start cnt v = Some (count_list (segment start cnt (bmap b)) v)"
  using count_loop_ok [OF assms, of 0 v 0] assms by (simp add: bitmap_count_def bitmap_ok_def)

lemma contains_loop_ok:
  assumes "bitmap_ok b" "start + cnt \<le> bit_cnt b" "i \<le> cnt"
  shows "contains_loop b start i cnt v = Some (v \<in> set (segment (start + i) (cnt - i) (bmap b)))"
  using assms
proof (induction "cnt - i" arbitrary: i)
  case 0
  then show ?case by (simp add: contains_loop.simps)
next
  case (Suc m)
  then have i: "start + i < bit_cnt b" "start + i < 2 ^ 32" "cnt - i = Suc (cnt - Suc i)"
    "m = cnt - Suc i" "Suc i \<le> cnt" "i < cnt"
    by (auto simp: bitmap_ok_def)
  show ?case
    using Suc.hyps(1) [of "Suc i"] Suc.prems i bitmap_test_ok [OF Suc.prems(1) i(1)]
    by (subst contains_loop.simps) (auto simp add: segment_Suc)
qed

lemma bitmap_contains_ok:
  assumes "bitmap_ok b" "start + cnt \<le> bit_cnt b"
  shows "bitmap_contains b start cnt v = Some (v \<in> set (segment start cnt (bmap b)))"
  using contains_loop_ok [OF assms, of 0 v] assms by (simp add: bitmap_contains_def bitmap_ok_def)

text \<open>A group of \<open>cnt\<close> bits at \<open>i\<close>, all equal to \<open>v\<close>.\<close>

definition group_at :: "bool list \<Rightarrow> nat \<Rightarrow> nat \<Rightarrow> bool \<Rightarrow> bool" where
  "group_at bs i cnt v \<longleftrightarrow> i + cnt \<le> length bs \<and> (\<forall>j<cnt. bs ! (i + j) = v)"

lemma group_at_segment:
  assumes "i + cnt \<le> length bs"
  shows "(\<not> v) \<notin> set (segment i cnt bs) \<longleftrightarrow> group_at bs i cnt v"
  using assms by (auto simp: group_at_def in_set_conv_nth)

lemma scan_loop_ok:
  assumes "bitmap_ok b" "cnt \<le> bit_cnt b"
  shows "(\<exists>k\<ge>i. group_at (bmap b) k cnt v \<and> (\<forall>j. i \<le> j \<and> j < k \<longrightarrow> \<not> group_at (bmap b) j cnt v) \<and>
            scan_loop b i (bit_cnt b - cnt) cnt v = Some k) \<or>
         (\<forall>k\<ge>i. \<not> group_at (bmap b) k cnt v) \<and> scan_loop b i (bit_cnt b - cnt) cnt v = Some BITMAP_ERROR"
proof (induction "Suc (bit_cnt b - cnt) - i" arbitrary: i)
  case 0
  then have "\<not> i \<le> bit_cnt b - cnt" by simp
  moreover from this have "\<not> group_at (bmap b) k cnt v" if "k \<ge> i" for k
    using that assms(2) by (auto simp: group_at_def)
  ultimately show ?case by (simp add: scan_loop.simps [of b i])
next
  case (Suc n)
  then have i: "i \<le> bit_cnt b - cnt" "i + cnt \<le> bit_cnt b" using assms(2) by simp_all
  have c: "bitmap_contains b i cnt (\<not> v) = Some (\<not> group_at (bmap b) i cnt v)"
    using bitmap_contains_ok [OF assms(1) i(2), of "\<not> v"] group_at_segment [of i cnt "bmap b" v] i(2) by auto
  show ?case
  proof (cases "group_at (bmap b) i cnt v")
    case True
    then show ?thesis using c i(1) by (auto simp: scan_loop.simps [of b i])
  next
    case False
    then have "scan_loop b i (bit_cnt b - cnt) cnt v = scan_loop b (Suc i) (bit_cnt b - cnt) cnt v"
      using c i(1) by (subst scan_loop.simps) simp
    moreover have "j \<ge> i \<and> group_at (bmap b) j cnt v \<longleftrightarrow> j \<ge> Suc i \<and> group_at (bmap b) j cnt v" for j
      using False by (metis Suc_leD le_antisym not_less_eq_eq)
    moreover have "n = Suc (bit_cnt b - cnt) - Suc i" using Suc.hyps(2) by simp
    ultimately show ?thesis using Suc.hyps(1) [of "Suc i"] by (metis Suc_leD)
  qed
qed

lemma bitmap_scan_ok:
  assumes "bitmap_ok b" "start \<le> bit_cnt b"
  shows "(\<exists>k\<ge>start. group_at (bmap b) k cnt v \<and> (\<forall>j. start \<le> j \<and> j < k \<longrightarrow> \<not> group_at (bmap b) j cnt v) \<and>
            bitmap_scan b start cnt v = Some k) \<or>
         (\<forall>k\<ge>start. \<not> group_at (bmap b) k cnt v) \<and> bitmap_scan b start cnt v = Some BITMAP_ERROR"
proof (cases "cnt \<le> bit_cnt b")
  case True
  then show ?thesis using scan_loop_ok [OF assms(1) True, of start v] assms(2) by (simp add: bitmap_scan_def)
next
  case False
  then show ?thesis using assms(2) by (simp add: bitmap_scan_def group_at_def)
qed

lemma group_at_not_error: "bitmap_ok b \<Longrightarrow> group_at (bmap b) k cnt v \<Longrightarrow> k \<noteq> BITMAP_ERROR"
  by (auto simp: group_at_def bitmap_ok_def BITMAP_ERROR_def)

lemma bitmap_scan_and_flip_ok:
  assumes "bitmap_ok b" "start \<le> bit_cnt b"
  shows "(\<exists>k b'. bitmap_scan_and_flip b start cnt v = Some (k, b') \<and> k \<ge> start \<and>
            group_at (bmap b) k cnt v \<and> (\<forall>j. start \<le> j \<and> j < k \<longrightarrow> \<not> group_at (bmap b) j cnt v) \<and>
            k \<noteq> BITMAP_ERROR \<and> bitmap_ok b' \<and> bit_cnt b' = bit_cnt b \<and>
            length (bits b') = length (bits b) \<and> bmap b' = fill k cnt (\<not> v) (bmap b)) \<or>
         (\<forall>k\<ge>start. \<not> group_at (bmap b) k cnt v) \<and>
            bitmap_scan_and_flip b start cnt v = Some (BITMAP_ERROR, b)"
  using bitmap_scan_ok [OF assms, of cnt v]
proof (elim disjE exE conjE)
  fix k assume k: "start \<le> k" "group_at (bmap b) k cnt v" "bitmap_scan b start cnt v = Some k"
    "\<forall>j. start \<le> j \<and> j < k \<longrightarrow> \<not> group_at (bmap b) j cnt v"
  have "k + cnt \<le> bit_cnt b" using k(2) by (simp add: group_at_def)
  from bitmap_set_multiple_ok [OF assms(1) this, of "\<not> v"] k group_at_not_error [OF assms(1) k(2)]
  show ?thesis by (auto simp: bitmap_scan_and_flip_def)
qed (simp add: bitmap_scan_and_flip_def)

section \<open>Properties\<close>

definition example_bitmap :: bitmap where
  "example_bitmap = \<lparr>bit_cnt = 40, bits = [0x80000001, 2]\<rparr>"

lemma example_bitmap_ok: "bitmap_ok example_bitmap" "bit_cnt example_bitmap = 40"
  by (simp_all add: example_bitmap_def bitmap_ok_def elem_cnt_def DIV_ROUND_UP_def)





text \<open>A freshly created bitmap has all its bits clear, whatever the memory it was given held;
  when either allocation fails the caller gets a null pointer.\<close>

theorem bitmap_create_clear:
  assumes "n + 31 < 2 ^ 32" and "length junk = elem_cnt n"
  shows "(\<exists>b. bitmap_create True (Some junk) n = Some (Some b) \<and> bitmap_ok b \<and> bmap b = replicate n False) \<and>
    (n \<noteq> 0 \<longrightarrow> bitmap_create True None n = Some None) \<and> bitmap_create False m n = Some None"
  using bitmap_set_all_ok [of "\<lparr>bit_cnt = n, bits = junk\<rparr>" False] assms
  by (auto simp: bitmap_create_def bitmap_ok_def)

theorem bitmap_create_clear_witness:
  "(\<exists>b. bitmap_create True (Some [7, 9]) 40 = Some (Some b) \<and> bitmap_ok b \<and> bmap b = replicate 40 False) \<and>
   bitmap_create True None 40 = Some None \<and> bitmap_create False None 40 = Some None"
  using bitmap_create_clear [of 40 "[7, 9]" None] by (simp add: elem_cnt_def DIV_ROUND_UP_def)

end
