(* ===== verification/Bytes.thy ===== *)
theory Bytes
  imports Prelude
begin

text \<open>
  How the i386 lays out 32-bit words in memory: little-endian, four bytes each. Sectors that the
  kernel copies to and from structures and arrays of \<^verbatim>\<open>uint32_t\<close> are read and written through these
  functions. Signed 32-bit integers are integers with \<open>s32\<close> where the code's arithmetic can wrap.
\<close>

definition le32 :: "nat \<Rightarrow> u8 list" where
  "le32 w = [word_of_nat w, word_of_nat (w div 256), word_of_nat (w div 256 ^ 2), word_of_nat (w div 256 ^ 3)]"

fun dec32 :: "u8 list \<Rightarrow> nat" where
  "dec32 [] = 0"
| "dec32 (b # bs) = unat b + 256 * dec32 bs"

fun to_words :: "u8 list \<Rightarrow> nat list" where
  "to_words (a # b # c # d # bs) = dec32 [a, b, c, d] # to_words bs"
| "to_words bs = []"

definition of_words :: "nat list \<Rightarrow> u8 list" where
  "of_words ws = concat (map le32 ws)"

definition s32 :: "int \<Rightarrow> int" where
  "s32 i = (let r = i mod 2 ^ 32 in if r < 2 ^ 31 then r else r - 2 ^ 32)"

definition u32_of :: "int \<Rightarrow> nat" where
  "u32_of i = nat (i mod 2 ^ 32)"

text \<open>Division of C, which truncates towards zero.\<close>

definition cdiv :: "int \<Rightarrow> int \<Rightarrow> int" where
  "cdiv a b = (if (a < 0) = (b < 0) then \<bar>a\<bar> div \<bar>b\<bar> else - (\<bar>a\<bar> div \<bar>b\<bar>))"

definition cmod :: "int \<Rightarrow> int \<Rightarrow> int" where
  "cmod a b = a - cdiv a b * b"

lemma cdiv_nonneg [simp]: "0 \<le> a \<Longrightarrow> 0 \<le> b \<Longrightarrow> cdiv a b = a div b"
  by (simp add: cdiv_def)

lemma cmod_nonneg [simp]: "0 \<le> a \<Longrightarrow> 0 \<le> b \<Longrightarrow> cmod a b = a mod b"
  by (simp add: cmod_def minus_div_mult_eq_mod)

lemma length_le32 [simp]: "length (le32 w) = 4"
  by (simp add: le32_def)

lemma length_of_words [simp]: "length (of_words ws) = 4 * length ws"
  by (induction ws) (simp_all add: of_words_def)

lemma length_to_words: "length (to_words bs) = length bs div 4"
  by (induction bs rule: to_words.induct) simp_all

lemma length_to_words_512 [simp]: "length bs = 512 \<Longrightarrow> length (to_words bs) = 128"
  by (simp add: length_to_words)

lemma dec32_le32: "dec32 (le32 w) = sz w"
proof -
  have "w mod 2 ^ 32 = w mod 256 + 256 * (w div 256 mod 256 + 256 * (w div 256 ^ 2 mod 256 + 256 * (w div 256 ^ 3 mod 256)))"
  proof -
    have e: "m mod (256 * k) = m mod 256 + 256 * (m div 256 mod k)" for m k :: nat
      by (simp add: mod_mult2_eq)
    have "(2::nat) ^ 32 = 256 * (256 * (256 * 256))" by simp
    then show ?thesis by (simp only: e) (simp add: div_mult2_eq [symmetric])
  qed
  then show ?thesis by (simp add: le32_def sz_def unat_of_nat)
qed

lemma unat8: "unat (x :: u8) < 256"
  using unsigned_less [of x, where 'a = nat] by simp

lemma dec32_less: "dec32 [a, b, c, d] < 2 ^ 32"
  using unat8 [of a] unat8 [of b] unat8 [of c] unat8 [of d] by simp

lemma le32_dec32: "le32 (dec32 [a, b, c, d]) = [a, b, c, d]"
proof -
  have d: "(unat x + 256 * y) div 256 = y" for x :: u8 and y
    using unat8 [of x] by simp
  have z: "(256 :: u8) = 0" by (simp add: word_unat_eq_iff)
  have w: "word_of_nat (unat x + 256 * y) = x" for x :: u8 and y
    by (simp add: z)
  show ?thesis unfolding le32_def power2_eq_square power3_eq_cube div_mult2_eq by (simp only: dec32.simps d w)
qed

lemma to_words_of_words: "to_words (of_words ws) = map sz ws"
proof (induction ws)
  case (Cons w ws)
  have "le32 w @ bs = word_of_nat w # word_of_nat (w div 256) # word_of_nat (w div 256 ^ 2) # word_of_nat (w div 256 ^ 3) # bs" for bs
    by (simp add: le32_def)
  with Cons dec32_le32 [of w] show ?case by (simp add: of_words_def le32_def)
qed (simp add: of_words_def)

lemma of_words_to_words: "4 dvd length bs \<Longrightarrow> of_words (to_words bs) = bs"
proof (induction bs rule: to_words.induct)
  case (1 a b c d bs)
  have "4 dvd length bs" using 1(2) unfolding list.size by presburger
  with 1(1) show ?case by (simp add: of_words_def le32_dec32 del: dec32.simps)
qed (auto simp: of_words_def, presburger+)

lemma to_words_bound: "w \<in> set (to_words bs) \<Longrightarrow> w < 2 ^ 32"
  by (induction bs rule: to_words.induct) (use dec32_less in auto)

lemma map_sz_id: "(\<And>w. w \<in> set ws \<Longrightarrow> w < 2 ^ 32) \<Longrightarrow> map sz ws = ws"
  by (induction ws) simp_all

lemma s32_id: "- (2 ^ 31) \<le> i \<Longrightarrow> i < 2 ^ 31 \<Longrightarrow> s32 i = i"
  by (simp add: s32_def Let_def) (smt (verit) mod_pos_pos_trivial mod_add_self2)

lemma s32_bounds: "- (2 ^ 31) \<le> s32 i" "s32 i < 2 ^ 31"
  using pos_mod_bound [of "2 ^ 32" i] pos_mod_sign [of "2 ^ 32" i] by (auto simp: s32_def Let_def)

lemma s32_u32: "s32 (int (u32_of i)) = s32 i"
  by (simp add: s32_def u32_of_def)

lemma u32_of_less [simp]: "u32_of i < 2 ^ 32"
  by (simp add: u32_of_def nat_less_iff)

end
