(* ===== verification/Inode.thy ===== *)
theory Inode
  imports Cache Bitmap Bytes
begin

text \<open>
  Inodes, the free map and files: filesys/inode.c, filesys/free-map.c, filesys/file.c and the file
  routines of lib/kernel/bitmap.c.

  The state \<open>fs\<close> holds the cached device, the in-memory inodes and files by address (a null or freed
  pointer has no entry, and following it does not return), the list of open inodes, and the free map.
  What a stack array holds before it is filled is given by \<open>junk\<close>; the addresses of a local variable
  and of the static array \<^verbatim>\<open>zeros\<close>, which two places of the code pass as sector numbers, are \<open>stack_at\<close>
  and \<open>zeros_at\<close>. All of these are arbitrary.

  Writing a file may grow it, which takes sectors from the free map, which writes the free map's own
  file. The routine that writes a file is therefore a parameter \<open>wr\<close> of everything that may call it;
  \<open>inode_write_at\<close> ties the knot with a bound on the nesting.
\<close>

unbundle bit_operations_syntax

section \<open>State\<close>

record inode_disk =
  direct :: "nat list"
  indirect :: nat
  doubly_indirect :: nat
  ilength :: int
  magic :: nat

record inode =
  isector :: nat
  open_cnt :: int
  removed :: bool
  deny_write_cnt :: int

record open_file =
  finode :: addr
  pos :: int
  deny_write :: bool

record 'm fs =
  cch :: "'m cstate"
  inodes :: "addr \<Rightarrow> inode option"
  open_inodes :: "addr list"
  files :: "addr \<Rightarrow> open_file option"
  next_obj :: addr
  free_map :: bitmap
  free_map_file :: addr
  junk :: "nat \<Rightarrow> nat"
  stack_at :: nat
  zeros_at :: nat

definition INODE_MAGIC :: nat where
  "INODE_MAGIC = 0x494e4f44"

abbreviation DIRECT_CNT :: nat where
  "DIRECT_CNT \<equiv> 124"

abbreviation INDIRECT_CNT :: nat where
  "INDIRECT_CNT \<equiv> 128"

abbreviation zeros :: sector_data where
  "zeros \<equiv> replicate BLOCK_SECTOR_SIZE 0"

definition enc_inode :: "inode_disk \<Rightarrow> sector_data" where
  "enc_inode d = of_words (direct d @ [indirect d, doubly_indirect d, u32_of (ilength d), magic d])"

definition dec_inode :: "sector_data \<Rightarrow> inode_disk" where
  "dec_inode bs = (let ws = to_words bs in
     \<lparr>direct = take DIRECT_CNT ws, indirect = ws ! 124, doubly_indirect = ws ! 125,
      ilength = s32 (int (ws ! 126)), magic = ws ! 127\<rparr>)"

definition stack_array :: "'m fs \<Rightarrow> nat list" where
  "stack_array fs = map (junk fs) [0..<INDIRECT_CNT]"

definition fs_read :: "'m fs \<Rightarrow> nat \<Rightarrow> (sector_data \<times> 'm fs) option" where
  "fs_read fs a = do { (_, d, c) \<leftarrow> cache_read (cch fs) a; Some (d, fs\<lparr>cch := c\<rparr>) }"

definition fs_write :: "'m fs \<Rightarrow> nat \<Rightarrow> sector_data \<Rightarrow> 'm fs option" where
  "fs_write fs a d = do { c \<leftarrow> cache_write (cch fs) a d; Some (fs\<lparr>cch := c\<rparr>) }"

definition fs_malloc :: "'m fs \<Rightarrow> bool \<times> 'm fs" where
  "fs_malloc fs = (let (ok, c) = malloc (cch fs) in (ok, fs\<lparr>cch := c\<rparr>))"

definition int_get :: "'a list \<Rightarrow> int \<Rightarrow> 'a option" where
  "int_get xs i = (if 0 \<le> i then idx_get xs (nat i) else None)"

section \<open>Finding the sector of a byte\<close>

definition read_sector :: "'m fs \<Rightarrow> nat \<Rightarrow> int \<Rightarrow> (nat \<times> 'm fs) option" where
  "read_sector fs sector ofs = do {
     let (ok, fs) = fs_malloc fs;
     assertO ok;
     (bounce, fs) \<leftarrow> fs_read fs sector;
     w \<leftarrow> int_get (to_words bounce) ofs;
     Some (w, fs) }"

definition byte_to_sector :: "'m fs \<Rightarrow> addr \<Rightarrow> int \<Rightarrow> (nat \<times> 'm fs) option" where
  "byte_to_sector fs i p = do {
     nd \<leftarrow> inodes fs i;
     (bs, fs) \<leftarrow> fs_read fs (isector nd);
     let d = dec_inode bs;
     if p < ilength d then
       if p < 124 * 512 then do {
         s \<leftarrow> int_get (direct d) (cdiv p 512);
         Some (s, fs) }
       else if p < (124 + 128) * 512 then read_sector fs (indirect d) (cdiv p 512 - 124)
       else do {
         let doubly_indirect_num = cdiv (cdiv p 512 - 124 - 128) 128;
         let inner_indirect_num = cdiv p 512 - doubly_indirect_num;
         (s, fs) \<leftarrow> read_sector fs (doubly_indirect d) doubly_indirect_num;
         read_sector fs s inner_indirect_num }
     else Some (NO_SECTOR, fs) }"

definition inode_length :: "'m fs \<Rightarrow> addr \<Rightarrow> (int \<times> 'm fs) option" where
  "inode_length fs i = do {
     nd \<leftarrow> inodes fs i;
     (bs, fs) \<leftarrow> fs_read fs (isector nd);
     Some (ilength (dec_inode bs), fs) }"

section \<open>Reading\<close>

definition put_bytes :: "u8 list \<Rightarrow> int \<Rightarrow> u8 list \<Rightarrow> u8 list option" where
  "put_bytes buf at bs =
     (if 0 \<le> at \<and> nat at + length bs \<le> length buf then Some (splice_bytes buf (nat at) bs) else None)"

definition chunk :: "int \<Rightarrow> int \<Rightarrow> int \<Rightarrow> int" where
  "chunk len ofs left = (
     let inode_left = len - ofs;
         sector_left = 512 - cmod ofs 512;
         min_left = (if inode_left < sector_left then inode_left else sector_left) in
     if left < min_left then left else min_left)"

function read_loop :: "'m fs \<Rightarrow> addr \<Rightarrow> u8 list \<Rightarrow> int \<Rightarrow> int \<Rightarrow> int \<Rightarrow> (int \<times> u8 list \<times> 'm fs) option" where
  "read_loop fs i buf len ofs bytes_read =
     (if 0 < len then do {
        (sector_idx, fs) \<leftarrow> byte_to_sector fs i ofs;
        (ilen, fs) \<leftarrow> inode_length fs i;
        let sector_ofs = cmod ofs 512;
        let chunk_size = chunk ilen ofs len;
        if chunk_size \<le> 0 then Some (bytes_read, buf, fs)
        else do {
          (buf, fs) \<leftarrow>
            (if sector_ofs = 0 \<and> chunk_size = 512 then do {
               (d, fs) \<leftarrow> fs_read fs sector_idx;
               buf \<leftarrow> put_bytes buf bytes_read d;
               Some (buf, fs) }
             else do {
               assertO (0 \<le> sector_ofs);
               (r, c) \<leftarrow> cache_read_bytes (cch fs) sector_idx (nat sector_ofs) (nat chunk_size);
               buf \<leftarrow> (case r of None \<Rightarrow> Some buf | Some bs \<Rightarrow> put_bytes buf bytes_read bs);
               Some (buf, fs\<lparr>cch := c\<rparr>) });
          read_loop fs i buf (len - chunk_size) (ofs + chunk_size) (bytes_read + chunk_size) } }
      else Some (bytes_read, buf, fs))"
  by pat_completeness auto
termination by (relation "measure (\<lambda>(fs, i, buf, len, ofs, n). nat len)") auto

definition inode_read_at :: "'m fs \<Rightarrow> addr \<Rightarrow> u8 list \<Rightarrow> int \<Rightarrow> int \<Rightarrow> (int \<times> u8 list \<times> 'm fs) option" where
  "inode_read_at fs i buf len ofs = do {
     nd \<leftarrow> inodes fs i;
     if 20000000 < isector nd then Some (-1, buf, fs)
     else do {
       (bs, fs) \<leftarrow> fs_read fs (isector nd);
       buf \<leftarrow> (if ilength (dec_inode bs) \<le> ofs
              then do { assertO (0 \<le> len \<and> len \<le> 512); put_bytes buf 0 (replicate (nat len) 0) }
              else Some buf);
       read_loop fs i buf len ofs 0 } }"

section \<open>The free map\<close>

type_synonym 'm writer = "'m fs \<Rightarrow> addr \<Rightarrow> u8 list \<Rightarrow> int \<Rightarrow> int \<Rightarrow> (int \<times> 'm fs) option"

definition file_read_at :: "'m fs \<Rightarrow> addr \<Rightarrow> u8 list \<Rightarrow> int \<Rightarrow> int \<Rightarrow> (int \<times> u8 list \<times> 'm fs) option" where
  "file_read_at fs f buf len file_ofs = do { fl \<leftarrow> files fs f; inode_read_at fs (finode fl) buf len file_ofs }"

definition file_write_at :: "'m writer \<Rightarrow> 'm fs \<Rightarrow> addr \<Rightarrow> u8 list \<Rightarrow> int \<Rightarrow> int \<Rightarrow> (int \<times> 'm fs) option" where
  "file_write_at wr fs f buf len file_ofs = do { fl \<leftarrow> files fs f; wr fs (finode fl) buf len file_ofs }"

definition bitmap_bytes :: "bitmap \<Rightarrow> u8 list" where
  "bitmap_bytes b = of_words (map unat (bits b))"

definition bitmap_write :: "'m writer \<Rightarrow> 'm fs \<Rightarrow> bitmap \<Rightarrow> addr \<Rightarrow> (bool \<times> 'm fs) option" where
  "bitmap_write wr fs b f = do {
     let n = int (byte_cnt (bit_cnt b));
     (r, fs) \<leftarrow> file_write_at wr fs f (bitmap_bytes b) n 0;
     Some (r = n, fs) }"

definition bitmap_read :: "'m fs \<Rightarrow> bitmap \<Rightarrow> addr \<Rightarrow> (bool \<times> bitmap \<times> 'm fs) option" where
  "bitmap_read fs b f =
     (if 0 < bit_cnt b then do {
        let n = int (byte_cnt (bit_cnt b));
        (r, bs, fs) \<leftarrow> file_read_at fs f (bitmap_bytes b) n 0;
        let es = (map word_of_nat (to_words bs) :: u32 list);
        e \<leftarrow> idx_get es (elem_cnt (bit_cnt b) - 1);
        es \<leftarrow> idx_set es (elem_cnt (bit_cnt b) - 1) (e AND last_mask b);
        Some (r = n, b\<lparr>bits := es\<rparr>, fs) }
      else Some (True, b, fs))"

definition free_map_allocate :: "'m writer \<Rightarrow> 'm fs \<Rightarrow> nat \<Rightarrow> (nat option \<times> 'm fs) option" where
  "free_map_allocate wr fs cnt = do {
     (sector, b) \<leftarrow> bitmap_scan_and_flip (free_map fs) 0 cnt False;
     let fs = fs\<lparr>free_map := b\<rparr>;
     (sector, fs) \<leftarrow>
       (if sector \<noteq> BITMAP_ERROR \<and> free_map_file fs \<noteq> NULL then do {
          (ok, fs) \<leftarrow> bitmap_write wr fs (free_map fs) (free_map_file fs);
          if \<not> ok then do {
            b \<leftarrow> bitmap_set_multiple (free_map fs) sector cnt False;
            Some (BITMAP_ERROR, fs\<lparr>free_map := b\<rparr>) }
          else Some (sector, fs) }
        else Some (sector, fs));
     Some (if sector \<noteq> BITMAP_ERROR then Some sector else None, fs) }"

definition free_map_release :: "'m writer \<Rightarrow> 'm fs \<Rightarrow> nat \<Rightarrow> nat \<Rightarrow> 'm fs option" where
  "free_map_release wr fs sector cnt = do {
     a \<leftarrow> bitmap_all (free_map fs) sector cnt;
     assertO a;
     b \<leftarrow> bitmap_set_multiple (free_map fs) sector cnt False;
     let fs = fs\<lparr>free_map := b\<rparr>;
     (_, fs) \<leftarrow> bitmap_write wr fs (free_map fs) (free_map_file fs);
     Some fs }"

section \<open>Creating and growing\<close>

definition sectors_for :: "int \<Rightarrow> int" where
  "sectors_for len = (let c = cdiv len 512 in if c * 512 < len then c + 1 else c)"

text \<open>\<^verbatim>\<open>if (free_map_allocate (1, &arr[j])) cache_write (fs_device, arr[j], zeros);\<close> for every \<open>j\<close> of a
  range; the flag records whether any allocation succeeded.\<close>

fun alloc_range :: "'m writer \<Rightarrow> 'm fs \<Rightarrow> nat list \<Rightarrow> nat list \<Rightarrow> bool \<Rightarrow> (nat list \<times> bool \<times> 'm fs) option" where
  "alloc_range wr fs arr [] any = Some (arr, any, fs)"
| "alloc_range wr fs arr (j # js) any = do {
     (s, fs) \<leftarrow> free_map_allocate wr fs 1;
     case s of
       None \<Rightarrow> alloc_range wr fs arr js any
     | Some s \<Rightarrow> do {
         arr \<leftarrow> idx_set arr j s;
         fs \<leftarrow> fs_write fs s zeros;
         alloc_range wr fs arr js True } }"

text \<open>The loop over the inner tables of \<^verbatim>\<open>inode_create\<close>; each inner table is written to the sector
  \<^verbatim>\<open>doubly_indirect_blocks[k]\<close>, with the value that \<^verbatim>\<open>k\<close> has after the inner loop.\<close>

fun create_doubly :: "'m writer \<Rightarrow> 'm fs \<Rightarrow> nat list \<Rightarrow> nat list \<Rightarrow> nat \<Rightarrow> (nat list \<times> 'm fs) option" where
  "create_doubly wr fs arr [] sectors_left = Some (arr, fs)"
| "create_doubly wr fs arr (j # js) sectors_left =
     (if 0 < sectors_left then do {
        (s, fs) \<leftarrow> free_map_allocate wr fs 1;
        case s of
          None \<Rightarrow> create_doubly wr fs arr js sectors_left
        | Some s \<Rightarrow> do {
            arr \<leftarrow> idx_set arr j s;
            let k = min INDIRECT_CNT sectors_left;
            (inner, _, fs) \<leftarrow> alloc_range wr fs (stack_array fs) [0..<k] False;
            t \<leftarrow> idx_get arr k;
            fs \<leftarrow> fs_write fs t (of_words inner);
            create_doubly wr fs arr js (sectors_left - k) } }
      else Some (arr, fs))"

definition create_indirect :: "'m writer \<Rightarrow> 'm fs \<Rightarrow> inode_disk \<Rightarrow> nat \<Rightarrow> bool \<Rightarrow> (inode_disk \<times> bool \<times> 'm fs) option" where
  "create_indirect wr fs d sector_count success =
     (if 124 < sector_count then do {
        (s, fs) \<leftarrow> free_map_allocate wr fs 1;
        case s of
          None \<Rightarrow> Some (d, success, fs)
        | Some s \<Rightarrow> do {
            (arr, _, fs) \<leftarrow> alloc_range wr fs (stack_array fs) [0..<min 128 (sector_count - 124)] False;
            fs \<leftarrow> fs_write fs s (of_words arr);
            Some (d\<lparr>indirect := s\<rparr>, True, fs) } }
      else Some (d, success, fs))"

definition create_doubly_indirect :: "'m writer \<Rightarrow> 'm fs \<Rightarrow> inode_disk \<Rightarrow> nat \<Rightarrow> bool \<Rightarrow> (inode_disk \<times> bool \<times> 'm fs) option" where
  "create_doubly_indirect wr fs d sector_count success =
     (if 124 + 128 < sector_count then do {
        (s, fs) \<leftarrow> free_map_allocate wr fs 1;
        case s of
          None \<Rightarrow> Some (d, success, fs)
        | Some s \<Rightarrow> do {
            (arr, fs) \<leftarrow> create_doubly wr fs (stack_array fs) [0..<128] (sector_count - 124 - 128);
            fs \<leftarrow> fs_write fs s (of_words arr);
            Some (d\<lparr>doubly_indirect := s\<rparr>, True, fs) } }
      else Some (d, success, fs))"

definition inode_create :: "'m writer \<Rightarrow> 'm fs \<Rightarrow> nat \<Rightarrow> int \<Rightarrow> (bool \<times> 'm fs) option" where
  "inode_create wr fs sector len = do {
     assertO (0 \<le> len);
     let (ok, fs) = fs_malloc fs;
     if \<not> ok then Some (False, fs)
     else do {
       let sector_count = nat (sectors_for len);
       let d = \<lparr>direct = replicate DIRECT_CNT 0, indirect = 0, doubly_indirect = 0, ilength = len, magic = INODE_MAGIC\<rparr>;
       (ds, success, fs) \<leftarrow> alloc_range wr fs (direct d) [0..<min sector_count 124] False;
       let d = d\<lparr>direct := ds\<rparr>;
       (d, success, fs) \<leftarrow> create_indirect wr fs d sector_count success;
       (d, success, fs) \<leftarrow> create_doubly_indirect wr fs d sector_count success;
       fs \<leftarrow> fs_write fs sector (enc_inode d);
       Some (0 < sector_count \<longrightarrow> success, fs) } }"

text \<open>Growing. \<open>new_sectors\<close> is the code's running count of sectors still to be added; its adjustment in
  the indirect part (\<^verbatim>\<open>new_sectors -= 128 - current_sectors\<close>) is as in the code.\<close>

definition add_direct :: "'m writer \<Rightarrow> 'm fs \<Rightarrow> inode_disk \<Rightarrow> int \<Rightarrow> int \<Rightarrow> int \<Rightarrow> (inode_disk \<times> int \<times> int \<times> 'm fs) option" where
  "add_direct wr fs d total_sectors current new_sectors =
     (if current < 124 then do {
        (ds, _, fs) \<leftarrow> alloc_range wr fs (direct d) [nat current..<min (nat total_sectors) 124] False;
        Some (d\<lparr>direct := ds\<rparr>, min total_sectors 124, if 124 < total_sectors then new_sectors - (124 - current) else 0, fs) }
      else Some (d, current, new_sectors, fs))"

definition add_indirect :: "'m writer \<Rightarrow> 'm fs \<Rightarrow> inode_disk \<Rightarrow> int \<Rightarrow> int \<Rightarrow> int \<Rightarrow> (inode_disk \<times> int \<times> int \<times> 'm fs) option" where
  "add_indirect wr fs d total_sectors current new_sectors =
     (if 0 < new_sectors \<and> current < 124 + 128 then do {
        let new_sectors = (if 124 + 128 < total_sectors then new_sectors - (128 - current) else 0);
        (d, arr, fs) \<leftarrow>
          (if current = 124 then do {
             (s, fs) \<leftarrow> free_map_allocate wr fs 1;
             Some (case s of None \<Rightarrow> d | Some s \<Rightarrow> d\<lparr>indirect := s\<rparr>, stack_array fs, fs) }
           else do {
             (bs, fs) \<leftarrow> fs_read fs (indirect d);
             Some (d, to_words bs, fs) });
        (arr, _, fs) \<leftarrow> alloc_range wr fs arr [nat (current - 124)..<nat (min (total_sectors - 124) 128)] False;
        fs \<leftarrow> fs_write fs (indirect d) (of_words arr);
        Some (d, min total_sectors (124 + 128), new_sectors, fs) }
      else Some (d, current, new_sectors, fs))"

fun add_doubly :: "'m writer \<Rightarrow> 'm fs \<Rightarrow> nat list \<Rightarrow> nat list \<Rightarrow> int \<Rightarrow> nat \<Rightarrow> int \<Rightarrow> (nat list \<times> 'm fs) option" where
  "add_doubly wr fs arr [] current inner_start new_sectors = Some (arr, fs)"
| "add_doubly wr fs arr (j # js) current inner_start new_sectors =
     (if 0 < new_sectors then do {
        (arr, inner, fs) \<leftarrow>
          (if current = 124 + 128 + 128 * int j then do {
             (s, fs) \<leftarrow> free_map_allocate wr fs 1;
             arr \<leftarrow> (case s of None \<Rightarrow> Some arr | Some s \<Rightarrow> idx_set arr j s);
             Some (arr, stack_array fs, fs) }
           else do {
             t \<leftarrow> idx_get arr j;
             (bs, fs) \<leftarrow> fs_read fs t;
             Some (arr, to_words bs, fs) });
        let k = min 128 (inner_start + nat new_sectors);
        (inner, _, fs) \<leftarrow> alloc_range wr fs inner [inner_start..<k] False;
        t \<leftarrow> idx_get arr j;
        fs \<leftarrow> fs_write fs t (of_words inner);
        add_doubly wr fs arr js current (if inner_start < k then 0 else inner_start)
          (new_sectors - int (k - inner_start)) }
      else Some (arr, fs))"

definition add_doubly_indirect :: "'m writer \<Rightarrow> 'm fs \<Rightarrow> inode_disk \<Rightarrow> int \<Rightarrow> int \<Rightarrow> (inode_disk \<times> 'm fs) option" where
  "add_doubly_indirect wr fs d current new_sectors =
     (if 0 < new_sectors then do {
        (d, arr, fs) \<leftarrow>
          (if current = 124 + 128 then do {
             (s, fs) \<leftarrow> free_map_allocate wr fs 1;
             (bs, fs) \<leftarrow> fs_read fs (zeros_at fs);
             Some (case s of None \<Rightarrow> d | Some s \<Rightarrow> d\<lparr>doubly_indirect := s\<rparr>, to_words bs, fs) }
           else do {
             (bs, fs) \<leftarrow> fs_read fs (doubly_indirect d);
             Some (d, to_words bs, fs) });
        let outer_start = cdiv (current - 124 - 128) 128;
        let inner_start = cmod (current - 124 - 128) 128;
        assertO (0 \<le> outer_start \<and> 0 \<le> inner_start);
        (arr, fs) \<leftarrow> add_doubly wr fs arr [nat outer_start..<128] current (nat inner_start) new_sectors;
        fs \<leftarrow> fs_write fs (doubly_indirect d) (of_words arr);
        Some (d, fs) }
      else Some (d, fs))"

definition add_inode :: "'m writer \<Rightarrow> 'm fs \<Rightarrow> inode_disk \<Rightarrow> int \<Rightarrow> (inode_disk \<times> 'm fs) option" where
  "add_inode wr fs d new_length = (
     let total_sectors = sectors_for new_length;
         current = sectors_for (ilength d);
         new_sectors = total_sectors - current in
     if new_sectors \<le> 0
     then Some (d\<lparr>ilength := if ilength d < new_length then new_length else ilength d\<rparr>, fs)
     else do {
       (d, current, new_sectors, fs) \<leftarrow> add_direct wr fs d total_sectors current new_sectors;
       (d, current, new_sectors, fs) \<leftarrow> add_indirect wr fs d total_sectors current new_sectors;
       (d, fs) \<leftarrow> add_doubly_indirect wr fs d current new_sectors;
       Some (d\<lparr>ilength := new_length\<rparr>, fs) })"

section \<open>Writing\<close>

function write_loop :: "'m fs \<Rightarrow> addr \<Rightarrow> u8 list \<Rightarrow> int \<Rightarrow> int \<Rightarrow> int \<Rightarrow> (int \<times> 'm fs) option" where
  "write_loop fs i buf len ofs bytes_written =
     (if 0 < len then do {
        (sector_idx, fs) \<leftarrow> byte_to_sector fs i ofs;
        (ilen, fs) \<leftarrow> inode_length fs i;
        let sector_ofs = cmod ofs 512;
        let chunk_size = chunk ilen ofs len;
        if chunk_size \<le> 0 then Some (bytes_written, fs)
        else do {
          assertO (bytes_written + chunk_size \<le> int (length buf));
          let src = drop (nat bytes_written) buf;
          fs \<leftarrow>
            (if sector_ofs = 0 \<and> chunk_size = 512 then fs_write fs sector_idx (take 512 src)
             else do {
               assertO (0 \<le> sector_ofs);
               (_, c) \<leftarrow> cache_write_bytes (cch fs) sector_idx src (nat sector_ofs) (nat chunk_size) (nat (512 - sector_ofs));
               Some (fs\<lparr>cch := c\<rparr>) });
          write_loop fs i buf (len - chunk_size) (ofs + chunk_size) (bytes_written + chunk_size) } }
      else Some (bytes_written, fs))"
  by pat_completeness auto
termination by (relation "measure (\<lambda>(fs, i, buf, len, ofs, n). nat len)") auto

definition inode_write_body :: "'m writer \<Rightarrow> 'm writer" where
  "inode_write_body wr fs i buf len ofs = do {
     nd \<leftarrow> inodes fs i;
     if deny_write_cnt nd \<noteq> 0 then Some (0, fs)
     else do {
       (bs, fs) \<leftarrow> fs_read fs (isector nd);
       (d, fs) \<leftarrow> add_inode wr fs (dec_inode bs) (s32 (len + ofs));
       fs \<leftarrow> fs_write fs (isector nd) (enc_inode d);
       (n, fs) \<leftarrow> write_loop fs i buf len ofs 0;
       fs \<leftarrow> fs_write fs (isector nd) (enc_inode d);
       Some (n, fs) } }"

fun inode_write_at :: "nat \<Rightarrow> 'm writer" where
  "inode_write_at 0 = (\<lambda>fs i buf len ofs. None)"
| "inode_write_at (Suc k) = inode_write_body (inode_write_at k)"

section \<open>Opening and closing\<close>

fun find_open :: "'m fs \<Rightarrow> nat \<Rightarrow> addr list \<Rightarrow> addr option option" where
  "find_open fs sector [] = Some None"
| "find_open fs sector (a # as) = do {
     nd \<leftarrow> inodes fs a;
     if isector nd = sector then Some (Some a) else find_open fs sector as }"

definition inode_reopen :: "'m fs \<Rightarrow> addr \<Rightarrow> (addr \<times> 'm fs) option" where
  "inode_reopen fs i =
     (if i \<noteq> NULL then do {
        nd \<leftarrow> inodes fs i;
        Some (i, fs\<lparr>inodes := (inodes fs)(i \<mapsto> nd\<lparr>open_cnt := open_cnt nd + 1\<rparr>)\<rparr>) }
      else Some (i, fs))"

definition inode_open :: "'m fs \<Rightarrow> nat \<Rightarrow> (addr \<times> 'm fs) option" where
  "inode_open fs sector = do {
     found \<leftarrow> find_open fs sector (open_inodes fs);
     case found of
       Some i \<Rightarrow> inode_reopen fs i
     | None \<Rightarrow> (let (ok, fs) = fs_malloc fs in
         if \<not> ok then Some (NULL, fs)
         else let i = next_obj fs in
           Some (i, fs\<lparr>next_obj := i + 1, open_inodes := i # open_inodes fs,
             inodes := (inodes fs)(i \<mapsto> \<lparr>isector = sector, open_cnt = 1, removed = False, deny_write_cnt = 0\<rparr>)\<rparr>)) }"

definition inode_get_inumber :: "'m fs \<Rightarrow> addr \<Rightarrow> nat option" where
  "inode_get_inumber fs i = map_option isector (inodes fs i)"

fun release_each :: "'m writer \<Rightarrow> 'm fs \<Rightarrow> nat list \<Rightarrow> 'm fs option" where
  "release_each wr fs [] = Some fs"
| "release_each wr fs (s # ss) = do { fs \<leftarrow> free_map_release wr fs s 1; release_each wr fs ss }"

fun release_doubly :: "'m writer \<Rightarrow> 'm fs \<Rightarrow> nat list \<Rightarrow> nat \<Rightarrow> 'm fs option" where
  "release_doubly wr fs [] remaining = Some fs"
| "release_doubly wr fs (s # ss) remaining =
     (if 0 < remaining then do {
        (bs, fs) \<leftarrow> fs_read fs s;
        fs \<leftarrow> release_each wr fs (take remaining (to_words bs));
        fs \<leftarrow> free_map_release wr fs s 1;
        release_doubly wr fs ss (remaining - 128) }
      else Some fs)"

definition deallocate_inode :: "'m writer \<Rightarrow> 'm fs \<Rightarrow> inode_disk \<Rightarrow> 'm fs option" where
  "deallocate_inode wr fs d = (
     let total_sectors = sectors_for (ilength d) in
     if total_sectors \<le> 0 then Some fs
     else do {
       let n = nat total_sectors;
       fs \<leftarrow> release_each wr fs (take n (direct d));
       fs \<leftarrow> (if 124 < n then do {
              (bs, fs) \<leftarrow> fs_read fs (stack_at fs);
              fs \<leftarrow> release_each wr fs (take (n - 124) (to_words bs));
              free_map_release wr fs (indirect d) 1 }
            else Some fs);
       if 124 + 128 < n then do {
         (bs, fs) \<leftarrow> fs_read fs (stack_at fs + 4);
         fs \<leftarrow> release_doubly wr fs (to_words bs) (n - 124 - 128);
         free_map_release wr fs (doubly_indirect d) 1 }
       else Some fs })"

definition inode_close :: "'m writer \<Rightarrow> 'm fs \<Rightarrow> addr \<Rightarrow> 'm fs option" where
  "inode_close wr fs i =
     (if i = NULL then Some fs
      else do {
        nd \<leftarrow> inodes fs i;
        let nd = nd\<lparr>open_cnt := open_cnt nd - 1\<rparr>;
        if open_cnt nd = 0 then do {
          let fs = fs\<lparr>open_inodes := remove1 i (open_inodes fs), inodes := (inodes fs)(i \<mapsto> nd)\<rparr>;
          fs \<leftarrow> (if removed nd then do {
                 (bs, fs) \<leftarrow> fs_read fs (isector nd);
                 fs \<leftarrow> deallocate_inode wr fs (dec_inode bs);
                 free_map_release wr fs (isector nd) 1 }
               else Some fs);
          Some (fs\<lparr>inodes := (inodes fs)(i := None)\<rparr>) }
        else Some (fs\<lparr>inodes := (inodes fs)(i \<mapsto> nd)\<rparr>) })"

definition inode_remove :: "'m fs \<Rightarrow> addr \<Rightarrow> 'm fs option" where
  "inode_remove fs i = do {
     assertO (i \<noteq> NULL);
     nd \<leftarrow> inodes fs i;
     Some (fs\<lparr>inodes := (inodes fs)(i \<mapsto> nd\<lparr>removed := True\<rparr>)\<rparr>) }"

definition inode_deny_write :: "'m fs \<Rightarrow> addr \<Rightarrow> 'm fs option" where
  "inode_deny_write fs i = do {
     nd \<leftarrow> inodes fs i;
     let nd = nd\<lparr>deny_write_cnt := deny_write_cnt nd + 1\<rparr>;
     assertO (deny_write_cnt nd \<le> open_cnt nd);
     Some (fs\<lparr>inodes := (inodes fs)(i \<mapsto> nd)\<rparr>) }"

definition inode_allow_write :: "'m fs \<Rightarrow> addr \<Rightarrow> 'm fs option" where
  "inode_allow_write fs i = do {
     nd \<leftarrow> inodes fs i;
     assertO (0 < deny_write_cnt nd);
     assertO (deny_write_cnt nd \<le> open_cnt nd);
     Some (fs\<lparr>inodes := (inodes fs)(i \<mapsto> nd\<lparr>deny_write_cnt := deny_write_cnt nd - 1\<rparr>)\<rparr>) }"

definition inode_removed :: "'m fs \<Rightarrow> addr \<Rightarrow> bool option" where
  "inode_removed fs i = map_option removed (inodes fs i)"

section \<open>Files\<close>

definition file_open :: "'m writer \<Rightarrow> 'm fs \<Rightarrow> addr \<Rightarrow> (addr \<times> 'm fs) option" where
  "file_open wr fs i = (
     let (ok, fs) = fs_malloc fs in
     if i \<noteq> NULL \<and> ok then
       let f = next_obj fs in
       Some (f, fs\<lparr>next_obj := f + 1, files := (files fs)(f \<mapsto> \<lparr>finode = i, pos = 0, deny_write = False\<rparr>)\<rparr>)
     else do { fs \<leftarrow> inode_close wr fs i; Some (NULL, fs) })"

definition file_reopen :: "'m writer \<Rightarrow> 'm fs \<Rightarrow> addr \<Rightarrow> (addr \<times> 'm fs) option" where
  "file_reopen wr fs f = do {
     fl \<leftarrow> files fs f;
     (i, fs) \<leftarrow> inode_reopen fs (finode fl);
     file_open wr fs i }"

definition file_deny_write :: "'m fs \<Rightarrow> addr \<Rightarrow> 'm fs option" where
  "file_deny_write fs f = do {
     fl \<leftarrow> files fs f;
     if \<not> deny_write fl then
       inode_deny_write (fs\<lparr>files := (files fs)(f \<mapsto> fl\<lparr>deny_write := True\<rparr>)\<rparr>) (finode fl)
     else Some fs }"

definition file_allow_write :: "'m fs \<Rightarrow> addr \<Rightarrow> 'm fs option" where
  "file_allow_write fs f = do {
     fl \<leftarrow> files fs f;
     if deny_write fl then
       inode_allow_write (fs\<lparr>files := (files fs)(f \<mapsto> fl\<lparr>deny_write := False\<rparr>)\<rparr>) (finode fl)
     else Some fs }"

definition file_close :: "'m writer \<Rightarrow> 'm fs \<Rightarrow> addr \<Rightarrow> 'm fs option" where
  "file_close wr fs f =
     (if f \<noteq> NULL then do {
        fs \<leftarrow> file_allow_write fs f;
        fl \<leftarrow> files fs f;
        fs \<leftarrow> inode_close wr fs (finode fl);
        Some (fs\<lparr>files := (files fs)(f := None)\<rparr>) }
      else Some fs)"

definition file_get_inode :: "'m fs \<Rightarrow> addr \<Rightarrow> addr option" where
  "file_get_inode fs f = map_option finode (files fs f)"

definition file_advance :: "'m fs \<Rightarrow> addr \<Rightarrow> int \<Rightarrow> 'm fs option" where
  "file_advance fs f n = do {
     fl \<leftarrow> files fs f;
     Some (fs\<lparr>files := (files fs)(f \<mapsto> fl\<lparr>pos := s32 (pos fl + n)\<rparr>)\<rparr>) }"

definition file_read :: "'m fs \<Rightarrow> addr \<Rightarrow> u8 list \<Rightarrow> int \<Rightarrow> (int \<times> u8 list \<times> 'm fs) option" where
  "file_read fs f buf len = do {
     fl \<leftarrow> files fs f;
     (n, buf, fs) \<leftarrow> inode_read_at fs (finode fl) buf len (pos fl);
     fs \<leftarrow> file_advance fs f n;
     Some (n, buf, fs) }"

definition file_write :: "'m writer \<Rightarrow> 'm fs \<Rightarrow> addr \<Rightarrow> u8 list \<Rightarrow> int \<Rightarrow> (int \<times> 'm fs) option" where
  "file_write wr fs f buf len = do {
     fl \<leftarrow> files fs f;
     (n, fs) \<leftarrow> wr fs (finode fl) buf len (pos fl);
     fs \<leftarrow> file_advance fs f n;
     Some (n, fs) }"

definition file_length :: "'m fs \<Rightarrow> addr \<Rightarrow> (int \<times> 'm fs) option" where
  "file_length fs f = do { fl \<leftarrow> files fs f; inode_length fs (finode fl) }"

definition file_seek :: "'m fs \<Rightarrow> addr \<Rightarrow> int \<Rightarrow> 'm fs option" where
  "file_seek fs f new_pos = do {
     fl \<leftarrow> files fs f;
     assertO (0 \<le> new_pos);
     Some (fs\<lparr>files := (files fs)(f \<mapsto> fl\<lparr>pos := new_pos\<rparr>)\<rparr>) }"

definition file_tell :: "'m fs \<Rightarrow> addr \<Rightarrow> int option" where
  "file_tell fs f = map_option pos (files fs f)"

section \<open>Opening and creating the free map\<close>

abbreviation FREE_MAP_SECTOR :: nat where
  "FREE_MAP_SECTOR \<equiv> 0"

abbreviation ROOT_DIR_SECTOR :: nat where
  "ROOT_DIR_SECTOR \<equiv> 1"

definition free_map_init :: "u32 list option \<Rightarrow> 'm fs \<Rightarrow> 'm fs option" where
  "free_map_init got_bits fs = do {
     let (ok, fs) = fs_malloc fs;
     r \<leftarrow> bitmap_create ok got_bits (block_size (fs_device (cch fs)));
     b \<leftarrow> r;
     b \<leftarrow> bitmap_mark b FREE_MAP_SECTOR;
     b \<leftarrow> bitmap_mark b ROOT_DIR_SECTOR;
     Some (fs\<lparr>free_map := b\<rparr>) }"

definition open_free_map_file :: "'m writer \<Rightarrow> 'm fs \<Rightarrow> 'm fs option" where
  "open_free_map_file wr fs = do {
     (i, fs) \<leftarrow> inode_open fs FREE_MAP_SECTOR;
     (f, fs) \<leftarrow> file_open wr fs i;
     let fs = fs\<lparr>free_map_file := f\<rparr>;
     assertO (f \<noteq> NULL);
     Some fs }"

definition free_map_open :: "'m writer \<Rightarrow> 'm fs \<Rightarrow> 'm fs option" where
  "free_map_open wr fs = do {
     fs \<leftarrow> open_free_map_file wr fs;
     (ok, b, fs) \<leftarrow> bitmap_read fs (free_map fs) (free_map_file fs);
     assertO ok;
     Some (fs\<lparr>free_map := b\<rparr>) }"

definition free_map_close :: "'m writer \<Rightarrow> 'm fs \<Rightarrow> 'm fs option" where
  "free_map_close wr fs = file_close wr fs (free_map_file fs)"

definition free_map_create :: "'m writer \<Rightarrow> 'm fs \<Rightarrow> 'm fs option" where
  "free_map_create wr fs = do {
     (ok, fs) \<leftarrow> inode_create wr fs FREE_MAP_SECTOR (int (bitmap_file_size (free_map fs)));
     assertO ok;
     fs \<leftarrow> open_free_map_file wr fs;
     (ok, fs) \<leftarrow> bitmap_write wr fs (free_map fs) (free_map_file fs);
     assertO ok;
     Some fs }"

end
