(* ===== verification/Inode_Content.thy ===== *)
theory Inode_Content
  imports Inode
begin

text \<open>
  What a file holds. The content of an inode is read off the sectors that the cache shows, through the
  direct and singly indirect pointers; \<^verbatim>\<open>inode_read_at\<close> returns a piece of it and
  \<^verbatim>\<open>inode_write_at\<close> replaces one.
\<close>

section \<open>The on-disk inode\<close>

lemma enc_inode_length: "length (direct d) = DIRECT_CNT \<Longrightarrow> length (enc_inode d) = BLOCK_SECTOR_SIZE"
  by (simp add: enc_inode_def)

lemma u32_s32: "w < 2 ^ 32 \<Longrightarrow> u32_of (s32 (int w)) = w"
  by (auto simp: u32_of_def s32_def Let_def)

definition inode_fits :: "inode_disk \<Rightarrow> bool" where
  "inode_fits d \<longleftrightarrow> length (direct d) = DIRECT_CNT \<and> (\<forall>s\<in>set (direct d). s < 2 ^ 32) \<and> indirect d < 2 ^ 32 \<and>
     doubly_indirect d < 2 ^ 32 \<and> - (2 ^ 31) \<le> ilength d \<and> ilength d < 2 ^ 31 \<and> magic d < 2 ^ 32"

lemma list_128_split:
  assumes "length ws = 128"
  shows "ws = take 124 ws @ [ws ! 124, ws ! 125, ws ! 126, ws ! 127]"
proof -
  have "ws = take 124 ws @ drop 124 ws" by simp
  moreover have "drop 124 ws = [ws ! 124, ws ! 125, ws ! 126, ws ! 127]"
    using assms by (intro nth_equalityI) (auto simp: less_Suc_eq numeral_eq_Suc)
  ultimately show ?thesis by simp
qed

lemma dec_enc_inode:
  assumes "inode_fits d"
  shows "dec_inode (enc_inode d) = d"
proof -
  have "to_words (enc_inode d) = direct d @ [indirect d, doubly_indirect d, u32_of (ilength d), magic d]"
    unfolding enc_inode_def to_words_of_words using assms by (intro map_sz_id) (auto simp: inode_fits_def u32_of_less [simplified])
  moreover have "s32 (int (u32_of (ilength d))) = ilength d"
    using assms by (simp add: s32_u32 s32_id inode_fits_def)
  ultimately show ?thesis using assms by (simp add: dec_inode_def nth_append inode_fits_def)
qed

lemma enc_dec_inode:
  assumes "length bs = BLOCK_SECTOR_SIZE"
  shows "enc_inode (dec_inode bs) = bs"
proof -
  have l: "length (to_words bs) = 128" using assms by simp
  have "to_words bs ! 126 < 2 ^ 32" by (rule to_words_bound [of _ bs]) (use l in simp)
  then have "direct (dec_inode bs) @ [indirect (dec_inode bs), doubly_indirect (dec_inode bs),
      u32_of (ilength (dec_inode bs)), magic (dec_inode bs)] = to_words bs"
    using list_128_split [OF l, symmetric] by (simp add: dec_inode_def Let_def u32_s32)
  then show ?thesis using assms by (simp add: enc_inode_def of_words_to_words)
qed

lemma dec_inode_fits:
  assumes "length bs = BLOCK_SECTOR_SIZE"
  shows "inode_fits (dec_inode bs)"
proof -
  have l: "length (to_words bs) = 128" using assms by simp
  have "to_words bs ! k < 2 ^ 32" if "k < 128" for k by (rule to_words_bound [of _ bs]) (use l that in simp)
  then show ?thesis
    using l s32_bounds [of "int (to_words bs ! 126)"]
    by (auto simp: inode_fits_def dec_inode_def Let_def in_set_conv_nth)
qed

section \<open>Sectors and bytes of a file\<close>

type_synonym disk = "nat \<Rightarrow> sector_data"

definition sector_at :: "disk \<Rightarrow> inode_disk \<Rightarrow> nat \<Rightarrow> nat" where
  "sector_at v d k = (if k < DIRECT_CNT then direct d ! k else to_words (v (indirect d)) ! (k - DIRECT_CNT))"

definition byte_at :: "disk \<Rightarrow> inode_disk \<Rightarrow> nat \<Rightarrow> u8" where
  "byte_at v d p = v (sector_at v d (p div 512)) ! (p mod 512)"

definition content :: "disk \<Rightarrow> inode_disk \<Rightarrow> u8 list" where
  "content v d = map (byte_at v d) [0..<nat (ilength d)]"

definition data_cnt :: "inode_disk \<Rightarrow> nat" where
  "data_cnt d = nat (sectors_for (ilength d))"

definition data_sectors :: "disk \<Rightarrow> inode_disk \<Rightarrow> nat list" where
  "data_sectors v d = map (sector_at v d) [0..<data_cnt d]"

text \<open>An inode whose data fits the direct and singly indirect pointers, all of them valid sectors.\<close>

definition inode_ok :: "nat \<Rightarrow> disk \<Rightarrow> inode_disk \<Rightarrow> bool" where
  "inode_ok n v d \<longleftrightarrow> inode_fits d \<and> 0 \<le> ilength d \<and> data_cnt d \<le> DIRECT_CNT + INDIRECT_CNT \<and>
     (DIRECT_CNT < data_cnt d \<longrightarrow> indirect d < n) \<and> (\<forall>s\<in>set (data_sectors v d). s < n)"

lemma sectors_for_eq:
  assumes "0 \<le> len"
  shows "sectors_for len = (len + 511) div 512"
proof -
  define q r where "q = len div 512" and "r = len mod 512"
  have len: "len = q * 512 + r" and r: "0 \<le> r" "r < 512" by (simp_all add: q_def r_def)
  have "(len + 511) div 512 = q + (r + 511) div 512" unfolding len by (simp add: add.assoc)
  also have "(r + 511) div 512 = (if 0 < r then 1 else 0)" using r by (cases "0 < r") simp_all
  finally show ?thesis using assms r by (simp add: sectors_for_def Let_def len [symmetric] flip: q_def) (simp add: len)
qed

lemma data_cnt_iff: "0 \<le> ilength d \<Longrightarrow> k < data_cnt d \<longleftrightarrow> int k * 512 < ilength d"
  unfolding data_cnt_def by (simp add: sectors_for_eq zless_nat_eq_int_zless) linarith

lemma div_data_cnt: "0 \<le> ilength d \<Longrightarrow> int p < ilength d \<Longrightarrow> p div 512 < data_cnt d"
  by (simp add: data_cnt_iff)

lemma content_length [simp]: "length (content v d) = nat (ilength d)"
  by (simp add: content_def)

lemma content_nth [simp]: "p < nat (ilength d) \<Longrightarrow> content v d ! p = byte_at v d p"
  by (simp add: content_def)

lemma div_within:
  assumes "ofs mod 512 + j < 512"
  shows "(ofs + j) div 512 = ofs div (512 :: nat)"
proof -
  have "ofs + j = 512 * (ofs div 512) + (ofs mod 512 + j)" by simp
  also have "\<dots> div 512 = ofs div 512" using assms by (simp only: div_mult_self4)
  finally show ?thesis .
qed

lemma mod_within: "ofs mod 512 + j < 512 \<Longrightarrow> (ofs + j) mod 512 = ofs mod 512 + j" for ofs j :: nat
  by (metis mod_add_left_eq mod_less)

text \<open>A piece of the content that lies within one sector is a piece of that sector.\<close>

lemma content_piece:
  assumes "ofs + k \<le> nat (ilength d)" "ofs mod 512 + k \<le> 512" "length (v (sector_at v d (ofs div 512))) = 512"
  shows "take k (drop (ofs mod 512) (v (sector_at v d (ofs div 512)))) = take k (drop ofs (content v d))"
proof (rule nth_equalityI)
  fix j assume "j < length (take k (drop (ofs mod 512) (v (sector_at v d (ofs div 512)))))"
  then have j: "j < k" "ofs mod 512 + j < 512" using assms by simp_all
  then show "take k (drop (ofs mod 512) (v (sector_at v d (ofs div 512)))) ! j = take k (drop ofs (content v d)) ! j"
    using assms div_within [OF j(2)] mod_within [OF j(2)] by (simp add: byte_at_def)
qed (use assms in simp)

end
