(* ===== verification/Inode_Read.thy ===== *)
theory Inode_Read
  imports Inode_Content
begin

text \<open>
  Reading a file over a lawful device: \<^verbatim>\<open>inode_read_at\<close> returns the requested piece of the file's
  content, and leaves everything but the cache as it was.
\<close>

declare read_loop.simps [simp del] write_loop.simps [simp del]

section \<open>Steps that only read\<close>

lemma alloc_ok_cache_write: "cache_write c a d = Some c' \<Longrightarrow> alloc_ok c' = alloc_ok c"
  by (auto simp: cache_write_def Let_def monad_simps split: prod.splits option.splits if_splits)

lemma alloc_ok_cache_read: "cache_read c a = Some (b, d, c') \<Longrightarrow> alloc_ok c' = alloc_ok c"
  by (auto simp: cache_read_def Let_def monad_simps split: prod.splits option.splits if_splits dest!: alloc_ok_cache_write)

definition mem_ok :: "'m fs \<Rightarrow> bool" where
  "mem_ok fs \<longleftrightarrow> (\<forall>k. alloc_ok (cch fs) k)"

text \<open>A change of the cached device only, after which the sectors are those of \<open>v\<close>.\<close>

definition now_holds :: "('m \<Rightarrow> bool) \<Rightarrow> ('m \<Rightarrow> nat \<Rightarrow> sector_data) \<Rightarrow> nat \<Rightarrow> 'm block_operations \<Rightarrow> 'm fs \<Rightarrow> disk \<Rightarrow> 'm fs \<Rightarrow> bool" where
  "now_holds good view n os fs v fs' \<longleftrightarrow> fs' = fs\<lparr>cch := cch fs'\<rparr> \<and> cache_good good n os (cch fs') \<and>
     cache_view view (cch fs') = v \<and> alloc_ok (cch fs') = alloc_ok (cch fs)"

lemma now_holds_trans: "now_holds good view n os fs v fs1 \<Longrightarrow> now_holds good view n os fs1 w fs2 \<Longrightarrow> now_holds good view n os fs w fs2"
  by (cases fs; cases fs1; cases fs2) (simp add: now_holds_def)

lemma now_holdsD:
  assumes "now_holds good view n os fs v fs'"
  shows "cache_good good n os (cch fs')" "cache_view view (cch fs') = v" "inodes fs' = inodes fs" "files fs' = files fs"
    "open_inodes fs' = open_inodes fs" "free_map fs' = free_map fs" "free_map_file fs' = free_map_file fs"
    "mem_ok fs' = mem_ok fs" "junk fs' = junk fs" "next_obj fs' = next_obj fs"
  using assms by (cases fs; cases fs'; simp add: now_holds_def mem_ok_def)+

text \<open>The in-memory inode \<open>i\<close> is that of the inode in sector \<open>sec\<close>.\<close>

definition opened :: "nat \<Rightarrow> 'm fs \<Rightarrow> addr \<Rightarrow> nat \<Rightarrow> bool" where
  "opened N fs i sec \<longleftrightarrow> map_option isector (inodes fs i) = Some sec \<and> sec < N"

context cache_over
begin

abbreviation holds :: "'m fs \<Rightarrow> disk \<Rightarrow> 'm fs \<Rightarrow> bool" where
  "holds \<equiv> now_holds good view n os"

abbreviation disk_of :: "'m fs \<Rightarrow> disk" where
  "disk_of fs \<equiv> cache_view view (cch fs)"

lemma holds_refl: "cache_good good n os (cch fs) \<Longrightarrow> holds fs (disk_of fs) fs"
  by (cases fs) (simp add: now_holds_def)

lemma fs_read_ok:
  assumes "cache_good good n os (cch fs)" "a < n"
  shows "\<exists>fs'. fs_read fs a = Some (disk_of fs a, fs') \<and> holds fs (disk_of fs) fs'"
proof -
  obtain b c where "cache_read (cch fs) a = Some (b, disk_of fs a, c)" "cache_good good n os c" "cache_view view c = disk_of fs"
    using cache_read_view [OF assms] by auto
  moreover from this(1) have "alloc_ok c = alloc_ok (cch fs)" by (rule alloc_ok_cache_read)
  ultimately show ?thesis by (simp add: fs_read_def now_holds_def)
qed

lemma fs_write_ok:
  assumes "cache_good good n os (cch fs)" "a < n" "length d = BLOCK_SECTOR_SIZE"
  shows "\<exists>fs'. fs_write fs a d = Some fs' \<and> holds fs ((disk_of fs)(a := d)) fs'"
proof -
  obtain c where "cache_write (cch fs) a d = Some c" "cache_good good n os c" "cache_view view c = (disk_of fs)(a := d)"
    using cache_write_view [OF assms] by auto
  moreover from this(1) have "alloc_ok c = alloc_ok (cch fs)" by (rule alloc_ok_cache_write)
  ultimately show ?thesis by (simp add: fs_write_def now_holds_def del: fun_upd_apply)
qed

lemma fs_malloc_ok:
  assumes "cache_good good n os (cch fs)" "mem_ok fs"
  shows "\<exists>fs'. fs_malloc fs = (True, fs') \<and> holds fs (disk_of fs) fs'"
  using assms malloc_keeps [of "cch fs"]
  by (auto simp: fs_malloc_def malloc_def now_holds_def mem_ok_def)

lemma read_sector_ok:
  assumes g: "cache_good good n os (cch fs)" "mem_ok fs" and a: "a < n" and k: "k < 128"
  shows "\<exists>fs'. read_sector fs a (int k) = Some (to_words (disk_of fs a) ! k, fs') \<and> holds fs (disk_of fs) fs'"
proof -
  obtain f1 where f1: "fs_malloc fs = (True, f1)" "holds fs (disk_of fs) f1" using fs_malloc_ok [OF g] by auto
  note d1 = now_holdsD [OF f1(2)]
  obtain f2 where f2: "fs_read f1 a = Some (disk_of fs a, f2)" "holds f1 (disk_of fs) f2"
    using fs_read_ok [OF d1(1) a] d1(2) by auto
  have "length (disk_of fs a) = 512" using cache_view_length [OF g(1) a] .
  then show ?thesis using f1 f2 k now_holds_trans [OF f1(2) f2(2)] by (simp add: read_sector_def int_get_def)
qed

lemma inode_length_ok:
  assumes g: "cache_good good n os (cch fs)" and i: "opened n fs i sec"
  shows "\<exists>fs'. inode_length fs i = Some (ilength (dec_inode (disk_of fs sec)), fs') \<and> holds fs (disk_of fs) fs'"
  using fs_read_ok [OF g, of sec] i by (auto simp: inode_length_def opened_def)

lemma byte_to_sector_ok:
  assumes g: "cache_good good n os (cch fs)" "mem_ok fs" and i: "opened n fs i sec"
    and d: "d = dec_inode (disk_of fs sec)" "inode_ok n (disk_of fs) d" and p: "int p < ilength d"
  shows "\<exists>fs'. byte_to_sector fs i (int p) = Some (sector_at (disk_of fs) d (p div 512), fs') \<and> holds fs (disk_of fs) fs'"
proof -
  obtain nd where nd: "inodes fs i = Some nd" "isector nd = sec" "sec < n" using i by (auto simp: opened_def)
  obtain f1 where f1: "fs_read fs sec = Some (disk_of fs sec, f1)" "holds fs (disk_of fs) f1" using fs_read_ok [OF g(1) nd(3)] by auto
  note h1 = now_holdsD [OF f1(2)]
  have k: "p div 512 < data_cnt d" using div_data_cnt [of d p] d(2) p by (simp add: inode_ok_def)
  have c: "cdiv (int p) 512 = int (p div 512)" by (simp add: zdiv_int)
  show ?thesis
  proof (cases "p div 512 < 124")
    case True
    moreover have "length (direct d) = 124" using d(2) by (simp add: inode_ok_def inode_fits_def)
    ultimately have "int_get (direct d) (cdiv (int p) 512) = Some (sector_at (disk_of fs) d (p div 512))"
      by (simp add: c int_get_def sector_at_def)
    moreover have "p < 124 * 512" using True by (simp add: div_less_iff_less_mult)
    ultimately show ?thesis using nd f1 p by (simp add: byte_to_sector_def flip: d(1))
  next
    case False
    have k': "p div 512 < 252" "indirect d < n" using k d(2) False by (auto simp: inode_ok_def)
    have ge: "124 * 512 \<le> p" using False by (simp add: div_less_iff_less_mult not_less)
    have le: "p < 252 * 512" using k'(1) by (simp add: div_less_iff_less_mult)
    have o: "cdiv (int p) 512 - 124 = int (p div 512 - 124)" using False by (simp add: c)
    have "p div 512 - 124 < 128" using k'(1) False by linarith
    then obtain f2 where f2: "read_sector f1 (indirect d) (int (p div 512 - 124)) = Some (to_words (disk_of fs (indirect d)) ! (p div 512 - 124), f2)"
      "holds f1 (disk_of fs) f2"
      using read_sector_ok [OF h1(1) _ k'(2), of "p div 512 - 124"] h1 g(2) k'(1) by auto
    have "\<not> int p < 124 * 512" "int p < (124 + 128) * 512" using ge le by auto
    then show ?thesis using nd f1 f2 p False now_holds_trans [OF f1(2) f2(2)] o
      by (simp add: byte_to_sector_def sector_at_def flip: d(1))
  qed
qed

lemma byte_to_sector_end:
  assumes g: "cache_good good n os (cch fs)" and i: "opened n fs i sec" and p: "ilength (dec_inode (disk_of fs sec)) \<le> p"
  shows "\<exists>fs'. byte_to_sector fs i p = Some (NO_SECTOR, fs') \<and> holds fs (disk_of fs) fs'"
  using fs_read_ok [OF g, of sec] i p by (auto simp: byte_to_sector_def opened_def)

end

lemma chunk_eq:
  assumes "0 \<le> ilen"
  shows "chunk ilen (int p) (int l) = (if int p < ilen then int (min l (min (nat ilen - p) (512 - p mod 512))) else chunk ilen (int p) (int l))"
    "ilen \<le> int p \<Longrightarrow> chunk ilen (int p) (int l) \<le> 0"
proof -
  have m: "cmod (int p) 512 = int (p mod 512)" "p mod 512 < 512" by (simp_all add: zmod_int)
  then show "chunk ilen (int p) (int l) = (if int p < ilen then int (min l (min (nat ilen - p) (512 - p mod 512))) else chunk ilen (int p) (int l))"
    by (auto simp: chunk_def Let_def)
  show "ilen \<le> int p \<Longrightarrow> chunk ilen (int p) (int l) \<le> 0" using m by (auto simp: chunk_def Let_def)
qed

lemma chunk_bounds:
  assumes "int p < ilen"
  shows "0 < l \<Longrightarrow> 0 < min l (min (nat ilen - p) (512 - p mod 512))" "p + min l (min (nat ilen - p) (512 - p mod 512)) \<le> nat ilen"
    "p mod 512 + min l (min (nat ilen - p) (512 - p mod 512)) \<le> 512"
proof -
  have "p mod 512 < 512" by simp
  then show "0 < l \<Longrightarrow> 0 < min l (min (nat ilen - p) (512 - p mod 512))" "p mod 512 + min l (min (nat ilen - p) (512 - p mod 512)) \<le> 512"
    using assms by (simp, linarith)
  show "p + min l (min (nat ilen - p) (512 - p mod 512)) \<le> nat ilen" using assms by auto
qed

lemma read_loop_step:
  assumes "0 < l" "byte_to_sector fs i (int p) = Some (s, f1)" "inode_length f1 i = Some (ilen, f2)"
    "chunk ilen (int p) (int l) = int k" "0 < k" "k \<le> l"
    "(if p mod 512 = 0 \<and> k = 512
      then do { (x, fs) \<leftarrow> fs_read f2 s; buf \<leftarrow> put_bytes buf (int b) x; Some (buf, fs) }
      else do { (r, c) \<leftarrow> cache_read_bytes (cch f2) s (p mod 512) k;
        buf \<leftarrow> (case r of None \<Rightarrow> Some buf | Some bs \<Rightarrow> put_bytes buf (int b) bs);
        Some (buf, f2\<lparr>cch := c\<rparr>) }) = Some (buf', f3)"
  shows "read_loop fs i buf (int l) (int p) (int b) = read_loop f3 i buf' (int (l - k)) (int (p + k)) (int (b + k))"
proof -
  have m: "(int p mod 512 = 0) = (p mod 512 = 0)" "nat (int p mod 512) = p mod 512" "0 \<le> int p mod 512"
    by presburger (simp_all add: nat_mod_distrib)
  have "read_loop fs i buf (int l) (int p) (int b) = read_loop f3 i buf' (int l - int k) (int p + int k) (int b + int k)"
    using assms(1-5,7) by (subst read_loop.simps) (auto simp: m Let_def simp del: Option.bind_assoc split: if_splits)
  then show ?thesis using assms(6) by (simp add: of_nat_diff)
qed

context cache_over
begin

text \<open>One round of the loop of \<^verbatim>\<open>inode_read_at\<close>: the piece of the content in the current sector.\<close>

lemma read_chunk_ok:
  assumes g: "cache_good good n os (cch fs)" "mem_ok fs" and d: "inode_ok n (disk_of fs) d"
    and p: "0 < k" "p + k \<le> nat (ilength d)" "p mod 512 + k \<le> 512" and b: "b + k \<le> length buf"
    and s: "s = sector_at (disk_of fs) d (p div 512)"
  shows "\<exists>fs'. (if p mod 512 = 0 \<and> k = 512 then do { (x, fs) \<leftarrow> fs_read fs s; buf \<leftarrow> put_bytes buf (int b) x; Some (buf, fs) }
      else do { (r, c) \<leftarrow> cache_read_bytes (cch fs) s (p mod 512) k;
        buf \<leftarrow> (case r of None \<Rightarrow> Some buf | Some bs \<Rightarrow> put_bytes buf (int b) bs);
        Some (buf, fs\<lparr>cch := c\<rparr>) }) =
    Some (splice_bytes buf b (take k (drop p (content (disk_of fs) d))), fs') \<and> holds fs (disk_of fs) fs'"
proof -
  have "p div 512 < data_cnt d" using div_data_cnt [of d p] d p(1,2) by (simp add: inode_ok_def)
  then have sn: "s < n" using d by (simp add: s inode_ok_def data_sectors_def)
  have l: "length (disk_of fs s) = 512" using cache_view_length [OF g(1) sn] .
  have c: "take k (drop (p mod 512) (disk_of fs s)) = take k (drop p (content (disk_of fs) d))"
    unfolding s by (rule content_piece) (use p l s in auto)
  have lc: "length (take k (drop p (content (disk_of fs) d))) = k" using p(2) by simp
  show ?thesis
  proof (cases "p mod 512 = 0 \<and> k = 512")
    case True
    obtain f1 where "fs_read fs s = Some (disk_of fs s, f1)" "holds fs (disk_of fs) f1" using fs_read_ok [OF g(1) sn] by auto
    moreover have "disk_of fs s = take k (drop p (content (disk_of fs) d))" using c l True by simp
    ultimately show ?thesis using True b lc by (simp add: put_bytes_def)
  next
    case False
    have "p mod 512 + k \<le> BLOCK_SECTOR_SIZE" using p(3) by simp
    from cache_read_bytes_view [OF g(1) sn this] obtain r c' where r: "cache_read_bytes (cch fs) s (p mod 512) k = Some (r, c')"
      "cache_good good n os c'" "cache_view view c' = disk_of fs"
      "r = Some (take k (drop (p mod 512) (disk_of fs s))) \<or> r = None \<and> \<not> alloc_ok (cch fs) (allocs (cch fs)) \<and> \<not> alloc_ok (cch fs) (allocs (cch fs) + 1)"
      by blast
    then have rs: "r = Some (take k (drop p (content (disk_of fs) d)))" using g(2) c by (auto simp: mem_ok_def)
    have "alloc_ok c' = alloc_ok (cch fs)"
      using r(1) by (auto simp: cache_read_bytes_def malloc_def Let_def monad_simps split: if_splits dest!: alloc_ok_cache_read)
    then show ?thesis unfolding if_not_P [OF False] using r b rs lc by (simp add: put_bytes_def now_holds_def)
  qed
qed

lemma read_loop_ok:
  assumes "cache_good good n os (cch fs)" "mem_ok fs" "opened n fs i sec"
    "d = dec_inode (disk_of fs sec)" "inode_ok n (disk_of fs) d" "b + l \<le> length buf"
  shows "\<exists>fs'. read_loop fs i buf (int l) (int p) (int b) =
      Some (int (b + length (take l (drop p (content (disk_of fs) d)))), splice_bytes buf b (take l (drop p (content (disk_of fs) d))), fs') \<and>
    holds fs (disk_of fs) fs'"
  using assms
proof (induction l arbitrary: fs buf p b rule: less_induct)
  case (less l)
  note g = less.prems(1,2) and i = less.prems(3) and d = less.prems(4,5)
  let ?C = "content (disk_of fs) d"
  have L: "0 \<le> ilength d" using d(2) by (simp add: inode_ok_def)
  show ?case
  proof (cases "l = 0")
    case True
    then show ?thesis using holds_refl [OF g(1)] by (auto simp: read_loop.simps)
  next
    case l0: False
    show ?thesis
    proof (cases "int p < ilength d")
      case False
      obtain f1 where f1: "byte_to_sector fs i (int p) = Some (NO_SECTOR, f1)" "holds fs (disk_of fs) f1"
        using byte_to_sector_end [OF g(1) i, of "int p"] d(1) False by auto
      note h1 = now_holdsD [OF f1(2)]
      have "opened n f1 i sec" using i h1(3) by (simp add: opened_def)
      then obtain f2 where f2: "inode_length f1 i = Some (ilength d, f2)" "holds f1 (disk_of fs) f2"
        using inode_length_ok [OF h1(1)] h1(2) d(1) by auto
      have "chunk (ilength d) (int p) (int l) \<le> 0" using chunk_eq(2) [OF L] False by simp
      moreover have "?C = take p ?C" using False L by simp
      then have "drop p ?C = []" using False L by simp
      ultimately show ?thesis using f1 f2 l0 now_holds_trans [OF f1(2) f2(2)] by (simp add: read_loop.simps [of fs])
    next
      case True
      define k where "k = min l (min (nat (ilength d) - p) (512 - p mod 512))"
      have k: "0 < k" "p + k \<le> nat (ilength d)" "p mod 512 + k \<le> 512" "k \<le> l"
        unfolding k_def using chunk_bounds [OF True] l0 by (blast intro: min.cobounded1 neq0_conv [THEN iffD1])+
      have ch: "chunk (ilength d) (int p) (int l) = int k" using chunk_eq(1) [OF L, of p l] True by (simp add: k_def)
      obtain f1 where f1: "byte_to_sector fs i (int p) = Some (sector_at (disk_of fs) d (p div 512), f1)" "holds fs (disk_of fs) f1"
        using byte_to_sector_ok [OF g i d True] by blast
      note h1 = now_holdsD [OF f1(2)]
      have "opened n f1 i sec" using i h1(3) by (simp add: opened_def)
      then obtain f2 where f2: "inode_length f1 i = Some (ilength d, f2)" "holds f1 (disk_of fs) f2"
        using inode_length_ok [OF h1(1)] h1(2) d(1) by auto
      note h2 = now_holdsD [OF f2(2)]
      have "disk_of f2 = disk_of fs" "mem_ok f2" using h1 h2 g(2) by auto
      then obtain f3 where f3: "(if p mod 512 = 0 \<and> k = 512
          then do { (x, fs) \<leftarrow> fs_read f2 (sector_at (disk_of fs) d (p div 512)); buf \<leftarrow> put_bytes buf (int b) x; Some (buf, fs) }
          else do { (r, c) \<leftarrow> cache_read_bytes (cch f2) (sector_at (disk_of fs) d (p div 512)) (p mod 512) k;
            buf \<leftarrow> (case r of None \<Rightarrow> Some buf | Some bs \<Rightarrow> put_bytes buf (int b) bs);
            Some (buf, f2\<lparr>cch := c\<rparr>) }) = Some (splice_bytes buf b (take k (drop p ?C)), f3)" "holds f2 (disk_of fs) f3"
        using read_chunk_ok [OF h2(1), of d k p b buf] d(2) k less.prems(6) by auto
      note h3 = now_holdsD [OF f3(2)]
      note loop = read_loop_step [OF _ f1(1) f2(1) ch k(1,4) f3(1)]
      have "opened n f3 i sec" "mem_ok f3" using i h1 h2 h3 g(2) by (simp_all add: opened_def)
      then obtain f4 where f4: "read_loop f3 i (splice_bytes buf b (take k (drop p ?C))) (int (l - k)) (int (p + k)) (int (b + k)) =
          Some (int (b + k + length (take (l - k) (drop (p + k) ?C))),
            splice_bytes (splice_bytes buf b (take k (drop p ?C))) (b + k) (take (l - k) (drop (p + k) ?C)), f4)" "holds f3 (disk_of fs) f4"
        using less.IH [of "l - k" f3 "b + k" "splice_bytes buf b (take k (drop p ?C))" "p + k"] h3(1,2) d k less.prems(6) by auto
      have lk: "length (take k (drop p ?C)) = k" using k(2) by simp
      have "splice_bytes (splice_bytes buf b (take k (drop p ?C))) (b + k) (take (l - k) (drop (p + k) ?C)) =
          splice_bytes buf b (take l (drop p ?C))"
        using splice_splice [of b "take k (drop p ?C)" "take (l - k) (drop (p + k) ?C)" buf] lk less.prems(6) k(4)
          take_split [OF k(4), of p ?C] by simp
      moreover have "k + length (take (l - k) (drop (p + k) ?C)) = length (take l (drop p ?C))"
        using arg_cong [OF take_split [OF k(4), of p ?C], of length] lk by simp
      ultimately show ?thesis
        using loop f4 l0 now_holds_trans [OF now_holds_trans [OF now_holds_trans [OF f1(2) f2(2)] f3(2)] f4(2)] by (simp add: add.assoc)
    qed
  qed
qed

lemma inode_read_at_ok:
  assumes g: "cache_good good n os (cch fs)" "mem_ok fs" and i: "opened n fs i sec" "sec \<le> 20000000"
    and d: "d = dec_inode (disk_of fs sec)" "inode_ok n (disk_of fs) d" and l: "int p < ilength d" "l \<le> length buf"
  shows "\<exists>fs'. inode_read_at fs i buf (int l) (int p) = Some (int (length (take l (drop p (content (disk_of fs) d)))),
      splice_bytes buf 0 (take l (drop p (content (disk_of fs) d))), fs') \<and> holds fs (disk_of fs) fs'"
proof -
  obtain nd where nd: "inodes fs i = Some nd" "isector nd = sec" "sec < n" using i(1) by (auto simp: opened_def)
  obtain f1 where f1: "fs_read fs sec = Some (disk_of fs sec, f1)" "holds fs (disk_of fs) f1" using fs_read_ok [OF g(1) nd(3)] by auto
  note h1 = now_holdsD [OF f1(2)]
  have "opened n f1 i sec" "mem_ok f1" using i(1) h1 g(2) by (simp_all add: opened_def)
  then obtain f2 where f2: "read_loop f1 i buf (int l) (int p) (int 0) = Some (int (0 + length (take l (drop p (content (disk_of f1) d)))),
      splice_bytes buf 0 (take l (drop p (content (disk_of f1) d))), f2)" "holds f1 (disk_of f1) f2"
    using read_loop_ok [OF h1(1), of i sec d 0 l buf p] d l(2) h1(2) by auto
  have "\<not> ilength (dec_inode (disk_of fs sec)) \<le> int p" using l(1) d(1) by simp
  then show ?thesis using nd i(2) f1(1) f2 h1(2) now_holds_trans [OF f1(2) f2(2)] by (simp add: inode_read_at_def)
qed

lemma inode_read_at_end_ok:
  assumes g: "cache_good good n os (cch fs)" and i: "opened n fs i sec" "sec \<le> 20000000"
    and l: "ilength (dec_inode (disk_of fs sec)) \<le> p" "l \<le> length buf"
  shows "512 < l \<Longrightarrow> inode_read_at fs i buf (int l) p = None"
    "l \<le> 512 \<Longrightarrow> \<exists>fs'. inode_read_at fs i buf (int l) p = Some (0, replicate l 0 @ drop l buf, fs') \<and> holds fs (disk_of fs) fs'"
proof -
  obtain nd where nd: "inodes fs i = Some nd" "isector nd = sec" "sec < n" using i(1) by (auto simp: opened_def)
  obtain f1 where f1: "fs_read fs sec = Some (disk_of fs sec, f1)" "holds fs (disk_of fs) f1" using fs_read_ok [OF g nd(3)] by auto
  note h1 = now_holdsD [OF f1(2)]
  show "512 < l \<Longrightarrow> inode_read_at fs i buf (int l) p = None"
    using nd i(2) f1 l by (simp add: inode_read_at_def)
  assume l512: "l \<le> 512"
  have i1: "opened n f1 i sec" using i(1) h1 by (simp add: opened_def)
  obtain f2 where f2: "byte_to_sector f1 i p = Some (NO_SECTOR, f2)" "holds f1 (disk_of fs) f2"
    using byte_to_sector_end [OF h1(1) i1, of p] l(1) h1(2) by auto
  note h2 = now_holdsD [OF f2(2)]
  have i2: "opened n f2 i sec" using i1 h2 by (simp add: opened_def)
  obtain f3 where f3: "inode_length f2 i = Some (ilength (dec_inode (disk_of fs sec)), f3)" "holds f2 (disk_of fs) f3"
    using inode_length_ok [OF h2(1) i2] h2(2) by auto
  have c: "chunk (ilength (dec_inode (disk_of fs sec))) p (int l) \<le> 0" using l(1) by (simp add: chunk_def Let_def)
  have "\<exists>f4. read_loop f1 i b' (int l) p 0 = Some (0, b', f4) \<and> holds f1 (disk_of fs) f4" for b'
    using f2 f3 c now_holds_trans [OF f2(2) f3(2)] holds_refl [OF h1(1)] h1(2)
    by (cases "l = 0") (simp_all add: read_loop.simps [of f1])
  then obtain f4 where f4: "read_loop f1 i (splice_bytes buf 0 (replicate l 0)) (int l) p 0 = Some (0, splice_bytes buf 0 (replicate l 0), f4)"
    "holds f1 (disk_of fs) f4" by blast
  have "splice_bytes buf 0 (replicate l 0) = replicate l 0 @ drop l buf" by (simp add: splice_bytes_def)
  then show "\<exists>fs'. inode_read_at fs i buf (int l) p = Some (0, replicate l 0 @ drop l buf, fs') \<and> holds fs (disk_of fs) fs'"
    using nd i(2) f1(1) f4 l l512 now_holds_trans [OF f1(2) f4(2)] by (simp add: inode_read_at_def put_bytes_def)
qed

end

section \<open>A sample file system\<close>

definition sample_inode :: inode_disk where
  "sample_inode = \<lparr>direct = 10 # 11 # replicate 122 0, indirect = 0, doubly_indirect = 0, ilength = 700, magic = INODE_MAGIC\<rparr>"

definition sample_sectors :: "sector_data list" where
  "sample_sectors = (replicate 40 zeros)[3 := enc_inode sample_inode, 10 := replicate 512 7, 11 := replicate 512 8]"

definition sample_fs :: "sector_data list fs" where
  "sample_fs = \<lparr>cch = fresh_cache (block_register BLOCK_FILESYS 40 (ram_ops 40) sample_sectors) (\<lambda>_. True),
     inodes = [5 \<mapsto> \<lparr>isector = 3, open_cnt = 1, removed = False, deny_write_cnt = 0\<rparr>], open_inodes = [5],
     files = Map.empty, next_obj = 6, free_map = \<lparr>bit_cnt = 40, bits = [0, 0]\<rparr>, free_map_file = NULL,
     junk = \<lambda>_. 0, stack_at = 0, zeros_at = 0\<rparr>"

abbreviation sample_view :: disk where
  "sample_view \<equiv> cache_view ram_view (cch sample_fs)"

lemma sample_good: "cache_good (ram_good 40) 40 (ram_ops 40) (cch sample_fs)"
  "sample_view = ram_view sample_sectors"
proof -
  have "block_good (ram_good 40) 40 (ram_ops 40) (block_register BLOCK_FILESYS 40 (ram_ops 40) sample_sectors)"
    using enc_inode_length [of sample_inode]
    by (auto simp: block_good_def ram_good_def block_register_def sample_sectors_def list_all_iff sample_inode_def
      dest!: set_update_subset_insert [THEN subsetD])
  from ram_cache.fresh_cache_good [OF this]
  show "cache_good (ram_good 40) 40 (ram_ops 40) (cch sample_fs)" "sample_view = ram_view sample_sectors"
    by (simp_all add: sample_fs_def block_view_def block_register_def)
qed

lemma sample_opened: "opened 40 sample_fs 5 3" "mem_ok sample_fs"
  by (simp_all add: opened_def sample_fs_def mem_ok_def)

lemma sample_fits: "inode_fits sample_inode"
  by (auto simp: inode_fits_def sample_inode_def INODE_MAGIC_def)

lemma sample_dec: "dec_inode (sample_view 3) = sample_inode"
  using dec_enc_inode [OF sample_fits] by (simp add: sample_good(2) ram_view_def sample_sectors_def)

lemma sample_data: "data_cnt sample_inode = 2" "data_sectors v sample_inode = [10, 11]"
proof -
  show "data_cnt sample_inode = 2" by (simp add: data_cnt_def sectors_for_eq sample_inode_def)
  then show "data_sectors v sample_inode = [10, 11]"
    by (simp add: data_sectors_def sector_at_def upt_rec) (simp add: sample_inode_def)
qed

lemma sample_ok: "inode_ok 40 v sample_inode"
  using sample_fits by (simp add: inode_ok_def sample_data) (simp add: sample_inode_def)

section \<open>Properties\<close>

text \<open>C3: reading a file. Over every driver that stores sectors, \<^verbatim>\<open>inode_read_at\<close> from a position inside
  a file whose data lies under the direct and singly indirect pointers returns, copies exactly the
  requested piece of the file's content (up to its end) to the front of the buffer, reports its length,
  and leaves the rest of the buffer and everything in the file system but the cache unchanged.\<close>

theorem inode_read_at_content:
  assumes "sector_store good view n (op_read os) (op_write os)" and "cache_good good n os (cch fs)" and "mem_ok fs"
    and "opened n fs i sec" and "sec \<le> 20000000" and "inode_ok n v d"
    and "v = cache_view view (cch fs)" and "d = dec_inode (v sec)" and "int p < ilength d" and "l \<le> length buf"
  shows "\<exists>fs'. inode_read_at fs i buf (int l) (int p) =
      Some (int (min l (nat (ilength d) - p)), splice_bytes buf 0 (take l (drop p (content v d))), fs') \<and>
    now_holds good view n os fs v fs'"
proof -
  have "length (take l (drop p (content v d))) = min l (nat (ilength d) - p)" by simp
  then show ?thesis
    using cache_over.inode_read_at_ok [OF cache_overI [OF assms(1)] assms(2-5), of d p l buf] assms(6-10) by metis
qed

theorem inode_read_at_content_witness:
  "\<exists>fs'. inode_read_at sample_fs 5 (replicate 300 0) (int 300) (int 500) =
      Some (int (min 300 (nat (ilength sample_inode) - 500)),
        splice_bytes (replicate 300 0) 0 (take 300 (drop 500 (content sample_view sample_inode))), fs') \<and>
    now_holds (ram_good 40) ram_view 40 (ram_ops 40) sample_fs sample_view fs'"
  by (rule inode_read_at_content [OF ram.sector_store_axioms sample_good(1) sample_opened(2,1) _ sample_ok refl sample_dec [symmetric]])
    (simp_all add: sample_inode_def)



end
