(* ===== verification/Inode_Write.thy ===== *)
theory Inode_Write
  imports Inode_Read
begin

text \<open>
  Writing a file in place over a lawful device: \<^verbatim>\<open>inode_write_at\<close> of a piece that needs no new sector
  replaces that piece of the file's content and touches no sector but the file's own.
\<close>

section \<open>Files whose sectors do not overlap\<close>

definition meta_sectors :: "nat \<Rightarrow> inode_disk \<Rightarrow> nat list" where
  "meta_sectors sec d = sec # (if DIRECT_CNT < data_cnt d then [indirect d] else [])"

definition file_at :: "nat \<Rightarrow> disk \<Rightarrow> nat \<Rightarrow> inode_disk \<Rightarrow> bool" where
  "file_at n v sec d \<longleftrightarrow> inode_ok n v d \<and> dec_inode (v sec) = d \<and> sec < n \<and> (\<forall>a<n. length (v a) = BLOCK_SECTOR_SIZE) \<and>
     distinct (meta_sectors sec d @ data_sectors v d)"

definition file_sectors :: "disk \<Rightarrow> nat \<Rightarrow> inode_disk \<Rightarrow> nat set" where
  "file_sectors v sec d = set (meta_sectors sec d @ data_sectors v d)"

lemma file_atD:
  assumes "file_at n v sec d"
  shows "inode_ok n v d" "dec_inode (v sec) = d" "sec < n" "a < n \<Longrightarrow> length (v a) = 512" "distinct (data_sectors v d)"
    "set (meta_sectors sec d) \<inter> set (data_sectors v d) = {}" "0 \<le> ilength d" "inode_fits d"
  using assms by (auto simp: file_at_def inode_ok_def)

lemma sector_at_data: "k < data_cnt d \<Longrightarrow> sector_at v d k \<in> set (data_sectors v d)"
  by (simp add: data_sectors_def)

lemma sector_at_inj:
  assumes "file_at n v sec d" "k < data_cnt d" "j < data_cnt d"
  shows "sector_at v d k = sector_at v d j \<longleftrightarrow> k = j"
  using nth_eq_iff_index_eq [OF file_atD(5) [OF assms(1)], of k j] assms(2,3) by (simp add: data_sectors_def)

text \<open>Sectors other than the table of pointers may change without moving the data.\<close>

lemma sector_at_cong:
  assumes "DIRECT_CNT < data_cnt d \<Longrightarrow> v' (indirect d) = v (indirect d)" "k < data_cnt d"
  shows "sector_at v' d k = sector_at v d k"
  using assms by (auto simp: sector_at_def)

lemma data_sectors_cong:
  assumes "DIRECT_CNT < data_cnt d \<Longrightarrow> v' (indirect d) = v (indirect d)"
  shows "data_sectors v' d = data_sectors v d"
  using sector_at_cong [of d v' v] assms by (simp add: data_sectors_def)

lemma file_at_cong:
  assumes f: "file_at n v sec d" and m: "\<And>a. a \<in> set (meta_sectors sec d) \<Longrightarrow> v' a = v a"
    and l: "\<And>a. a < n \<Longrightarrow> length (v' a) = BLOCK_SECTOR_SIZE"
  shows "file_at n v' sec d" "data_sectors v' d = data_sectors v d"
proof -
  show e: "data_sectors v' d = data_sectors v d" by (rule data_sectors_cong) (simp add: m meta_sectors_def)
  show "file_at n v' sec d" using f l m by (simp add: file_at_def e inode_ok_def meta_sectors_def)
qed

lemma content_cong:
  assumes f: "file_at n v sec d" and m: "\<And>a. a \<in> file_sectors v sec d \<Longrightarrow> v' a = v a"
  shows "content v' d = content v d"
proof (rule nth_equalityI)
  fix p assume "p < length (content v' d)"
  then have p: "p < nat (ilength d)" and k: "p div 512 < data_cnt d"
    using div_data_cnt [OF file_atD(7) [OF f], of p] by simp_all
  have "sector_at v' d (p div 512) = sector_at v d (p div 512)"
    by (rule sector_at_cong [OF _ k]) (rule m, simp add: file_sectors_def meta_sectors_def)
  moreover have "v' (sector_at v d (p div 512)) = v (sector_at v d (p div 512))"
    by (rule m) (simp add: file_sectors_def sector_at_data [OF k])
  ultimately show "content v' d ! p = content v d ! p" using p by (simp add: byte_at_def)
qed simp

section \<open>Replacing a piece of one sector\<close>

lemma same_sector:
  fixes p k j :: nat
  assumes "p mod 512 + k \<le> 512"
  shows "j div 512 = p div 512 \<Longrightarrow> p mod 512 \<le> j mod 512 \<and> j mod 512 < p mod 512 + k \<longleftrightarrow> p \<le> j \<and> j < p + k"
    "p \<le> j \<Longrightarrow> j < p + k \<Longrightarrow> j div 512 = p div 512 \<and> j mod 512 - p mod 512 = j - p"
proof -
  have e: "p = 512 * (p div 512) + p mod 512" "j = 512 * (j div 512) + j mod 512" by simp_all
  show "j div 512 = p div 512 \<Longrightarrow> p mod 512 \<le> j mod 512 \<and> j mod 512 < p mod 512 + k \<longleftrightarrow> p \<le> j \<and> j < p + k"
    using e by linarith
  assume "p \<le> j" "j < p + k"
  then obtain i where i: "j = p + i" "i < k" using le_Suc_ex by force
  then have "p mod 512 + i < 512" using assms by simp
  then show "j div 512 = p div 512 \<and> j mod 512 - p mod 512 = j - p"
    using div_within [of p i] mod_within [of p i] i(1) by simp
qed

lemma content_splice:
  assumes f: "file_at n v sec d" and p: "p + length xs \<le> nat (ilength d)" "p mod 512 + length xs \<le> 512" "xs \<noteq> []"
    and s: "s = sector_at v d (p div 512)" and v': "v' = v(s := splice_bytes (v s) (p mod 512) xs)"
  shows "file_at n v' sec d" "data_sectors v' d = data_sectors v d" "content v' d = splice_bytes (content v d) p xs"
    "s \<in> set (data_sectors v d)" "s < n"
proof -
  have k: "p div 512 < data_cnt d" using div_data_cnt [OF file_atD(7) [OF f], of p] p by (cases xs) auto
  show sd: "s \<in> set (data_sectors v d)" using sector_at_data [OF k] s by simp
  then show sn: "s < n" using file_atD(1) [OF f] by (simp add: inode_ok_def)
  have l: "length (v s) = 512" using file_atD(4) [OF f sn] .
  have m: "v' a = v a" if "a \<in> set (meta_sectors sec d)" for a using file_atD(6) [OF f] sd that unfolding v' by auto
  have l': "length (v' a) = BLOCK_SECTOR_SIZE" if "a < n" for a using file_atD(4) [OF f that] p(2) l by (simp add: v')
  show f': "file_at n v' sec d" "data_sectors v' d = data_sectors v d"
    using file_at_cong [of n v sec d v', OF f m l'] by auto
  show "content v' d = splice_bytes (content v d) p xs"
  proof (rule nth_equalityI)
    fix j assume "j < length (content v' d)"
    then have j: "j < nat (ilength d)" and kj: "j div 512 < data_cnt d"
      using div_data_cnt [OF file_atD(7) [OF f], of j] by simp_all
    have sj: "sector_at v' d (j div 512) = sector_at v d (j div 512)"
      by (rule sector_at_cong [OF _ kj]) (rule m, simp add: meta_sectors_def)
    show "content v' d ! j = splice_bytes (content v d) p xs ! j"
    proof (cases "j div 512 = p div 512")
      case True
      then have "content v' d ! j = splice_bytes (v s) (p mod 512) xs ! (j mod 512)"
        using j sj by (simp add: byte_at_def s v')
      also have "\<dots> = (if p \<le> j \<and> j < p + length xs then xs ! (j mod 512 - p mod 512) else v s ! (j mod 512))"
        using splice_nth [of "p mod 512" xs "v s" "j mod 512"] p(2) l same_sector(1) [OF p(2) True] by simp
      also have "\<dots> = splice_bytes (content v d) p xs ! j"
        using splice_nth [of p xs "content v d" j] p(1) j same_sector(2) [OF p(2), of j] True by (auto simp: byte_at_def s)
      finally show ?thesis .
    next
      case False
      then have "sector_at v d (j div 512) \<noteq> s" using sector_at_inj [OF f kj k] s by simp
      then have "content v' d ! j = content v d ! j" using j sj by (simp add: byte_at_def v')
      moreover have "\<not> (p \<le> j \<and> j < p + length xs)" using same_sector(2) [OF p(2), of j] False by blast
      ultimately show ?thesis using splice_nth [of p xs "content v d" j] p(1) j by auto
    qed
  qed (use p in simp)
qed

section \<open>The loop\<close>

lemma write_loop_step:
  assumes "0 < l" "byte_to_sector fs i (int p) = Some (s, f1)" "inode_length f1 i = Some (ilen, f2)"
    "chunk ilen (int p) (int l) = int k" "0 < k" "k \<le> l" "b + k \<le> length buf"
    "(if p mod 512 = 0 \<and> k = 512 then fs_write f2 s (take 512 (drop b buf))
      else do { (_, c) \<leftarrow> cache_write_bytes (cch f2) s (drop b buf) (p mod 512) k (512 - p mod 512); Some (f2\<lparr>cch := c\<rparr>) }) = Some f3"
  shows "write_loop fs i buf (int l) (int p) (int b) = write_loop f3 i buf (int (l - k)) (int (p + k)) (int (b + k))"
proof -
  have m: "(int p mod 512 = 0) = (p mod 512 = 0)" "nat (int p mod 512) = p mod 512" "0 \<le> int p mod 512"
    "nat (512 - int p mod 512) = 512 - p mod 512"
    by presburger (simp_all add: nat_mod_distrib nat_diff_distrib)
  have "int b + int k \<le> int (length buf)" using assms(7) by linarith
  then have "write_loop fs i buf (int l) (int p) (int b) = write_loop f3 i buf (int l - int k) (int p + int k) (int b + int k)"
    using assms(1-5,8) by (subst write_loop.simps) (auto simp: m Let_def simp del: Option.bind_assoc split: if_splits)
  then show ?thesis using assms(6) by (simp add: of_nat_diff)
qed

lemma alloc_ok_fill_bounce: "fill_bounce c a keep = Some (b, c') \<Longrightarrow> alloc_ok c' = alloc_ok c"
  by (auto simp: fill_bounce_def monad_simps split: if_splits dest!: alloc_ok_cache_read)

lemma alloc_ok_cache_write_bytes: "cache_write_bytes c a buf ofs k left = Some (ok, c') \<Longrightarrow> alloc_ok c' = alloc_ok c"
  by (auto simp: cache_write_bytes_def malloc_def Let_def monad_simps split: if_splits dest!: alloc_ok_cache_write alloc_ok_fill_bounce)

context cache_over
begin

lemma write_chunk_ok:
  assumes g: "cache_good good n os (cch fs)" "mem_ok fs" and f: "file_at n (disk_of fs) sec d"
    and p: "0 < k" "p + k \<le> nat (ilength d)" "p mod 512 + k \<le> 512" and b: "b + k \<le> length buf"
    and s: "s = sector_at (disk_of fs) d (p div 512)"
  shows "\<exists>fs'. (if p mod 512 = 0 \<and> k = 512 then fs_write fs s (take 512 (drop b buf))
      else do { (_, c) \<leftarrow> cache_write_bytes (cch fs) s (drop b buf) (p mod 512) k (512 - p mod 512); Some (fs\<lparr>cch := c\<rparr>) }) = Some fs' \<and>
    holds fs ((disk_of fs)(s := splice_bytes (disk_of fs s) (p mod 512) (take k (drop b buf)))) fs'"
proof -
  have lx: "length (take k (drop b buf)) = k" using b by simp
  have sn: "s < n" using content_splice(5) [OF f, of p "take k (drop b buf)" s] p s lx by auto
  have l: "length (disk_of fs s) = 512" using cache_view_length [OF g(1) sn] .
  show ?thesis
  proof (cases "p mod 512 = 0 \<and> k = 512")
    case True
    then have "splice_bytes (disk_of fs s) (p mod 512) (take k (drop b buf)) = take 512 (drop b buf)"
      using l lx by (simp add: splice_bytes_def)
    then show ?thesis using fs_write_ok [OF g(1) sn, of "take 512 (drop b buf)"] True lx by auto
  next
    case False
    have kb: "p mod 512 + k \<le> BLOCK_SECTOR_SIZE" "k \<le> length (drop b buf)" using p(3) b by simp_all
    have keep: "0 < p mod 512 \<or> k < 512 - p mod 512" using False p(3) by auto
    from cache_write_bytes_view [OF g(1) sn kb, of "512 - p mod 512"] g(2) keep obtain c' where
      c': "cache_write_bytes (cch fs) s (drop b buf) (p mod 512) k (512 - p mod 512) = Some (True, c')" "cache_good good n os c'"
      "cache_view view c' = (disk_of fs)(s := splice_bytes (disk_of fs s) (p mod 512) (take k (drop b buf)))"
      by (auto simp: mem_ok_def)
    then show ?thesis unfolding if_not_P [OF False] using alloc_ok_cache_write_bytes [OF c'(1)]
      by (simp add: now_holds_def del: fun_upd_apply)
  qed
qed

lemma write_loop_ok:
  assumes "cache_good good n os (cch fs)" "mem_ok fs" "opened n fs i sec" "file_at n (disk_of fs) sec d"
    "p + l \<le> nat (ilength d)" "b + l \<le> length buf"
  shows "\<exists>fs' v. write_loop fs i buf (int l) (int p) (int b) = Some (int (b + l), fs') \<and> holds fs v fs' \<and>
    file_at n v sec d \<and> data_sectors v d = data_sectors (disk_of fs) d \<and>
    (\<forall>a. a \<notin> set (data_sectors (disk_of fs) d) \<longrightarrow> v a = disk_of fs a) \<and>
    content v d = splice_bytes (content (disk_of fs) d) p (take l (drop b buf))"
  using assms
proof (induction l arbitrary: fs p b rule: less_induct)
  case (less l)
  note g = less.prems(1,2) and i = less.prems(3) and f = less.prems(4)
  let ?v = "disk_of fs"
  note L = file_atD(7) [OF f]
  show ?case
  proof (cases "l = 0")
    case True
    then show ?thesis using holds_refl [OF g(1)] f by (auto simp: write_loop.simps)
  next
    case l0: False
    then have P: "int p < ilength d" using less.prems(5) by linarith
    define k where "k = min l (min (nat (ilength d) - p) (512 - p mod 512))"
    have k: "0 < k" "p + k \<le> nat (ilength d)" "p mod 512 + k \<le> 512" "k \<le> l"
      unfolding k_def using chunk_bounds [OF P] l0 by (blast intro: min.cobounded1 neq0_conv [THEN iffD1])+
    have ch: "chunk (ilength d) (int p) (int l) = int k" using chunk_eq(1) [OF L, of p l] P by (simp add: k_def)
    define s where "s = sector_at ?v d (p div 512)"
    define v1 where "v1 = ?v(s := splice_bytes (?v s) (p mod 512) (take k (drop b buf)))"
    obtain f1 where f1: "byte_to_sector fs i (int p) = Some (s, f1)" "holds fs ?v f1"
      using byte_to_sector_ok [OF g i file_atD(2) [OF f, symmetric] file_atD(1) [OF f] P] s_def by blast
    note h1 = now_holdsD [OF f1(2)]
    have "opened n f1 i sec" using i h1(3) by (simp add: opened_def)
    then obtain f2 where f2: "inode_length f1 i = Some (ilength d, f2)" "holds f1 ?v f2"
      using inode_length_ok [OF h1(1)] h1(2) file_atD(2) [OF f] by auto
    note h2 = now_holdsD [OF f2(2)]
    have bk: "b + k \<le> length buf" using less.prems(6) k(4) by linarith
    have m2: "mem_ok f2" "disk_of f2 = ?v" using h1 h2 g(2) by simp_all
    have "file_at n (disk_of f2) sec d" "s = sector_at (disk_of f2) d (p div 512)" using m2 f s_def by simp_all
    from write_chunk_ok [OF h2(1) m2(1) this(1) k(1-3) bk this(2)] obtain f3 where
      f3: "(if p mod 512 = 0 \<and> k = 512 then fs_write f2 s (take 512 (drop b buf))
        else do { (_, c) \<leftarrow> cache_write_bytes (cch f2) s (drop b buf) (p mod 512) k (512 - p mod 512); Some (f2\<lparr>cch := c\<rparr>) }) = Some f3"
      "holds f2 v1 f3" unfolding m2 v1_def by blast
    note h3 = now_holdsD [OF f3(2)]
    note loop = write_loop_step [OF _ f1(1) f2(1) ch k(1,4) bk f3(1)]
    have lx: "length (take k (drop b buf)) = k" using bk by simp
    have "take k (drop b buf) \<noteq> []" using lx k(1) by (metis list.size(3) less_numeral_extra(3))
    note c1 = content_splice [OF f _ _ this s_def v1_def, unfolded lx, OF k(2,3)]
    have "opened n f3 i sec" "mem_ok f3" "file_at n (disk_of f3) sec d" using i h1 h2 h3 g(2) c1(1) by (simp_all add: opened_def)
    then obtain f4 v where f4: "write_loop f3 i buf (int (l - k)) (int (p + k)) (int (b + k)) = Some (int (b + k + (l - k)), f4)"
      "holds f3 v f4" "file_at n v sec d" "data_sectors v d = data_sectors v1 d"
      "\<And>a. a \<notin> set (data_sectors v1 d) \<Longrightarrow> v a = v1 a"
      "content v d = splice_bytes (content v1 d) (p + k) (take (l - k) (drop (b + k) buf))"
      using less.IH [of "l - k" f3 "p + k" "b + k"] h3(1,2) k less.prems(5,6) by auto
    have "content v d = splice_bytes (content ?v d) p (take l (drop b buf))"
      using splice_splice [of p "take k (drop b buf)" "take (l - k) (drop (b + k) buf)" "content ?v d"] lx less.prems(5,6) k(4)
        take_split [OF k(4), of b buf] unfolding f4(6) c1(3) by simp
    moreover have "v a = ?v a" if "a \<notin> set (data_sectors ?v d)" for a using f4(5) [of a] c1(2,4) that by (auto simp: v1_def)
    moreover have "b + k + (l - k) = b + l" using k(4) by simp
    ultimately show ?thesis
      using loop f4(1,3,4) c1(2) l0 now_holds_trans [OF now_holds_trans [OF now_holds_trans [OF f1(2) f2(2)] f3(2)] f4(2)] by auto
  qed
qed

text \<open>What \<^verbatim>\<open>inode_write_at\<close> does once the file is long enough: store the inode, the data, the inode.\<close>

lemma write_tail_ok:
  assumes g: "cache_good good n os (cch fs)" "mem_ok fs" and i: "opened n fs i sec"
    and v: "v = (disk_of fs)(sec := enc_inode d)" and f: "file_at n v sec d"
    and l: "p + l \<le> nat (ilength d)" "l \<le> length buf"
  shows "\<exists>fs' v'. do { fs \<leftarrow> fs_write fs sec (enc_inode d); (m, fs) \<leftarrow> write_loop fs i buf (int l) (int p) 0;
      fs \<leftarrow> fs_write fs sec (enc_inode d); Some (m, fs) } = Some (int l, fs') \<and> holds fs v' fs' \<and>
    file_at n v' sec d \<and> data_sectors v' d = data_sectors v d \<and> (\<forall>a. a \<notin> set (data_sectors v d) \<longrightarrow> v' a = v a) \<and>
    content v' d = splice_bytes (content v d) p (take l buf)"
proof -
  have sn: "sec < n" using i by (simp add: opened_def)
  have e: "length (enc_inode d) = BLOCK_SECTOR_SIZE" using file_atD(8) [OF f] by (intro enc_inode_length) (simp add: inode_fits_def)
  obtain f1 where f1: "fs_write fs sec (enc_inode d) = Some f1" "holds fs v f1" using fs_write_ok [OF g(1) sn e] v by auto
  note h1 = now_holdsD [OF f1(2)]
  have "opened n f1 i sec" "mem_ok f1" "file_at n (disk_of f1) sec d" using i h1 g(2) f by (simp_all add: opened_def)
  from write_loop_ok [OF h1(1) this(2,1,3) l(1), of 0 buf] l(2) obtain f2 v' where
    f2: "write_loop f1 i buf (int l) (int p) 0 = Some (int l, f2)" "holds f1 v' f2" "file_at n v' sec d"
      "data_sectors v' d = data_sectors v d" "\<And>a. a \<notin> set (data_sectors v d) \<Longrightarrow> v' a = v a"
      "content v' d = splice_bytes (content v d) p (take l buf)"
    unfolding h1(2) by auto
  note h2 = now_holdsD [OF f2(2)]
  obtain f3 where f3: "fs_write f2 sec (enc_inode d) = Some f3" "holds f2 (v'(sec := enc_inode d)) f3"
    using fs_write_ok [OF h2(1) sn e] h2(2) by auto
  have "sec \<notin> set (data_sectors v d)" using file_atD(6) [OF f] by (auto simp: meta_sectors_def)
  then have "v'(sec := enc_inode d) = v'" using f2(5) [of sec] by (auto simp: v)
  then show ?thesis using f1(1) f2 f3 now_holds_trans [OF now_holds_trans [OF f1(2) f2(2)] f3(2)] by auto
qed

end

section \<open>Longer files\<close>

lemma sectors_for_mono: "0 \<le> a \<Longrightarrow> a \<le> b \<Longrightarrow> sectors_for a \<le> sectors_for b"
  by (simp add: sectors_for_eq zdiv_mono1)

lemma file_at_longer:
  assumes f: "file_at n v sec d" and m: "ilength d \<le> m" "m < 2 ^ 31" "sectors_for m = sectors_for (ilength d)"
    and d': "d' = d\<lparr>ilength := m\<rparr>"
  shows "file_at n (v(sec := enc_inode d')) sec d'" "data_sectors (v(sec := enc_inode d')) d' = data_sectors v d"
    "take (nat (ilength d)) (content (v(sec := enc_inode d')) d') = content v d"
proof -
  define v' where "v' = v(sec := enc_inode d')"
  have eq: "data_cnt d' = data_cnt d" "meta_sectors sec d' = meta_sectors sec d" "direct d' = direct d" "indirect d' = indirect d"
    using m(3) by (simp_all add: data_cnt_def meta_sectors_def d')
  have fits: "inode_fits d'" using file_atD(7,8) [OF f] m(1,2) by (simp add: inode_fits_def d')
  have other: "v' a = v a" if "a \<noteq> sec" for a using that by (simp add: v'_def)
  have dist: "distinct (meta_sectors sec d @ data_sectors v d)" using f by (simp add: file_at_def)
  then have ind: "v' (indirect d) = v (indirect d)" if "DIRECT_CNT < data_cnt d"
    using that by (intro other) (auto simp: meta_sectors_def)
  have sat: "sector_at v' d' k = sector_at v d k" if "k < data_cnt d" for k
    using that ind by (auto simp: sector_at_def eq)
  then have ds: "data_sectors v' d' = data_sectors v d" by (simp add: data_sectors_def eq)
  have len: "length (v' a) = BLOCK_SECTOR_SIZE" if "a < n" for a
    using file_atD(4) [OF f that] enc_inode_length [of d'] fits by (auto simp: v'_def inode_fits_def)
  have "dec_inode (v' sec) = d'" using dec_enc_inode [OF fits] by (simp add: v'_def)
  then have "file_at n v' sec d'" using f fits len dist m(1) eq by (simp add: file_at_def inode_ok_def ds) (simp add: d')
  moreover have "take (nat (ilength d)) (content v' d') = content v d"
  proof (rule nth_equalityI)
    show "length (take (nat (ilength d)) (content v' d')) = length (content v d)" using m(1) by (simp add: d')
    fix p assume "p < length (take (nat (ilength d)) (content v' d'))"
    then have p: "p < nat (ilength d)" "p < nat (ilength d')" by simp_all
    then have k: "p div 512 < data_cnt d" using div_data_cnt [OF file_atD(7) [OF f], of p] by simp
    have "sector_at v d (p div 512) \<noteq> sec"
      using sector_at_data [OF k, of v] dist by (auto simp: meta_sectors_def)
    then show "take (nat (ilength d)) (content v' d') ! p = content v d ! p" using p k sat other by (simp add: byte_at_def)
  qed
  ultimately show "file_at n (v(sec := enc_inode d')) sec d'" "data_sectors (v(sec := enc_inode d')) d' = data_sectors v d"
    "take (nat (ilength d)) (content (v(sec := enc_inode d')) d') = content v d"
    using ds by (simp_all add: v'_def)
qed

lemma splice_longer:
  assumes "take (length xs) ys = xs" "p \<le> length xs" "length xs \<le> length ys" "length ys = max (length xs) (p + length zs)"
  shows "splice_bytes ys p zs = splice_bytes xs p zs"
proof -
  have "take p ys = take p xs" using assms(1,2) by (metis min.absorb1 take_take)
  moreover have "drop (p + length zs) ys = drop (p + length zs) xs"
    using assms by (cases "length xs \<le> p + length zs") (auto simp: max_def)
  ultimately show ?thesis by (simp add: splice_bytes_def)
qed

definition writable :: "'m fs \<Rightarrow> addr \<Rightarrow> bool" where
  "writable fs i \<longleftrightarrow> map_option deny_write_cnt (inodes fs i) = Some 0"

lemma add_inode_no_growth:
  "sectors_for m \<le> sectors_for (ilength d) \<Longrightarrow> add_inode wr fs d m = Some (d\<lparr>ilength := max (ilength d) m\<rparr>, fs)"
  by (simp add: add_inode_def Let_def max_def)

context cache_over
begin

lemma inode_write_in_place:
  assumes g: "cache_good good n os (cch fs)" "mem_ok fs" and i: "opened n fs i sec" "writable fs i"
    and f: "file_at n (disk_of fs) sec d" and p: "int p \<le> ilength d" "int (p + l) < 2 ^ 31" "l \<le> length buf"
      "sectors_for (int (p + l)) \<le> sectors_for (ilength d)" and d': "d' = d\<lparr>ilength := max (ilength d) (int (p + l))\<rparr>"
  shows "\<exists>fs' v. inode_write_body wr fs i buf (int l) (int p) = Some (int l, fs') \<and> holds fs v fs' \<and>
    file_at n v sec d' \<and> data_sectors v d' = data_sectors (disk_of fs) d \<and>
    (\<forall>a. a \<notin> insert sec (set (data_sectors (disk_of fs) d)) \<longrightarrow> v a = disk_of fs a) \<and>
    content v d' = splice_bytes (content (disk_of fs) d) p (take l buf)"
proof -
  define m where "m = max (ilength d) (int (p + l))"
  obtain nd where nd: "inodes fs i = Some nd" "isector nd = sec" "sec < n" "deny_write_cnt nd = 0"
    using i by (auto simp: opened_def writable_def)
  obtain f1 where f1: "fs_read fs sec = Some (disk_of fs sec, f1)" "holds fs (disk_of fs) f1" using fs_read_ok [OF g(1) nd(3)] by auto
  note h1 = now_holdsD [OF f1(2)]
  have L: "0 \<le> ilength d" "ilength d < 2 ^ 31" using file_atD(7,8) [OF f] by (simp_all add: inode_fits_def)
  have "s32 (int l + int p) = int (p + l)" using s32_id [of "int (p + l)"] p(2) by (simp add: add.commute)
  then have a: "add_inode wr f1 (dec_inode (disk_of fs sec)) (s32 (int l + int p)) = Some (d', f1)"
    using add_inode_no_growth [OF p(4), of wr f1] file_atD(2) [OF f] d' by simp
  have m: "ilength d \<le> m" "m < 2 ^ 31" "sectors_for m = sectors_for (ilength d)" "d' = d\<lparr>ilength := m\<rparr>"
    using p(2,4) L sectors_for_mono [of "ilength d" "int (p + l)"] d' by (auto simp: m_def max_def)
  note lg = file_at_longer [OF f m]
  define v where "v = (disk_of f1)(sec := enc_inode d')"
  have v: "v = (disk_of fs)(sec := enc_inode d')" using h1(2) by (simp add: v_def)
  have "opened n f1 i sec" "mem_ok f1" using i(1) h1 g(2) by (simp_all add: opened_def)
  moreover have "p + l \<le> nat (ilength d')" by (simp add: d')
  moreover have "file_at n v sec d'" using lg(1) v by simp
  ultimately obtain f2 v2 where f2: "do { fs \<leftarrow> fs_write f1 sec (enc_inode d'); (m, fs) \<leftarrow> write_loop fs i buf (int l) (int p) 0;
      fs \<leftarrow> fs_write fs sec (enc_inode d'); Some (m, fs) } = Some (int l, f2)" "holds f1 v2 f2" "file_at n v2 sec d'"
      "data_sectors v2 d' = data_sectors v d'" "\<And>a. a \<notin> set (data_sectors v d') \<Longrightarrow> v2 a = v a"
      "content v2 d' = splice_bytes (content v d') p (take l buf)"
    using write_tail_ok [OF h1(1) _ _ v_def _ _ p(3), of i p] by auto
  have ds: "data_sectors v d' = data_sectors (disk_of fs) d" using lg(2) v by simp
  have "inode_write_body wr fs i buf (int l) (int p) = Some (int l, f2)" using nd f1(1) a f2(1) by (simp add: inode_write_body_def)
  moreover have "content v2 d' = splice_bytes (content (disk_of fs) d) p (take l buf)"
    unfolding f2(6)
  proof (rule splice_longer)
    show "take (length (content (disk_of fs) d)) (content v d') = content (disk_of fs) d" using lg(3) v by simp
    show "length (content v d') = max (length (content (disk_of fs) d)) (p + length (take l buf))"
      using p(3) L(1) by (simp add: d' nat_add_distrib max_def nat_le_iff) linarith?
  qed (use p L m in \<open>auto simp: d'\<close>)
  ultimately show ?thesis using f2(3-5) ds now_holds_trans [OF f1(2) f2(2)] by (intro exI [of _ f2] exI [of _ v2]) (auto simp: v)
qed

end

end
