(* ===== verification/Inode_Grow.thy ===== *)
theory Inode_Grow
  imports Inode_Write
begin

text \<open>
  Allocation and growth over a lawful device. \<^verbatim>\<open>free_map_allocate\<close> hands out a sector that nobody uses
  and stores the new map in the free map's own file; \<^verbatim>\<open>add_inode\<close> extends a file with such sectors, so
  that \<^verbatim>\<open>inode_write_at\<close> past the end of a file appends to its content.
\<close>

section \<open>Steps that also change the free map\<close>

definition alloc_holds :: "('m \<Rightarrow> bool) \<Rightarrow> ('m \<Rightarrow> nat \<Rightarrow> sector_data) \<Rightarrow> nat \<Rightarrow> 'm block_operations \<Rightarrow> 'm fs \<Rightarrow> disk \<Rightarrow> 'm fs \<Rightarrow> bool" where
  "alloc_holds good view n os fs v fs' \<longleftrightarrow> fs' = fs\<lparr>cch := cch fs', free_map := free_map fs'\<rparr> \<and> cache_good good n os (cch fs') \<and>
     cache_view view (cch fs') = v \<and> alloc_ok (cch fs') = alloc_ok (cch fs)"

lemma alloc_holds_trans: "alloc_holds good view n os fs v fs1 \<Longrightarrow> alloc_holds good view n os fs1 w fs2 \<Longrightarrow> alloc_holds good view n os fs w fs2"
  by (cases fs; cases fs1; cases fs2) (simp add: alloc_holds_def)

lemma now_alloc_holds: "now_holds good view n os fs v fs' \<Longrightarrow> alloc_holds good view n os fs v fs'"
  by (cases fs; cases fs') (simp add: alloc_holds_def now_holds_def)

lemma alloc_holdsD:
  assumes "alloc_holds good view n os fs v fs'"
  shows "cache_good good n os (cch fs')" "cache_view view (cch fs') = v" "inodes fs' = inodes fs" "files fs' = files fs"
    "open_inodes fs' = open_inodes fs" "free_map_file fs' = free_map_file fs"
    "mem_ok fs' = mem_ok fs" "junk fs' = junk fs" "next_obj fs' = next_obj fs" "stack_array fs' = stack_array fs"
    "opened N fs' i sec = opened N fs i sec" "writable fs' i = writable fs i"
  using assms by (cases fs; cases fs'; simp add: alloc_holds_def mem_ok_def stack_array_def opened_def writable_def)+

section \<open>The free map and its file\<close>

abbreviation used :: "'m fs \<Rightarrow> nat \<Rightarrow> bool" where
  "used fs a \<equiv> bmap (free_map fs) ! a"

definition free_sectors :: "'m fs \<Rightarrow> nat set" where
  "free_sectors fs = {a. a < bit_cnt (free_map fs) \<and> \<not> used fs a}"

definition free_map_ok :: "nat \<Rightarrow> disk \<Rightarrow> 'm fs \<Rightarrow> inode_disk \<Rightarrow> bool" where
  "free_map_ok n v fs fd \<longleftrightarrow> bitmap_ok (free_map fs) \<and> bit_cnt (free_map fs) = n \<and> free_map_file fs \<noteq> NULL \<and>
     (\<exists>fl. files fs (free_map_file fs) = Some fl \<and> opened n fs (finode fl) FREE_MAP_SECTOR \<and> writable fs (finode fl)) \<and>
     file_at n v FREE_MAP_SECTOR fd \<and> int (byte_cnt n) \<le> ilength fd \<and> (\<forall>a\<in>file_sectors v FREE_MAP_SECTOR fd. used fs a)"

text \<open>The free map's file holds the free map.\<close>

definition map_stored :: "disk \<Rightarrow> 'm fs \<Rightarrow> inode_disk \<Rightarrow> bool" where
  "map_stored v fs fd \<longleftrightarrow> (let k = byte_cnt (bit_cnt (free_map fs)) in take k (content v fd) = take k (bitmap_bytes (free_map fs)))"

lemma byte_cnt_eq:
  assumes "bitmap_ok b"
  shows "byte_cnt (bit_cnt b) = 4 * elem_cnt (bit_cnt b)" "int (byte_cnt (bit_cnt b)) < 2 ^ 31"
    "byte_cnt (bit_cnt b) \<le> length (bitmap_bytes b)"
proof -
  have e: "elem_cnt (bit_cnt b) = (bit_cnt b + 31) div 32" "bit_cnt b + 31 < 2 ^ 32"
    using assms elem_cnt_eq [of "bit_cnt b"] by (simp_all add: bitmap_ok_def)
  then have "elem_cnt (bit_cnt b) < 2 ^ 27" by simp
  then show "byte_cnt (bit_cnt b) = 4 * elem_cnt (bit_cnt b)" "int (byte_cnt (bit_cnt b)) < 2 ^ 31"
    by (simp_all add: byte_cnt_def)
  then show "byte_cnt (bit_cnt b) \<le> length (bitmap_bytes b)" using assms by (simp add: bitmap_bytes_def bitmap_ok_def)
qed

lemma group_at_one: "group_at bs i 1 v \<longleftrightarrow> i < length bs \<and> bs ! i = v"
  by (auto simp: group_at_def)

lemma fill_one: "i < length xs \<Longrightarrow> fill i 1 v xs = xs[i := v]"
  by (simp add: fill_def upd_conv_take_nth_drop)

lemma file_at_unused:
  assumes "file_at n v sec d" "a \<notin> file_sectors v sec d" "length x = BLOCK_SECTOR_SIZE"
  shows "file_at n (v(a := x)) sec d" "file_sectors (v(a := x)) sec d = file_sectors v sec d"
proof -
  have "(v(a := x)) b = v b" if "b \<in> set (meta_sectors sec d)" for b using assms(2) that by (auto simp: file_sectors_def)
  moreover have "length ((v(a := x)) b) = BLOCK_SECTOR_SIZE" if "b < n" for b using assms(3) file_atD(4) [OF assms(1) that] by simp
  ultimately show "file_at n (v(a := x)) sec d" "file_sectors (v(a := x)) sec d = file_sectors v sec d"
    using file_at_cong [OF assms(1), of "v(a := x)"] unfolding file_sectors_def by auto
qed

context cache_over
begin

abbreviation allocs_to :: "'m fs \<Rightarrow> disk \<Rightarrow> 'm fs \<Rightarrow> bool" where
  "allocs_to \<equiv> alloc_holds good view n os"

lemma bitmap_write_ok:
  assumes g: "cache_good good n os (cch fs)" "mem_ok fs" and m: "free_map_ok n (disk_of fs) fs fd"
  shows "\<exists>fs' v. bitmap_write (inode_write_at (Suc k)) fs (free_map fs) (free_map_file fs) = Some (True, fs') \<and> holds fs v fs' \<and>
    free_map_ok n v fs' fd \<and> map_stored v fs' fd \<and> file_sectors v FREE_MAP_SECTOR fd = file_sectors (disk_of fs) FREE_MAP_SECTOR fd \<and>
    (\<forall>a. a \<notin> file_sectors (disk_of fs) FREE_MAP_SECTOR fd \<longrightarrow> v a = disk_of fs a)"
proof -
  let ?b = "free_map fs" and ?v = "disk_of fs"
  have b: "bitmap_ok ?b" "bit_cnt ?b = n" and f: "file_at n ?v FREE_MAP_SECTOR fd" and c: "int (byte_cnt n) \<le> ilength fd"
    using m by (simp_all add: free_map_ok_def)
  obtain fl where fl: "files fs (free_map_file fs) = Some fl" "opened n fs (finode fl) FREE_MAP_SECTOR" "writable fs (finode fl)"
    using m by (auto simp: free_map_ok_def)
  note bc = byte_cnt_eq [OF b(1), unfolded b(2)]
  have "fd = fd\<lparr>ilength := max (ilength fd) (int (0 + byte_cnt n))\<rparr>" using c by (simp add: max_def)
  note ip = inode_write_in_place [OF g fl(2,3) f _ _ bc(3) _ this]
  obtain f1 v where f1: "inode_write_at (Suc k) fs (finode fl) (bitmap_bytes ?b) (int (byte_cnt n)) 0 = Some (int (byte_cnt n), f1)"
    "holds fs v f1" "file_at n v FREE_MAP_SECTOR fd" "data_sectors v fd = data_sectors ?v fd"
    "\<And>a. a \<notin> insert FREE_MAP_SECTOR (set (data_sectors ?v fd)) \<Longrightarrow> v a = ?v a"
    "content v fd = splice_bytes (content ?v fd) 0 (take (byte_cnt n) (bitmap_bytes ?b))"
    using ip [of "inode_write_at k"] file_atD(7) [OF f] bc(2) c sectors_for_mono [of "int (byte_cnt n)" "ilength fd"] by auto
  note h1 = now_holdsD [OF f1(2)]
  have fse: "file_sectors v FREE_MAP_SECTOR fd = file_sectors ?v FREE_MAP_SECTOR fd" using f1(4) by (simp add: file_sectors_def)
  have "v a = ?v a" if "a \<notin> file_sectors ?v FREE_MAP_SECTOR fd" for a
    using f1(5) [of a] that by (auto simp: file_sectors_def meta_sectors_def)
  moreover have "free_map_ok n v f1 fd"
    using m f1(3) h1 fse by (simp add: free_map_ok_def opened_def writable_def)
  moreover have "map_stored v f1 fd" using f1(6) bc(3) h1 b(2) by (simp add: map_stored_def Let_def splice_bytes_def)
  moreover have "bitmap_write (inode_write_at (Suc k)) fs ?b (free_map_file fs) = Some (True, f1)"
    using f1(1) fl(1) b(2) by (simp add: bitmap_write_def file_write_at_def)
  ultimately show ?thesis using f1(2) fse by blast
qed

lemma free_map_allocate_ok:
  assumes g: "cache_good good n os (cch fs)" "mem_ok fs" and m: "free_map_ok n (disk_of fs) fs fd" and fr: "free_sectors fs \<noteq> {}"
  shows "\<exists>s fs' v. free_map_allocate (inode_write_at (Suc k)) fs 1 = Some (Some s, fs') \<and> s \<in> free_sectors fs \<and> allocs_to fs v fs' \<and>
    bmap (free_map fs') = (bmap (free_map fs))[s := True] \<and> free_map_ok n v fs' fd \<and> map_stored v fs' fd \<and>
    file_sectors v FREE_MAP_SECTOR fd = file_sectors (disk_of fs) FREE_MAP_SECTOR fd \<and>
    (\<forall>a. a \<notin> file_sectors (disk_of fs) FREE_MAP_SECTOR fd \<longrightarrow> v a = disk_of fs a)"
proof -
  have b: "bitmap_ok (free_map fs)" "bit_cnt (free_map fs) = n" using m by (simp_all add: free_map_ok_def)
  obtain s b' where s: "bitmap_scan_and_flip (free_map fs) 0 1 False = Some (s, b')" "s \<in> free_sectors fs" "s \<noteq> BITMAP_ERROR"
    "bitmap_ok b'" "bit_cnt b' = n" "bmap b' = (bmap (free_map fs))[s := True]"
    using bitmap_scan_and_flip_ok [OF b(1), of 0 1 False] fr b(2)
    by (auto simp: group_at_one [simplified] free_sectors_def fill_one [simplified])
  let ?f = "fs\<lparr>free_map := b'\<rparr>"
  have "used ?f a" if "used fs a" "a < n" for a using that s(6) b(2) by (cases "a = s") simp_all
  moreover have "\<forall>a\<in>file_sectors (disk_of fs) FREE_MAP_SECTOR fd. a < n"
    using m by (auto simp: free_map_ok_def file_at_def file_sectors_def meta_sectors_def inode_ok_def)
  ultimately have "\<forall>a\<in>file_sectors (disk_of fs) FREE_MAP_SECTOR fd. used ?f a" using m unfolding free_map_ok_def by blast
  then have m': "free_map_ok n (disk_of ?f) ?f fd" using m s(4,5) by (simp add: free_map_ok_def opened_def writable_def)
  have "cache_good good n os (cch ?f)" "mem_ok ?f" using g by (simp_all add: mem_ok_def)
  from bitmap_write_ok [OF this m', of k] obtain f1 v where
    f1: "bitmap_write (inode_write_at (Suc k)) ?f b' (free_map_file fs) = Some (True, f1)" "holds ?f v f1" "free_map_ok n v f1 fd"
      "map_stored v f1 fd" "file_sectors v FREE_MAP_SECTOR fd = file_sectors (disk_of fs) FREE_MAP_SECTOR fd"
      "\<And>a. a \<notin> file_sectors (disk_of fs) FREE_MAP_SECTOR fd \<Longrightarrow> v a = disk_of fs a" by auto
  have "free_map_file fs \<noteq> NULL" using m by (simp add: free_map_ok_def)
  then have "free_map_allocate (inode_write_at (Suc k)) fs 1 = Some (Some s, f1)"
    using s(1,3) f1(1) by (simp add: free_map_allocate_def)
  moreover have "allocs_to fs v f1" using f1(2) by (cases fs; cases f1) (simp add: alloc_holds_def now_holds_def)
  moreover have "bmap (free_map f1) = (bmap (free_map fs))[s := True]" using now_holdsD(6) [OF f1(2)] s(6) by simp
  ultimately show ?thesis using s(2) f1(3-6) by blast
qed

text \<open>Allocating and clearing sectors for a range of an array of pointers.\<close>

lemma alloc_range_ok:
  assumes "cache_good good n os (cch fs)" "mem_ok fs" "free_map_ok n (disk_of fs) fs fd"
    "e - a \<le> card (free_sectors fs)" "a \<le> e" "e \<le> length arr"
  shows "\<exists>ss fs' v. alloc_range (inode_write_at (Suc k)) fs arr [a..<e] any = Some (take a arr @ ss @ drop e arr, any \<or> a < e, fs') \<and>
    length ss = e - a \<and> distinct ss \<and> set ss \<subseteq> free_sectors fs \<and> free_sectors fs' = free_sectors fs - set ss \<and> allocs_to fs v fs' \<and>
    free_map_ok n v fs' fd \<and> file_sectors v FREE_MAP_SECTOR fd = file_sectors (disk_of fs) FREE_MAP_SECTOR fd \<and>
    (\<forall>x. x \<notin> file_sectors (disk_of fs) FREE_MAP_SECTOR fd \<longrightarrow> v x = (if x \<in> set ss then zeros else disk_of fs x))"
  using assms
proof (induction "e - a" arbitrary: a fs arr any)
  case 0
  have "allocs_to fs (disk_of fs) fs" by (rule now_alloc_holds [OF holds_refl [OF 0(2)]])
  then show ?case using 0 by (auto simp: le_antisym)
next
  case (Suc j)
  note g = Suc.prems(1,2)
  let ?F = "file_sectors (disk_of fs) FREE_MAP_SECTOR fd"
  have ae: "a < e" using Suc.hyps(2) by linarith
  have "free_sectors fs \<noteq> {}" using Suc.hyps(2) Suc.prems(4) by auto
  from free_map_allocate_ok [OF g Suc.prems(3) this, of k] obtain s f1 v1 where
    f1: "free_map_allocate (inode_write_at (Suc k)) fs 1 = Some (Some s, f1)" "s \<in> free_sectors fs" "allocs_to fs v1 f1"
    "bmap (free_map f1) = (bmap (free_map fs))[s := True]" "free_map_ok n v1 f1 fd"
    "file_sectors v1 FREE_MAP_SECTOR fd = ?F" "\<And>x. x \<notin> ?F \<Longrightarrow> v1 x = disk_of fs x" by blast
  note h1 = alloc_holdsD [OF f1(3)]
  have bc: "bit_cnt (free_map fs) = n" "bit_cnt (free_map f1) = n" using Suc.prems(3) f1(5) by (simp_all add: free_map_ok_def)
  have s: "s < n" "s \<notin> ?F" using f1(2) Suc.prems(3) bc(1) by (auto simp: free_sectors_def free_map_ok_def)
  have fr: "free_sectors f1 = free_sectors fs - {s}"
    using f1(4) bc s(1) unfolding free_sectors_def by (auto simp: nth_list_update)
  obtain f2 where f2: "fs_write f1 s zeros = Some f2" "holds f1 (v1(s := zeros)) f2"
    using fs_write_ok [OF h1(1) s(1), of zeros] h1(2) by auto
  note h2 = now_holdsD [OF f2(2)]
  have F2: "file_sectors (v1(s := zeros)) FREE_MAP_SECTOR fd = ?F" "free_map_ok n (v1(s := zeros)) f2 fd"
    using file_at_unused [of n v1 FREE_MAP_SECTOR fd s zeros] f1(5,6) s(2) h2 by (simp_all add: free_map_ok_def opened_def writable_def)
  have fin: "finite (free_sectors fs)" by (simp add: free_sectors_def)
  have "j = e - Suc a" "j \<le> card (free_sectors f2)" "Suc a \<le> e" "e \<le> length (arr[a := s])"
    using Suc.hyps(2) Suc.prems(4-6) fr f1(2) fin h2(6) by (simp_all add: free_sectors_def [of f2] free_sectors_def [of f1, symmetric])
  moreover have "mem_ok f2" using g(2) h1 h2 by simp
  ultimately obtain ss f3 v where f3: "alloc_range (inode_write_at (Suc k)) f2 (arr[a := s]) [Suc a..<e] True =
      Some (take (Suc a) (arr[a := s]) @ ss @ drop e (arr[a := s]), True, f3)"
    "length ss = e - Suc a" "distinct ss" "set ss \<subseteq> free_sectors f2" "free_sectors f3 = free_sectors f2 - set ss" "allocs_to f2 v f3"
    "free_map_ok n v f3 fd" "file_sectors v FREE_MAP_SECTOR fd = ?F"
    "\<And>x. x \<notin> ?F \<Longrightarrow> v x = (if x \<in> set ss then zeros else (v1(s := zeros)) x)"
    using Suc.hyps(1) [of "Suc a" f2 "arr[a := s]" True] h2(1,2) F2 by auto
  have fr2: "free_sectors f2 = free_sectors fs - {s}" using fr h2(6) by (simp add: free_sectors_def)
  have "take (Suc a) (arr[a := s]) @ ss @ drop e (arr[a := s]) = take a arr @ (s # ss) @ drop e arr"
    using ae Suc.prems(6) by (simp add: take_Suc_conv_app_nth)
  moreover have "[a..<e] = a # [Suc a..<e]" using ae by (rule upt_conv_Cons)
  ultimately have "alloc_range (inode_write_at (Suc k)) fs arr [a..<e] any = Some (take a arr @ (s # ss) @ drop e arr, True, f3)"
    using f1(1) f2(1) f3(1) ae Suc.prems(6) by simp
  moreover have "length (s # ss) = e - a" "distinct (s # ss)" "set (s # ss) \<subseteq> free_sectors fs" "free_sectors f3 = free_sectors fs - set (s # ss)"
    using f3(2-5) fr2 f1(2) ae by auto
  moreover have "allocs_to fs v f3" by (rule alloc_holds_trans [OF f1(3) alloc_holds_trans [OF now_alloc_holds [OF f2(2)] f3(6)]])
  moreover have "v x = (if x \<in> set (s # ss) then zeros else disk_of fs x)" if "x \<notin> ?F" for x
    using f3(9) [OF that] f1(7) [OF that] by simp
  ultimately show ?case using f3(7,8) ae by (intro exI [of _ "s # ss"] exI [of _ f3] exI [of _ v]) simp
qed

end

section \<open>Extents\<close>

text \<open>The first \<open>c\<close> data sectors under an inode's direct and singly indirect pointers, and the sectors that
  describe them.\<close>

definition extent :: "disk \<Rightarrow> inode_disk \<Rightarrow> nat \<Rightarrow> nat list" where
  "extent v d c = map (sector_at v d) [0..<c]"

definition ext_meta :: "nat \<Rightarrow> inode_disk \<Rightarrow> nat \<Rightarrow> nat list" where
  "ext_meta sec d c = sec # (if DIRECT_CNT < c then [indirect d] else [])"

definition ext_ok :: "nat \<Rightarrow> disk \<Rightarrow> nat \<Rightarrow> inode_disk \<Rightarrow> nat \<Rightarrow> bool" where
  "ext_ok n v sec d c \<longleftrightarrow> c \<le> DIRECT_CNT + INDIRECT_CNT \<and> inode_fits d \<and>
     (\<forall>a\<in>set (ext_meta sec d c @ extent v d c). a < n) \<and> distinct (ext_meta sec d c @ extent v d c)"

abbreviation ext_set :: "disk \<Rightarrow> nat \<Rightarrow> inode_disk \<Rightarrow> nat \<Rightarrow> nat set" where
  "ext_set v sec d c \<equiv> set (ext_meta sec d c @ extent v d c)"

lemma file_at_ext:
  assumes "file_at n v sec d"
  shows "ext_ok n v sec d (data_cnt d)" "ext_set v sec d (data_cnt d) = file_sectors v sec d"
  using assms
  by (auto simp: ext_ok_def file_at_def inode_ok_def file_sectors_def ext_meta_def meta_sectors_def extent_def data_sectors_def)

text \<open>\<open>grown fs fd sec d c fs' d' c' N\<close>: from \<open>fs\<close> to \<open>fs'\<close> the file at \<open>sec\<close> got the unused sectors \<open>N\<close>, so
  that it has \<open>c'\<close> data sectors instead of \<open>c\<close>; the new ones are cleared, and apart from the free map's
  file and the file's table of pointers nothing else on the disk changed.\<close>

definition grown where
  "grown good view n os fs fd sec d c fs' d' c' N \<longleftrightarrow> (
     let v = cache_view view (cch fs); v' = cache_view view (cch fs'); F = file_sectors v FREE_MAP_SECTOR fd in
     alloc_holds good view n os fs v' fs' \<and> free_map_ok n v' fs' fd \<and> file_sectors v' FREE_MAP_SECTOR fd = F \<and>
     c \<le> c' \<and> ext_ok n v' sec d' c' \<and> (\<forall>k<c. sector_at v' d' k = sector_at v d k) \<and>
     ext_set v' sec d' c' = ext_set v sec d c \<union> N \<and> N \<subseteq> free_sectors fs \<and> free_sectors fs' = free_sectors fs - N \<and>
     d' = d\<lparr>direct := direct d', indirect := indirect d'\<rparr> \<and>
     (\<forall>k. c \<le> k \<and> k < c' \<longrightarrow> sector_at v' d' k \<in> N \<and> v' (sector_at v' d' k) = zeros) \<and>
     (\<forall>x. x \<notin> F \<union> N \<and> \<not> (DIRECT_CNT < c \<and> x = indirect d) \<longrightarrow> v' x = v x))"

definition growable where
  "growable view n fs fd sec d c \<longleftrightarrow> (
     let v = cache_view view (cch fs); F = file_sectors v FREE_MAP_SECTOR fd in
     free_map_ok n v fs fd \<and> ext_ok n v sec d c \<and> ext_set v sec d c \<inter> F = {} \<and> (\<forall>a\<in>ext_set v sec d c. used fs a))"

lemma free_map_ok_less: "free_map_ok n v fs fd \<Longrightarrow> a \<in> file_sectors v FREE_MAP_SECTOR fd \<Longrightarrow> a < n"
  by (auto simp: free_map_ok_def file_at_def file_sectors_def meta_sectors_def inode_ok_def)

lemma grownD:
  assumes "grown good view n os fs fd sec d c fs' d' c' N" "v = cache_view view (cch fs)" "v' = cache_view view (cch fs')"
    "F = file_sectors v FREE_MAP_SECTOR fd"
  shows "alloc_holds good view n os fs v' fs'" "free_map_ok n v' fs' fd" "file_sectors v' FREE_MAP_SECTOR fd = F" "c \<le> c'"
    "ext_ok n v' sec d' c'" "\<forall>k<c. sector_at v' d' k = sector_at v d k" "ext_set v' sec d' c' = ext_set v sec d c \<union> N"
    "N \<subseteq> free_sectors fs" "free_sectors fs' = free_sectors fs - N" "d' = d\<lparr>direct := direct d', indirect := indirect d'\<rparr>"
    "\<forall>k. c \<le> k \<and> k < c' \<longrightarrow> sector_at v' d' k \<in> N \<and> v' (sector_at v' d' k) = zeros"
    "\<forall>x. x \<notin> F \<union> N \<and> \<not> (DIRECT_CNT < c \<and> x = indirect d) \<longrightarrow> v' x = v x"
  using assms(1) unfolding grown_def Let_def assms(2-4) [symmetric] by - (elim conjE, assumption)+

lemma grownI:
  assumes "v = cache_view view (cch fs)" "v' = cache_view view (cch fs')" "F = file_sectors v FREE_MAP_SECTOR fd"
    "alloc_holds good view n os fs v' fs'" "free_map_ok n v' fs' fd" "file_sectors v' FREE_MAP_SECTOR fd = F" "c \<le> c'"
    "ext_ok n v' sec d' c'" "\<And>k. k < c \<Longrightarrow> sector_at v' d' k = sector_at v d k" "ext_set v' sec d' c' = ext_set v sec d c \<union> N"
    "N \<subseteq> free_sectors fs" "free_sectors fs' = free_sectors fs - N" "d' = d\<lparr>direct := direct d', indirect := indirect d'\<rparr>"
    "\<And>k. c \<le> k \<Longrightarrow> k < c' \<Longrightarrow> sector_at v' d' k \<in> N \<and> v' (sector_at v' d' k) = zeros"
    "\<And>x. x \<notin> F \<union> N \<Longrightarrow> \<not> (DIRECT_CNT < c \<and> x = indirect d) \<Longrightarrow> v' x = v x"
  shows "grown good view n os fs fd sec d c fs' d' c' N"
  unfolding grown_def Let_def assms(1-3) [symmetric] using assms(4-)
  by (intro conjI allI impI; (elim conjE)?; assumption?) blast+

lemma growableD:
  assumes "growable view n fs fd sec d c" "v = cache_view view (cch fs)" "F = file_sectors v FREE_MAP_SECTOR fd"
  shows "free_map_ok n v fs fd" "ext_ok n v sec d c" "ext_set v sec d c \<inter> F = {}" "\<forall>a\<in>ext_set v sec d c. used fs a"
    "ext_set v sec d c \<inter> free_sectors fs = {}" "F \<inter> free_sectors fs = {}" "a \<in> ext_set v sec d c \<Longrightarrow> a < n" "a \<in> F \<Longrightarrow> a < n"
    "bit_cnt (free_map fs) = n"
proof -
  show *: "free_map_ok n v fs fd" "ext_ok n v sec d c" "ext_set v sec d c \<inter> F = {}" "\<forall>a\<in>ext_set v sec d c. used fs a"
    using assms(1) unfolding growable_def Let_def assms(2,3) [symmetric] by - (elim conjE, assumption)+
  then show "ext_set v sec d c \<inter> free_sectors fs = {}" by (auto simp: free_sectors_def)
  show "F \<inter> free_sectors fs = {}" using *(1) assms(3) by (auto simp: free_sectors_def free_map_ok_def)
  show "a \<in> ext_set v sec d c \<Longrightarrow> a < n" using *(2) by (simp add: ext_ok_def)
  show "a \<in> F \<Longrightarrow> a < n" using free_map_ok_less [OF *(1)] assms(3) by blast
  show "bit_cnt (free_map fs) = n" using *(1) by (simp add: free_map_ok_def)
qed

lemma grown_growable:
  assumes "grown good view n os fs fd sec d c fs' d' c' N" "growable view n fs fd sec d c"
  shows "growable view n fs' fd sec d' c'"
proof -
  note a = grownD [OF assms(1) refl refl refl] and b = growableD [OF assms(2) refl refl]
  let ?E = "ext_set (cache_view view (cch fs)) sec d c"
  have n: "bit_cnt (free_map fs') = n" using a(2) by (simp add: free_map_ok_def)
  have u: "used fs' x" if "x < n" "used fs x \<or> x \<in> N" for x
    using a(9) that unfolding free_sectors_def set_eq_iff n b(9) by blast
  have "used fs' x" if "x \<in> ?E \<union> N" for x
    using that u b(4,7) subsetD [OF a(8)] unfolding free_sectors_def b(9) by blast
  moreover have "(?E \<union> N) \<inter> file_sectors (cache_view view (cch fs)) FREE_MAP_SECTOR fd = {}" using a(8) b(3,6) by blast
  ultimately show ?thesis using a(2,5) unfolding growable_def Let_def a(3,7) by blast
qed

lemma grown_trans:
  assumes 1: "grown good view n os fs fd sec d c f1 d1 c1 N" and 2: "grown good view n os f1 fd sec d1 c1 f2 d2 c2 M"
    and gr: "growable view n fs fd sec d c" and c: "c1 \<le> DIRECT_CNT"
  shows "grown good view n os fs fd sec d c f2 d2 c2 (N \<union> M)"
proof -
  let ?v = "cache_view view (cch fs)" and ?v1 = "cache_view view (cch f1)" and ?v2 = "cache_view view (cch f2)"
  let ?F = "file_sectors ?v FREE_MAP_SECTOR fd"
  note a = grownD [OF 1 refl refl refl] and b = grownD [OF 2 refl refl refl] and g = growableD [OF gr refl refl]
  have fr: "M \<subseteq> free_sectors fs" "M \<inter> N = {}" "(N \<union> M) \<inter> ?F = {}" using a(8,9) b(8) g(6) by blast+
  have x: "?v2 x = ?v1 x" if "x \<notin> ?F \<union> M" for x using b(12) a(3) c that by simp
  show ?thesis
  proof (rule grownI [OF refl refl refl])
    show "alloc_holds good view n os fs ?v2 f2" using alloc_holds_trans [OF a(1) b(1)] .
    show "file_sectors ?v2 FREE_MAP_SECTOR fd = ?F" using a(3) b(3) by simp
    show "ext_set ?v2 sec d2 c2 = ext_set ?v sec d c \<union> (N \<union> M)" unfolding b(7) a(7) by (rule Un_assoc)
    show "d2 = d\<lparr>direct := direct d2, indirect := indirect d2\<rparr>" using a(10) b(10) by (cases d; cases d1; cases d2) simp
    show "sector_at ?v2 d2 k = sector_at ?v d k" if "k < c" for k using a(4,6) b(6) that by simp
    show "sector_at ?v2 d2 k \<in> N \<union> M \<and> ?v2 (sector_at ?v2 d2 k) = zeros" if "c \<le> k" "k < c2" for k
    proof (cases "k < c1")
      case True
      then have s: "sector_at ?v2 d2 k = sector_at ?v1 d1 k" "sector_at ?v1 d1 k \<in> N" "?v1 (sector_at ?v1 d1 k) = zeros"
        using a(11) b(6) that by simp_all
      then show ?thesis using x [of "sector_at ?v1 d1 k"] fr(2,3) by auto
    next
      case False
      then show ?thesis using b(11) that by simp
    qed
    show "?v2 x = ?v x" if "x \<notin> ?F \<union> (N \<union> M)" for x using x [of x] a(4,12) c that by simp
  qed (use a b fr in auto)
qed

lemma extent_app:
  assumes "\<And>k. k < c \<Longrightarrow> sector_at v' d' k = sector_at v d k" "\<And>k. k < length ss \<Longrightarrow> sector_at v' d' (c + k) = ss ! k"
  shows "extent v' d' (c + length ss) = extent v d c @ ss"
  by (rule nth_equalityI) (auto simp: extent_def nth_append assms, metis assms(2) le_add_diff_inverse nat_add_left_cancel_less not_le)

lemma ext_grow:
  assumes e: "ext_ok n v sec d c" and x: "extent v' d' c' = extent v d c @ ss" "ext_meta sec d' c' = ext_meta sec d c @ ts"
    and f: "distinct (ts @ ss)" "set (ts @ ss) \<inter> ext_set v sec d c = {}" "\<forall>a\<in>set (ts @ ss). a < n" "inode_fits d'" "c' \<le> DIRECT_CNT + INDIRECT_CNT"
  shows "ext_ok n v' sec d' c'" "ext_set v' sec d' c' = ext_set v sec d c \<union> set (ts @ ss)"
  using assms unfolding ext_ok_def by auto

lemma growable_free:
  assumes "growable view n fs fd sec d c" "s \<in> free_sectors fs" "v = cache_view view (cch fs)"
  shows "s < n" "s \<notin> ext_set v sec d c" "s \<notin> file_sectors v FREE_MAP_SECTOR fd" "s < 2 ^ 32"
proof -
  note g = growableD [OF assms(1,3) refl]
  show s: "s < n" using assms(2) by (simp add: free_sectors_def g(9))
  show "s \<notin> ext_set v sec d c" "s \<notin> file_sectors v FREE_MAP_SECTOR fd" using g(5,6) assms(2) by blast+
  show "s < 2 ^ 32" using g(1,9) s by (simp add: free_map_ok_def bitmap_ok_def)
qed

lemma table_sectors:
  assumes "length arr = 128" "124 \<le> c" "c + length ss \<le> 252" "arr' = take (c - 124) arr @ ss @ drop (c + length ss - 124) arr"
    "\<forall>a\<in>set (extent v d c). a < 2 ^ 32" "\<forall>a\<in>set ss. a < 2 ^ 32" "\<forall>j<c - 124. arr ! j = sector_at v d (124 + j)"
    "direct d' = direct d" "v' (indirect d') = of_words arr'"
  shows "k < c \<Longrightarrow> sector_at v' d' k = sector_at v d k" "k < length ss \<Longrightarrow> sector_at v' d' (c + k) = ss ! k"
proof -
  have l: "length arr' = 128" using assms(1-4) by simp
  have w: "to_words (v' (indirect d')) = map sz arr'" by (simp only: assms(9) to_words_of_words)
  have e: "sector_at v d k < 2 ^ 32" if "k < c" for k using assms(5) that by (simp add: extent_def)
  show "sector_at v' d' k = sector_at v d k" if k: "k < c"
  proof (cases "k < 124")
    case True
    then show ?thesis using assms(8) by (simp add: sector_at_def)
  next
    case False
    then have "k - 124 < c - 124" "124 + (k - 124) = k" using k by simp_all
    then have "arr' ! (k - 124) = sector_at v d k" using assms(1-3,7) by (simp add: assms(4) nth_append)
    then show ?thesis using False w l e [OF k] k assms(2,3) by (simp add: sector_at_def [of v'])
  qed
  show "sector_at v' d' (c + k) = ss ! k" if k: "k < length ss"
  proof -
    have i: "c + k - 124 < 128" "c + k - 124 = (c - 124) + k" using k assms(2,3) by linarith+
    have "length (take (c - 124) arr) = c - 124" using assms(1-3) by simp
    then have "arr' ! (c - 124 + k) = (ss @ drop (c + length ss - 124) arr) ! k"
      using nth_append_length_plus [of "take (c - 124) arr" "ss @ drop (c + length ss - 124) arr" k] by (simp only: assms(4))
    then have "arr' ! (c + k - 124) = ss ! k" unfolding i(2) using k by (simp add: nth_append)
    moreover have "ss ! k < 2 ^ 32" using assms(6) k by simp
    ultimately show ?thesis using w l i(1) assms(2) by (simp add: sector_at_def)
  qed
qed

lemma table_grown:
  assumes gr: "growable view n fs fd sec d c" and c: "DIRECT_CNT \<le> c" and T: "T = c + length ss" "c + length ss \<le> 252"
    and t: "d' = d\<lparr>indirect := indirect d'\<rparr>" "length arr = 128" "\<forall>j<c - 124. arr ! j = sector_at v d (124 + j)"
      "ts = (if c = 124 then [indirect d'] else [])" "c \<noteq> 124 \<longrightarrow> d' = d"
    and N: "set (ts @ ss) \<subseteq> free_sectors fs" "distinct (ts @ ss)" "free_sectors fs' = free_sectors fs - set (ts @ ss)" "indirect d' < n"
    and f: "alloc_holds good view n os fs v' fs'" "free_map_ok n v' fs' fd" "file_sectors v' FREE_MAP_SECTOR fd = F"
      "v' (indirect d') = of_words (take (c - 124) arr @ ss @ drop (c + length ss - 124) arr)"
      "\<forall>x. x \<notin> insert (indirect d') F \<longrightarrow> v' x = (if x \<in> set ss then zeros else v x)"
    and v: "v = cache_view view (cch fs)" "F = file_sectors v FREE_MAP_SECTOR fd" and ss: "ss \<noteq> []"
  shows "grown good view n os fs fd sec d c fs' d' T (set (ts @ ss))"
proof -
  note G = growableD [OF gr v]
  note ff = growable_free [OF gr subsetD [OF N(1)] v(1)]
  have n32: "x < 2 ^ 32" if "x < n" for x using G(1,9) that by (simp add: free_map_ok_def bitmap_ok_def)
  have dq: "direct d' = direct d" "doubly_indirect d' = doubly_indirect d" "ilength d' = ilength d" "magic d' = magic d"
    using t(1) by (cases d; cases d'; simp)+
  have "\<forall>x\<in>set (extent v d c). x < 2 ^ 32" using G(7) n32 by simp
  then have st: "k < c \<Longrightarrow> sector_at v' d' k = sector_at v d k" "k < length ss \<Longrightarrow> sector_at v' d' (c + k) = ss ! k" for k
    using table_sectors [OF t(2) c T(2) refl _ _ t(3) dq(1), of v' k] f(4) ff(4) by auto
  have x: "extent v' d' T = extent v d c @ ss" using extent_app [OF st] T(1) by simp
  have m: "ext_meta sec d' T = ext_meta sec d c @ ts" using c t(4,5) T(1) ss by (auto simp: ext_meta_def)
  have "inode_fits d" using G(2) by (simp add: ext_ok_def)
  then have fits: "inode_fits d'" using n32 [OF N(4)] by (simp add: inode_fits_def dq)
  have "set (ts @ ss) \<inter> ext_set v sec d c = {}" "\<forall>a\<in>set (ts @ ss). a < n" using ff by blast+
  note E = ext_grow [OF G(2) x m N(2) this fits]
  have iF: "indirect d' \<notin> set ss"
  proof (cases "c = 124")
    case False
    then have "indirect d' \<in> ext_set v sec d c" using t(5) c by (simp add: ext_meta_def)
    then show ?thesis using ff(2) by auto
  qed (use t(4) N(2) in simp)
  show ?thesis
  proof (rule grownI [OF v(1) _ v(2) f(1-3)])
    show "ext_ok n v' sec d' T" "ext_set v' sec d' T = ext_set v sec d c \<union> set (ts @ ss)" using E T by simp_all
    show "v' = cache_view view (cch fs')" using alloc_holdsD(2) [OF f(1)] by simp
    show "d' = d\<lparr>direct := direct d', indirect := indirect d'\<rparr>" using t(1) dq(1) by simp
    show "v' x = v x" if "x \<notin> F \<union> set (ts @ ss)" "\<not> (DIRECT_CNT < c \<and> x = indirect d)" for x using f(5) that t(4,5) c by auto
    show "sector_at v' d' k \<in> set (ts @ ss) \<and> v' (sector_at v' d' k) = zeros" if "c \<le> k" "k < T" for k
    proof -
      have "sector_at v' d' k = ss ! (k - c)" "ss ! (k - c) \<in> set ss" using st(2) [of "k - c"] that T(1) by simp_all
      moreover from this have "ss ! (k - c) \<notin> insert (indirect d') F" using iF ff(3) [of "ss ! (k - c)"] v(2) by auto
      ultimately show ?thesis using f(5) by simp
    qed
  qed (use st(1) N T in auto)
qed

lemma add_doubly_none [simp]: "add_doubly_indirect wr fs d cur 0 = Some (d, fs)"
  by (simp add: add_doubly_indirect_def)

lemma add_indirect_step:
  assumes "(if cur = 124 then do {
       (s, fs) \<leftarrow> free_map_allocate wr fs 1;
       Some (case s of None \<Rightarrow> d | Some s \<Rightarrow> d\<lparr>indirect := s\<rparr>, stack_array fs, fs) }
     else do { (bs, fs) \<leftarrow> fs_read fs (indirect d); Some (d, to_words bs, fs) }) = Some (d', arr, f1)"
    and "alloc_range wr f1 arr [nat (cur - 124)..<nat (min (tot - 124) 128)] False = Some (arr', b, f2)"
    and "fs_write f2 (indirect d') (of_words arr') = Some f3" and "0 < new" "cur < 252" "tot \<le> 252"
  shows "add_indirect wr fs d tot cur new = Some (d', tot, 0, f3)"
  unfolding add_indirect_def Let_def using assms by (simp del: Option.bind_assoc split del: if_split)

context cache_over
begin

lemma add_direct_ok:
  assumes g: "cache_good good n os (cch fs)" "mem_ok fs" and gr: "growable view n fs fd sec d c"
    and c: "c < DIRECT_CNT" "c < T" "min T DIRECT_CNT - c \<le> card (free_sectors fs)"
  shows "\<exists>d' fs' N. add_direct (inode_write_at (Suc k)) fs d (int T) (int c) (int (T - c)) =
      Some (d', int (min T DIRECT_CNT), int (T - min T DIRECT_CNT), fs') \<and>
    grown good view n os fs fd sec d c fs' d' (min T DIRECT_CNT) N \<and> card N = min T DIRECT_CNT - c"
proof -
  define e where "e = min T DIRECT_CNT"
  note G = growableD [OF gr refl refl]
  have dl: "length (direct d) = 124" "inode_fits d" using G(2) by (simp_all add: ext_ok_def inode_fits_def)
  have e: "c \<le> e" "e \<le> 124" using c by (simp_all add: e_def)
  from alloc_range_ok [OF g G(1), of e c "direct d" k False] e dl(1) c(3) obtain ss fs' v where
    a: "alloc_range (inode_write_at (Suc k)) fs (direct d) [c..<e] False = Some (take c (direct d) @ ss @ drop e (direct d), c < e, fs')"
    "length ss = e - c" "distinct ss" "set ss \<subseteq> free_sectors fs" "free_sectors fs' = free_sectors fs - set ss" "allocs_to fs v fs'"
    "free_map_ok n v fs' fd" "file_sectors v FREE_MAP_SECTOR fd = file_sectors (disk_of fs) FREE_MAP_SECTOR fd"
    "\<And>x. x \<notin> file_sectors (disk_of fs) FREE_MAP_SECTOR fd \<Longrightarrow> v x = (if x \<in> set ss then zeros else disk_of fs x)"
    unfolding e_def by auto
  define d' where "d' = d\<lparr>direct := take c (direct d) @ ss @ drop e (direct d)\<rparr>"
  have v: "v = disk_of fs'" using alloc_holdsD(2) [OF a(6)] by simp
  note ff = growable_free [OF gr subsetD [OF a(4)] refl]
  have s1: "sector_at v d' k = sector_at (disk_of fs) d k" if "k < c" for k using that c dl(1) by (simp add: sector_at_def d'_def nth_append)
  have s2: "sector_at v d' (c + k) = ss ! k" if "k < length ss" for k
  proof -
    have "c + k < 124" using that e a(2) by linarith
    then show ?thesis using that e dl(1) by (simp add: sector_at_def d'_def nth_append)
  qed
  have ce: "c + length ss = e" using a(2) e by simp
  have fits: "inode_fits d'" using dl ff(4) e a(2) unfolding inode_fits_def d'_def by (auto dest: in_set_takeD in_set_dropD)
  have x: "extent v d' e = extent (disk_of fs) d c @ ss" using extent_app [OF s1 s2] ce by simp
  have m: "ext_meta sec d' e = ext_meta sec d c @ []" using e c by (simp add: ext_meta_def)
  have "set ([] @ ss) \<inter> ext_set (disk_of fs) sec d c = {}" "\<forall>a\<in>set ([] @ ss). a < n" "distinct ([] @ ss)" using ff a(3) by auto
  note E = ext_grow [OF G(2) x m this(3,1,2) fits]
  have "grown good view n os fs fd sec d c fs' d' e (set ss)"
  proof (rule grownI [OF refl v refl a(6,7,8) e(1)])
    show "ext_ok n v sec d' e" "ext_set v sec d' e = ext_set (disk_of fs) sec d c \<union> set ss" using E e(2) by simp_all
    show "d' = d\<lparr>direct := direct d', indirect := indirect d'\<rparr>" by (simp add: d'_def)
    show "v x = disk_of fs x" if "x \<notin> file_sectors (disk_of fs) FREE_MAP_SECTOR fd \<union> set ss" for x using a(9) [of x] that by simp
    show "sector_at v d' k \<in> set ss \<and> v (sector_at v d' k) = zeros" if "c \<le> k" "k < e" for k
      using s2 [of "k - c"] a(2,9) ff(3) that by simp
  qed (use s1 a(4,5) in auto)
  moreover have "add_direct (inode_write_at (Suc k)) fs d (int T) (int c) (int (T - c)) = Some (d', int e, int (T - e), fs')"
    using a(1) c by (auto simp: add_direct_def d'_def e_def of_nat_diff min_def)
  moreover have "card (set ss) = e - c" using distinct_card [OF a(3)] a(2) by simp
  ultimately show ?thesis unfolding e_def by blast
qed

text \<open>The table of the singly indirect pointers: a fresh sector for it, or the one that the file has.\<close>

lemma indirect_table_ok:
  assumes g: "cache_good good n os (cch fs)" "mem_ok fs" and gr: "growable view n fs fd sec d c"
    and c: "DIRECT_CNT \<le> c" "c < DIRECT_CNT + INDIRECT_CNT" "c = DIRECT_CNT \<longrightarrow> free_sectors fs \<noteq> {}"
  shows "\<exists>d' arr ts fs' v.
    (if int c = 124 then do {
       (s, fs) \<leftarrow> free_map_allocate (inode_write_at (Suc k)) fs 1;
       Some (case s of None \<Rightarrow> d | Some s \<Rightarrow> d\<lparr>indirect := s\<rparr>, stack_array fs, fs) }
     else do { (bs, fs) \<leftarrow> fs_read fs (indirect d); Some (d, to_words bs, fs) }) = Some (d', arr, fs') \<and>
    d' = d\<lparr>indirect := indirect d'\<rparr> \<and> length arr = 128 \<and> (\<forall>j<c - 124. arr ! j = sector_at (disk_of fs) d (124 + j)) \<and>
    ts = (if c = 124 then [indirect d'] else []) \<and> (c \<noteq> 124 \<longrightarrow> d' = d) \<and>
    set ts \<subseteq> free_sectors fs \<and> free_sectors fs' = free_sectors fs - set ts \<and> allocs_to fs v fs' \<and>
    free_map_ok n v fs' fd \<and> file_sectors v FREE_MAP_SECTOR fd = file_sectors (disk_of fs) FREE_MAP_SECTOR fd \<and>
    (\<forall>x. x \<notin> file_sectors (disk_of fs) FREE_MAP_SECTOR fd \<longrightarrow> v x = disk_of fs x)"
proof (cases "c = 124")
  case True
  note G = growableD [OF gr refl refl]
  from free_map_allocate_ok [OF g G(1) mp [OF c(3) True], of k] obtain s f1 v where
    f1: "free_map_allocate (inode_write_at (Suc k)) fs 1 = Some (Some s, f1)" "s \<in> free_sectors fs" "allocs_to fs v f1"
    "bmap (free_map f1) = (bmap (free_map fs))[s := True]" "free_map_ok n v f1 fd"
    "file_sectors v FREE_MAP_SECTOR fd = file_sectors (disk_of fs) FREE_MAP_SECTOR fd"
    "\<forall>x. x \<notin> file_sectors (disk_of fs) FREE_MAP_SECTOR fd \<longrightarrow> v x = disk_of fs x" by blast
  have "s < n" "bit_cnt (free_map f1) = n" using growable_free(1) [OF gr f1(2) refl] f1(5) by (simp_all add: free_map_ok_def)
  then have "free_sectors f1 = free_sectors fs - {s}" unfolding free_sectors_def G(9) f1(4) by (auto simp: nth_list_update G(9))
  then show ?thesis using True f1 by (intro exI [of _ "d\<lparr>indirect := s\<rparr>"] exI [of _ "stack_array f1"] exI [of _ "[s]"] exI [of _ f1] exI [of _ v])
      (simp add: stack_array_def)
next
  case False
  note G = growableD [OF gr refl refl]
  have "indirect d \<in> ext_set (disk_of fs) sec d c" using False c(1) by (simp add: ext_meta_def)
  from G(7) [OF this] have i: "indirect d < n" .
  obtain f1 where f1: "fs_read fs (indirect d) = Some (disk_of fs (indirect d), f1)" "holds fs (disk_of fs) f1" using fs_read_ok [OF g(1) i] by auto
  note h1 = now_holdsD [OF f1(2)]
  have "length (to_words (disk_of fs (indirect d))) = 128" using cache_view_length [OF g(1) i] by simp
  moreover have "free_map_ok n (disk_of fs) f1 fd" using G(1) h1 by (simp add: free_map_ok_def opened_def writable_def)
  ultimately show ?thesis using False f1 c h1(6) now_alloc_holds [OF f1(2)]
    by (intro exI [of _ d] exI [of _ "to_words (disk_of fs (indirect d))"] exI [of _ "[]"] exI [of _ f1] exI [of _ "disk_of fs"])
      (auto simp: sector_at_def free_sectors_def)
qed

text \<open>Filling a range of a table of pointers and storing the table.\<close>

lemma fill_table_ok:
  assumes g: "cache_good good n os (cch fs)" "mem_ok fs" and m: "free_map_ok n (disk_of fs) fs fd"
    and i: "i < n" "i \<notin> file_sectors (disk_of fs) FREE_MAP_SECTOR fd" "i \<notin> free_sectors fs"
    and e: "e - a \<le> card (free_sectors fs)" "a \<le> e" "e \<le> 128" "length arr = 128"
  shows "\<exists>ss fs' v. do { (arr, _, fs) \<leftarrow> alloc_range (inode_write_at (Suc k)) fs arr [a..<e] False; fs_write fs i (of_words arr) } = Some fs' \<and>
    length ss = e - a \<and> distinct ss \<and> set ss \<subseteq> free_sectors fs \<and> free_sectors fs' = free_sectors fs - set ss \<and> allocs_to fs v fs' \<and>
    free_map_ok n v fs' fd \<and> file_sectors v FREE_MAP_SECTOR fd = file_sectors (disk_of fs) FREE_MAP_SECTOR fd \<and>
    v i = of_words (take a arr @ ss @ drop e arr) \<and>
    (\<forall>x. x \<notin> insert i (file_sectors (disk_of fs) FREE_MAP_SECTOR fd) \<longrightarrow> v x = (if x \<in> set ss then zeros else disk_of fs x))"
proof -
  let ?F = "file_sectors (disk_of fs) FREE_MAP_SECTOR fd"
  have e': "e \<le> length arr" using e by simp
  from alloc_range_ok [OF g m e(1,2) e', of k False] obtain ss f2 v2 where
    a: "alloc_range (inode_write_at (Suc k)) fs arr [a..<e] False = Some (take a arr @ ss @ drop e arr, False \<or> a < e, f2)"
    "length ss = e - a" "distinct ss" "set ss \<subseteq> free_sectors fs" "free_sectors f2 = free_sectors fs - set ss" "allocs_to fs v2 f2"
    "free_map_ok n v2 f2 fd" "file_sectors v2 FREE_MAP_SECTOR fd = ?F"
    "\<forall>x. x \<notin> ?F \<longrightarrow> v2 x = (if x \<in> set ss then zeros else disk_of fs x)"
    by - (elim exE conjE, rule that)
  define arr' where "arr' = take a arr @ ss @ drop e arr"
  define v3 where "v3 = v2(i := of_words arr')"
  note h2 = alloc_holdsD [OF a(6)]
  have la: "length (of_words arr') = BLOCK_SECTOR_SIZE" using a(2) e by (simp add: arr'_def)
  obtain f3 where f3: "fs_write f2 i (of_words arr') = Some f3" "holds f2 v3 f3"
    using fs_write_ok [OF h2(1) i(1) la] unfolding h2(2) v3_def by blast
  note h3 = now_holdsD [OF f3(2)]
  have "free_map_ok n v3 f3 fd" "file_sectors v3 FREE_MAP_SECTOR fd = ?F"
    using file_at_unused [of n v2 FREE_MAP_SECTOR fd i "of_words arr'"] a(7,8) i(2) h3 la
    by (simp_all add: free_map_ok_def opened_def writable_def v3_def)
  moreover have "allocs_to fs v3 f3" by (rule alloc_holds_trans [OF a(6) now_alloc_holds [OF f3(2)]])
  moreover have "free_sectors f3 = free_sectors fs - set ss" using a(5) h3(6) by (simp add: free_sectors_def)
  ultimately show ?thesis using a(1-4,9) f3(1)
    by (intro exI [of _ ss] exI [of _ f3] exI [of _ v3]) (simp add: v3_def arr'_def)
qed

lemma add_indirect_ok:
  assumes g: "cache_good good n os (cch fs)" "mem_ok fs" and gr: "growable view n fs fd sec d c"
    and c: "DIRECT_CNT \<le> c" "c < T" "T \<le> DIRECT_CNT + INDIRECT_CNT"
      "T - c + (if c = DIRECT_CNT then 1 else 0) \<le> card (free_sectors fs)"
  shows "\<exists>d' fs' N. add_indirect (inode_write_at (Suc k)) fs d (int T) (int c) (int (T - c)) = Some (d', int T, 0, fs') \<and>
    grown good view n os fs fd sec d c fs' d' T N"
proof -
  let ?F = "file_sectors (disk_of fs) FREE_MAP_SECTOR fd" and ?v = "disk_of fs"
  note G = growableD [OF gr refl refl]
  have fr: "c = DIRECT_CNT \<longrightarrow> free_sectors fs \<noteq> {}" using c(4) by auto
  have c': "c < DIRECT_CNT + INDIRECT_CNT" using c by simp
  from indirect_table_ok [OF g gr c(1) c' fr, of k] obtain d' arr ts f1 v1 where
    t: "(if int c = 124 then do {
       (s, fs) \<leftarrow> free_map_allocate (inode_write_at (Suc k)) fs 1;
       Some (case s of None \<Rightarrow> d | Some s \<Rightarrow> d\<lparr>indirect := s\<rparr>, stack_array fs, fs) }
     else do { (bs, fs) \<leftarrow> fs_read fs (indirect d); Some (d, to_words bs, fs) }) = Some (d', arr, f1)"
    "d' = d\<lparr>indirect := indirect d'\<rparr>" "length arr = 128" "\<forall>j<c - 124. arr ! j = sector_at ?v d (124 + j)"
    "ts = (if c = 124 then [indirect d'] else [])" "c \<noteq> 124 \<longrightarrow> d' = d"
    "set ts \<subseteq> free_sectors fs" "free_sectors f1 = free_sectors fs - set ts" "allocs_to fs v1 f1"
    "free_map_ok n v1 f1 fd" "file_sectors v1 FREE_MAP_SECTOR fd = ?F" "\<forall>x. x \<notin> ?F \<longrightarrow> v1 x = ?v x"
    by - (elim exE conjE, rule that)
  note h1 = alloc_holdsD [OF t(9)]
  have "indirect d' \<in> ext_set ?v sec d c" if "c \<noteq> 124" using that t(6) c(1) by (simp add: ext_meta_def)
  then have i: "indirect d' < n" "indirect d' \<notin> ?F" "indirect d' \<notin> free_sectors f1"
    using growable_free [OF gr subsetD [OF t(7)] refl, of "indirect d'"] G(3,5,7) unfolding t(8) t(5) by (cases "c = 124"; auto)+
  have fin: "finite (free_sectors fs)" by (simp add: free_sectors_def)
  have "T - c \<le> card (free_sectors f1)" using c(4) t(5,7) fin unfolding t(8) by (cases "c = 124") (simp_all add: card_Diff_singleton)
  then have e: "(T - 124) - (c - 124) \<le> card (free_sectors f1)" "c - 124 \<le> T - 124" "T - 124 \<le> 128" using c by simp_all
  have "mem_ok f1" using h1 g(2) by simp
  from fill_table_ok [OF h1(1) this, unfolded h1(2), OF t(10), unfolded t(11), OF i e t(3), of k] obtain ss f3 v3 where
    a: "do { (arr, _, fs) \<leftarrow> alloc_range (inode_write_at (Suc k)) f1 arr [c - 124..<T - 124] False; fs_write fs (indirect d') (of_words arr) } = Some f3"
    "length ss = T - 124 - (c - 124)" "distinct ss" "set ss \<subseteq> free_sectors f1" "free_sectors f3 = free_sectors f1 - set ss" "allocs_to f1 v3 f3"
    "free_map_ok n v3 f3 fd" "file_sectors v3 FREE_MAP_SECTOR fd = ?F"
    "v3 (indirect d') = of_words (take (c - 124) arr @ ss @ drop (T - 124) arr)"
    "\<forall>x. x \<notin> insert (indirect d') ?F \<longrightarrow> v3 x = (if x \<in> set ss then zeros else v1 x)"
    by - (elim exE conjE, rule that)
  have T: "T = c + length ss" "c + length ss \<le> 252" using a(2) c by linarith+
  have N: "set (ts @ ss) \<subseteq> free_sectors fs" "distinct (ts @ ss)" "free_sectors f3 = free_sectors fs - set (ts @ ss)"
    using t(5,7,8) a(3-5) i(3) by auto
  have "allocs_to fs v3 f3" by (rule alloc_holds_trans [OF t(9) a(6)])
  moreover have "\<forall>x. x \<notin> insert (indirect d') ?F \<longrightarrow> v3 x = (if x \<in> set ss then zeros else ?v x)" using a(10) t(12) by simp
  ultimately have "grown good view n os fs fd sec d c f3 d' T (set (ts @ ss))"
    using table_grown [OF gr c(1) T t(2-6) N i(1) _ a(7,8) a(9) [unfolded T(1)]] T c(2) by fastforce
  moreover have "add_indirect (inode_write_at (Suc k)) fs d (int T) (int c) (int (T - c)) = Some (d', int T, 0, f3)"
  proof -
    obtain arr' b f2 where "alloc_range (inode_write_at (Suc k)) f1 arr [c - 124..<T - 124] False = Some (arr', b, f2)"
      "fs_write f2 (indirect d') (of_words arr') = Some f3" using a(1) by (auto simp: monad_simps)
    moreover have "nat (int c - 124) = c - 124" "nat (min (int T - 124) 128) = T - 124" "min (int T) 252 = int T" using c by (auto simp: min_def)
    ultimately show ?thesis using add_indirect_step [OF t(1)] c by (simp del: inode_write_at.simps)
  qed
  ultimately show ?thesis by blast
qed

lemma add_inode_ok:
  assumes g: "cache_good good n os (cch fs)" "mem_ok fs" and gr: "growable view n fs fd sec d c"
    and c: "sectors_for (ilength d) = int c" "sectors_for m = int T" "c < T" "T \<le> DIRECT_CNT + INDIRECT_CNT"
      "T - c + (if c \<le> DIRECT_CNT \<and> DIRECT_CNT < T then 1 else 0) \<le> card (free_sectors fs)"
  shows "\<exists>d' fs' N. add_inode (inode_write_at (Suc k)) fs d m = Some (d'\<lparr>ilength := m\<rparr>, fs') \<and>
    grown good view n os fs fd sec d c fs' d' T N"
proof -
  let ?w = "inode_write_at (Suc k)"
  have new: "int T - int c = int (T - c)" "\<not> int (T - c) \<le> 0" using c(3) by simp_all
  have un: "add_inode ?w fs d m = do {
      (d, cur, new, fs) \<leftarrow> add_direct ?w fs d (int T) (int c) (int (T - c));
      (d, cur, new, fs) \<leftarrow> add_indirect ?w fs d (int T) cur new;
      (d, fs) \<leftarrow> add_doubly_indirect ?w fs d cur new;
      Some (d\<lparr>ilength := m\<rparr>, fs) }"
    unfolding add_inode_def Let_def c(1,2) new(1) if_not_P [OF new(2)] ..
  show ?thesis
  proof (cases "c < 124")
    case True
    define e where "e = min T DIRECT_CNT"
    have "e - c \<le> card (free_sectors fs)" using c(3,5) by (simp add: e_def split: if_splits)
    from add_direct_ok [OF g gr True c(3) this [unfolded e_def], of k] obtain d1 f1 N where
      a: "add_direct ?w fs d (int T) (int c) (int (T - c)) = Some (d1, int e, int (T - e), f1)"
      "grown good view n os fs fd sec d c f1 d1 e N" "card N = e - c" unfolding e_def by blast
    note D = grownD [OF a(2) refl refl refl] and gr1 = grown_growable [OF a(2) gr]
    show ?thesis
    proof (cases "T \<le> 124")
      case True
      then have e: "e = T" by (simp add: e_def)
      have "add_indirect ?w f1 d1 (int T) (int T) 0 = Some (d1, int T, 0, f1)" by (simp add: add_indirect_def)
      then have "add_inode ?w fs d m = Some (d1\<lparr>ilength := m\<rparr>, f1)" using a(1) unfolding un e by (simp del: inode_write_at.simps)
      then show ?thesis using a(2) e by blast
    next
      case False
      then have e: "e = 124" by (simp add: e_def)
      have "finite (free_sectors fs)" by (simp add: free_sectors_def)
      then have "card (free_sectors f1) = card (free_sectors fs) - (124 - c)"
        using card_Diff_subset [OF finite_subset [OF D(8)] D(8)] a(3) e unfolding D(9) by simp
      then have "T - 124 + (if (124::nat) = DIRECT_CNT then 1 else 0) \<le> card (free_sectors f1)" using c(3,5) True False by simp
      moreover have "cache_good good n os (cch f1)" "mem_ok f1" using alloc_holdsD [OF D(1)] g(2) by simp_all
      ultimately obtain d2 f2 M where b: "add_indirect ?w f1 d1 (int T) (int 124) (int (T - 124)) = Some (d2, int T, 0, f2)"
        "grown good view n os f1 fd sec d1 124 f2 d2 T M"
        using add_indirect_ok [OF _ _ gr1 [unfolded e], of T k] c(4) False by auto
      from grown_trans [OF a(2) [unfolded e] b(2) gr] have "grown good view n os fs fd sec d c f2 d2 T (N \<union> M)" by simp
      moreover have "add_inode ?w fs d m = Some (d2\<lparr>ilength := m\<rparr>, f2)"
        using a(1) b(1) unfolding un e by (simp del: inode_write_at.simps)
      ultimately show ?thesis by blast
    qed
  next
    case False
    then have "T - c + (if c = DIRECT_CNT then 1 else 0) \<le> card (free_sectors fs)" using c(3,5) by (auto split: if_splits)
    from add_indirect_ok [OF g gr _ c(3,4) this, of k] False obtain d' f' N where
      b: "add_indirect ?w fs d (int T) (int c) (int (T - c)) = Some (d', int T, 0, f')" "grown good view n os fs fd sec d c f' d' T N" by auto
    have "add_direct ?w fs d (int T) (int c) (int (T - c)) = Some (d, int c, int (T - c), fs)" using False by (simp add: add_direct_def)
    then have "add_inode ?w fs d m = Some (d'\<lparr>ilength := m\<rparr>, f')" using b(1) unfolding un by (simp del: inode_write_at.simps)
    then show ?thesis using b(2) by blast
  qed
qed

end

end
