(* ===== verification/Inode_Append.thy ===== *)
theory Inode_Append
  imports Inode_Grow
begin

text \<open>
  \<^verbatim>\<open>inode_write_at\<close> as a whole, with and without growth, and its composition with \<^verbatim>\<open>inode_read_at\<close>.
\<close>

lemma grown_file:
  assumes gw: "grown good view n os fs fd sec d c fs' d' T N" and gr: "growable view n fs fd sec d c"
    and f: "file_at n v sec d" and len: "\<And>a. a < n \<Longrightarrow> length (v' a) = BLOCK_SECTOR_SIZE"
    and c: "c = data_cnt d" "sectors_for m = int T" "ilength d \<le> m" "m < 2 ^ 31"
    and v: "v = cache_view view (cch fs)" "v' = cache_view view (cch fs')" and d1: "d1 = d'\<lparr>ilength := m\<rparr>" and v1: "v1 = v'(sec := enc_inode d1)"
  shows "file_at n v1 sec d1" "data_sectors v1 d1 = extent v' d' T" "take (nat (ilength d)) (content v1 d1) = content v d"
proof -
  note D = grownD [OF gw v refl] and G = growableD [OF gr v(1) refl]
  have E: "T \<le> 252" "inode_fits d'" "\<forall>a\<in>ext_set v' sec d' T. a < n" "distinct (ext_meta sec d' T @ extent v' d' T)"
    using D(5) by (simp_all add: ext_ok_def)
  have T: "data_cnt d1 = T" using c(2) by (simp add: data_cnt_def d1)
  have L: "0 \<le> ilength d" using file_atD(7) [OF f] .
  have fits: "inode_fits d1" using E(2) c(3,4) L by (simp add: inode_fits_def d1)
  have sat: "sector_at v1 d1 k = sector_at v' d' k" if "k < T" for k
  proof (cases "k < 124")
    case False
    then have "indirect d' \<noteq> sec" using E(4) that by (auto simp: ext_meta_def)
    then show ?thesis using False by (simp add: sector_at_def d1 v1)
  qed (simp add: sector_at_def d1)
  then show ds: "data_sectors v1 d1 = extent v' d' T" by (simp add: data_sectors_def extent_def T)
  have m: "meta_sectors sec d1 = ext_meta sec d' T" unfolding meta_sectors_def ext_meta_def T by (simp add: d1)
  have "length (v1 a) = BLOCK_SECTOR_SIZE" if "a < n" for a
    using len [OF that] enc_inode_length [of d1] fits by (simp add: v1 inode_fits_def)
  moreover have "dec_inode (v1 sec) = d1" using dec_enc_inode [OF fits] by (simp add: v1)
  moreover have "inode_ok n v1 d1" unfolding inode_ok_def T ds using fits E(1,3) c(3) L by (auto simp: d1 ext_meta_def)
  ultimately show "file_at n v1 sec d1" using E(3,4) unfolding file_at_def ds m by (simp add: ext_meta_def)
  show "take (nat (ilength d)) (content v1 d1) = content v d"
  proof (rule nth_equalityI)
    show "length (take (nat (ilength d)) (content v1 d1)) = length (content v d)" using c(3) by (simp add: d1)
    fix p assume "p < length (take (nat (ilength d)) (content v1 d1))"
    then have p: "p < nat (ilength d)" "p < nat (ilength d1)" by simp_all
    then have k: "p div 512 < c" using div_data_cnt [OF L, of p] c(1) by simp
    let ?s = "sector_at v d (p div 512)"
    have s: "sector_at v1 d1 (p div 512) = ?s" using sat [of "p div 512"] D(4,6) k by simp
    have se: "?s \<in> set (extent v d c)" using k by (simp add: extent_def)
    then have "?s \<noteq> sec" "124 < c \<Longrightarrow> ?s \<noteq> indirect d" using G(2) by (auto simp: ext_ok_def ext_meta_def)
    moreover have "?s \<notin> file_sectors v FREE_MAP_SECTOR fd \<union> N" using se G(3,5) D(8) by auto
    ultimately have "v1 ?s = v ?s" using D(12) by (auto simp: v1)
    then show "take (nat (ilength d)) (content v1 d1) ! p = content v d ! p" using p s by (simp add: byte_at_def)
  qed
qed

text \<open>The number of free sectors that growing from \<open>c\<close> to \<open>T\<close> data sectors takes.\<close>

definition sectors_needed :: "nat \<Rightarrow> nat \<Rightarrow> nat" where
  "sectors_needed c T = (if T \<le> c then 0 else T - c + (if c \<le> DIRECT_CNT \<and> DIRECT_CNT < T then 1 else 0))"

lemma now_free_map_ok:
  assumes "now_holds good view n os fs v' fs'"
  shows "free_map_ok N v fs' fd = free_map_ok N v fs fd" "free_sectors fs' = free_sectors fs"
  using now_holdsD [OF assms] by (simp_all add: free_map_ok_def opened_def writable_def free_sectors_def)

lemma now_growable:
  assumes "now_holds good view n os fs (cache_view view (cch fs)) fs'"
  shows "growable view N fs' fd sec d c = growable view N fs fd sec d c" "free_sectors fs' = free_sectors fs"
  using now_holdsD [OF assms] now_free_map_ok [OF assms] by (simp_all add: growable_def)

lemma free_map_ok_now:
  assumes "now_holds good view n os fs v' fs'" "free_map_ok n v fs fd" "F = file_sectors v FREE_MAP_SECTOR fd"
    "\<And>a. a \<in> F \<Longrightarrow> v' a = v a" "\<And>a. a < n \<Longrightarrow> length (v' a) = BLOCK_SECTOR_SIZE"
  shows "free_map_ok n v' fs' fd"
proof -
  have f: "file_at n v FREE_MAP_SECTOR fd" using assms(2) by (simp add: free_map_ok_def)
  have "v' a = v a" if "a \<in> set (meta_sectors FREE_MAP_SECTOR fd)" for a using assms(3,4) that by (simp add: file_sectors_def)
  note c = file_at_cong [OF f this assms(5)]
  then have "file_sectors v' FREE_MAP_SECTOR fd = file_sectors v FREE_MAP_SECTOR fd" by (simp add: file_sectors_def)
  then show ?thesis using assms(2) c(1) unfolding now_free_map_ok(1) [OF assms(1)] by (simp add: free_map_ok_def)
qed

context cache_over
begin

lemma inode_write_grow:
  assumes g: "cache_good good n os (cch fs)" "mem_ok fs" and i: "opened n fs i sec" "writable fs i"
    and f: "file_at n (disk_of fs) sec d" and gr: "growable view n fs fd sec d (data_cnt d)"
    and p: "int p \<le> ilength d" "int (p + l) < 2 ^ 31" "l \<le> length buf"
    and T: "sectors_for (int (p + l)) = int T" "data_cnt d < T" "T \<le> DIRECT_CNT + INDIRECT_CNT"
      "T - data_cnt d + (if data_cnt d \<le> DIRECT_CNT \<and> DIRECT_CNT < T then 1 else 0) \<le> card (free_sectors fs)"
  shows "\<exists>fs' v d'. inode_write_body (inode_write_at (Suc k)) fs i buf (int l) (int p) = Some (int l, fs') \<and> allocs_to fs v fs' \<and>
    file_at n v sec d' \<and> ilength d' = int (p + l) \<and> free_map_ok n v fs' fd \<and>
    content v d' = splice_bytes (content (disk_of fs) d) p (take l buf) \<and>
    (\<forall>a. used fs a \<longrightarrow> a < n \<longrightarrow> a \<notin> file_sectors (disk_of fs) sec d \<union> file_sectors (disk_of fs) FREE_MAP_SECTOR fd \<longrightarrow> v a = disk_of fs a)"
proof -
  let ?v = "disk_of fs" and ?F = "file_sectors (disk_of fs) FREE_MAP_SECTOR fd" and ?w = "inode_write_at (Suc k)" and ?m = "int (p + l)"
  obtain nd where nd: "inodes fs i = Some nd" "isector nd = sec" "sec < n" "deny_write_cnt nd = 0"
    using i by (auto simp: opened_def writable_def)
  obtain f1 where f1: "fs_read fs sec = Some (?v sec, f1)" "holds fs ?v f1" using fs_read_ok [OF g(1) nd(3)] by auto
  note h1 = now_holdsD [OF f1(2)]
  have L: "0 \<le> ilength d" using file_atD(7) [OF f] .
  have c: "sectors_for (ilength d) = int (data_cnt d)" using L by (simp add: data_cnt_def sectors_for_eq)
  have lm: "ilength d \<le> ?m" using sectors_for_mono [of ?m "ilength d"] c T(1,2) by linarith
  have gr1: "growable view n f1 fd sec d (data_cnt d)" "free_sectors f1 = free_sectors fs" using gr now_growable [OF f1(2)] by simp_all
  have mem1: "mem_ok f1" using h1 g(2) by simp
  from add_inode_ok [OF h1(1) mem1 gr1(1) c T(1-3), unfolded gr1(2), OF T(4), of k] obtain d' f2 N where
    a: "add_inode ?w f1 d ?m = Some (d'\<lparr>ilength := ?m\<rparr>, f2)" "grown good view n os f1 fd sec d (data_cnt d) f2 d' T N" by blast
  define d1 where "d1 = d'\<lparr>ilength := ?m\<rparr>"
  define v1 where "v1 = (disk_of f2)(sec := enc_inode d1)"
  note D = grownD [OF a(2) h1(2) [symmetric] refl refl] and h2 = alloc_holdsD [OF grownD(1) [OF a(2) refl refl refl]]
  note gf = grown_file [OF a(2) gr1(1) f cache_view_length [OF h2(1)] refl T(1) lm p(2) h1(2) [symmetric] refl d1_def v1_def]
  note G2 = growableD [OF grown_growable [OF a(2) gr1(1)] refl refl]
  have "opened n f2 i sec" "mem_ok f2" "p + l \<le> nat (ilength d1)" using i(1) h1 h2 mem1 by (simp_all add: d1_def opened_def)
  from write_tail_ok [OF h2(1) this(2,1) v1_def gf(1) this(3) p(3)] obtain f3 v3 where
    w: "do { fs \<leftarrow> fs_write f2 sec (enc_inode d1); (m, fs) \<leftarrow> write_loop fs i buf (int l) (int p) 0;
      fs \<leftarrow> fs_write fs sec (enc_inode d1); Some (m, fs) } = Some (int l, f3)" "holds f2 v3 f3"
    "file_at n v3 sec d1" "\<And>a. a \<notin> set (data_sectors v1 d1) \<Longrightarrow> v3 a = v1 a"
    "content v3 d1 = splice_bytes (content v1 d1) p (take l buf)" by blast
  have v3: "v3 a = disk_of f2 a" if "a \<notin> ext_set (disk_of f2) sec d' T" for a
    using w(4) [of a] that gf(2) by (auto simp: v1_def ext_meta_def)
  have "s32 (int l + int p) = ?m" using s32_id [of ?m] p(2) by (simp add: add.commute)
  then have "inode_write_body ?w fs i buf (int l) (int p) = Some (int l, f3)"
    using nd f1(1) a(1) w(1) file_atD(2) [OF f] by (simp add: inode_write_body_def d1_def del: inode_write_at.simps)
  moreover have "allocs_to fs v3 f3" using alloc_holds_trans [OF now_alloc_holds [OF f1(2)] alloc_holds_trans [OF D(1) now_alloc_holds [OF w(2)]]] .
  moreover have "v3 a = disk_of f2 a" if "a \<in> file_sectors (disk_of f2) FREE_MAP_SECTOR fd" for a using v3 [of a] G2(3) that by blast
  then have "free_map_ok n v3 f3 fd" by (rule free_map_ok_now [OF w(2) D(2) refl]) (assumption, rule file_atD(4) [OF w(3)])
  moreover have "content v3 d1 = splice_bytes (content ?v d) p (take l buf)"
    unfolding w(5) using gf(3) p(1,3) lm L by (intro splice_longer) (auto simp: d1_def nat_le_iff)
  moreover have "v3 a = ?v a" if a: "used fs a" "a < n" "a \<notin> file_sectors ?v sec d \<union> ?F" for a
  proof -
    have "a \<notin> free_sectors fs" using a(1) by (simp add: free_sectors_def)
    then have "a \<notin> N" "a \<notin> ext_set ?v sec d (data_cnt d)" using D(8) gr1(2) a(3) file_at_ext(2) [OF f] by auto
    then have "v3 a = disk_of f2 a" "\<not> (DIRECT_CNT < data_cnt d \<and> a = indirect d)" using v3 [of a] D(7) by (auto simp: ext_meta_def)
    then show ?thesis using D(12) a(3) \<open>a \<notin> N\<close> by simp
  qed
  ultimately show ?thesis using w(3) by (intro exI [of _ f3] exI [of _ v3] exI [of _ d1]) (simp add: d1_def)
qed

lemma inode_write_ok:
  assumes g: "cache_good good n os (cch fs)" "mem_ok fs" and i: "opened n fs i sec" "writable fs i"
    and f: "file_at n (disk_of fs) sec d" and gr: "growable view n fs fd sec d (data_cnt d)"
    and p: "int p \<le> ilength d" "int (p + l) < 2 ^ 31" "l \<le> length buf"
    and T: "T = nat (sectors_for (int (p + l)))" "T \<le> DIRECT_CNT + INDIRECT_CNT" "sectors_needed (data_cnt d) T \<le> card (free_sectors fs)"
  shows "\<exists>fs' v d'. inode_write_at (Suc (Suc k)) fs i buf (int l) (int p) = Some (int l, fs') \<and> allocs_to fs v fs' \<and>
    file_at n v sec d' \<and> ilength d' = max (ilength d) (int (p + l)) \<and> free_map_ok n v fs' fd \<and>
    content v d' = splice_bytes (content (disk_of fs) d) p (take l buf) \<and>
    (\<forall>a. used fs a \<longrightarrow> a < n \<longrightarrow> a \<notin> file_sectors (disk_of fs) sec d \<union> file_sectors (disk_of fs) FREE_MAP_SECTOR fd \<longrightarrow> v a = disk_of fs a)"
proof (cases "data_cnt d < T")
  case True
  have L: "0 \<le> ilength d" using file_atD(7) [OF f] .
  have sT: "sectors_for (int (p + l)) = int T" using T(1) by (simp add: sectors_for_eq)
  have "ilength d \<le> int (p + l)"
    using sectors_for_mono [of "int (p + l)" "ilength d"] sT True L by (simp add: data_cnt_def zless_nat_eq_int_zless) linarith
  then show ?thesis using inode_write_grow [OF g i f gr p sT True T(2), of k] T(3) True by (simp add: sectors_needed_def max_def)
next
  case False
  let ?d' = "d\<lparr>ilength := max (ilength d) (int (p + l))\<rparr>"
  have "0 \<le> sectors_for (ilength d)" using file_atD(7) [OF f] by (simp add: sectors_for_eq)
  then have "sectors_for (int (p + l)) \<le> sectors_for (ilength d)"
    using False unfolding T(1) data_cnt_def not_less by (simp only: nat_le_eq_zle)
  from inode_write_in_place [OF g i f p this refl, of "inode_write_at (Suc k)"] obtain fs' v where
    w: "inode_write_body (inode_write_at (Suc k)) fs i buf (int l) (int p) = Some (int l, fs')" "holds fs v fs'" "file_at n v sec ?d'"
    "\<And>a. a \<notin> insert sec (set (data_sectors (disk_of fs) d)) \<Longrightarrow> v a = disk_of fs a"
    "content v ?d' = splice_bytes (content (disk_of fs) d) p (take l buf)" by blast
  note G = growableD [OF gr refl refl]
  have sub: "insert sec (set (data_sectors (disk_of fs) d)) \<subseteq> file_sectors (disk_of fs) sec d" by (auto simp: file_sectors_def meta_sectors_def)
  have "v a = disk_of fs a" if "a \<in> file_sectors (disk_of fs) FREE_MAP_SECTOR fd" for a
    using w(4) [of a] sub G(3) that unfolding file_at_ext(2) [OF f] by blast
  then have "free_map_ok n v fs' fd" by (rule free_map_ok_now [OF w(2) G(1) refl]) (assumption, rule file_atD(4) [OF w(3)])
  moreover have "v a = disk_of fs a" if "a \<notin> file_sectors (disk_of fs) sec d" for a using w(4) sub that by blast
  ultimately show ?thesis using w(1,3,5) now_alloc_holds [OF w(2)] by (intro exI [of _ fs'] exI [of _ v] exI [of _ ?d']) auto
qed

end

section \<open>A sample file system with a free map\<close>

definition map_inode :: inode_disk where
  "map_inode = \<lparr>direct = 2 # replicate 123 0, indirect = 0, doubly_indirect = 0, ilength = 8, magic = INODE_MAGIC\<rparr>"

definition full_sectors :: "sector_data list" where
  "full_sectors = sample_sectors[0 := enc_inode map_inode]"

definition full_fs :: "sector_data list fs" where
  "full_fs = sample_fs\<lparr>cch := fresh_cache (block_register BLOCK_FILESYS 40 (ram_ops 40) full_sectors) (\<lambda>_. True),
     inodes := (inodes sample_fs)(7 \<mapsto> \<lparr>isector = 0, open_cnt = 1, removed = False, deny_write_cnt = 0\<rparr>),
     open_inodes := [5, 7], files := [8 \<mapsto> \<lparr>finode = 7, pos = 0, deny_write = False\<rparr>], free_map_file := 8, next_obj := 9,
     free_map := \<lparr>bit_cnt = 40, bits = [0x0C0F, 0]\<rparr>\<rparr>"

abbreviation full_view :: disk where
  "full_view \<equiv> cache_view ram_view (cch full_fs)"

lemma map_fits: "inode_fits map_inode"
  by (auto simp: inode_fits_def map_inode_def INODE_MAGIC_def)

lemma sectors_512: "\<forall>x\<in>set full_sectors. length x = 512" "length full_sectors = 40"
  using enc_inode_length [of sample_inode] enc_inode_length [of map_inode]
  by (auto simp: full_sectors_def sample_sectors_def sample_inode_def map_inode_def dest!: set_update_subset_insert [THEN subsetD])

lemma full_good: "cache_good (ram_good 40) 40 (ram_ops 40) (cch full_fs)" "full_view = ram_view full_sectors"
proof -
  have "block_good (ram_good 40) 40 (ram_ops 40) (block_register BLOCK_FILESYS 40 (ram_ops 40) full_sectors)"
    using sectors_512 by (simp add: block_good_def ram_good_def block_register_def list_all_iff)
  from ram_cache.fresh_cache_good [OF this]
  show "cache_good (ram_good 40) 40 (ram_ops 40) (cch full_fs)" "full_view = ram_view full_sectors"
    by (simp_all add: full_fs_def block_view_def block_register_def)
qed

lemma full_opened: "opened 40 full_fs 5 3" "mem_ok full_fs" "writable full_fs 5"
  by (simp_all add: opened_def full_fs_def sample_fs_def mem_ok_def writable_def)

lemma full_dec: "dec_inode (full_view 3) = sample_inode" "dec_inode (full_view 0) = map_inode"
  using dec_enc_inode [OF sample_fits] dec_enc_inode [OF map_fits]
  by (simp_all add: full_good(2) ram_view_def full_sectors_def sample_sectors_def)

lemma map_data: "data_cnt map_inode = 1" "data_sectors v map_inode = [2]"
proof -
  show "data_cnt map_inode = 1" by (simp add: data_cnt_def sectors_for_eq map_inode_def)
  then show "data_sectors v map_inode = [2]" by (simp add: data_sectors_def sector_at_def upt_rec) (simp add: map_inode_def)
qed

lemma full_file: "file_at 40 full_view 3 sample_inode" "file_at 40 full_view FREE_MAP_SECTOR map_inode"
proof -
  have "\<forall>a<40. length (full_view a) = 512" using sectors_512 by (simp add: full_good(2) ram_view_def)
  then show "file_at 40 full_view 3 sample_inode" "file_at 40 full_view FREE_MAP_SECTOR map_inode"
    using full_dec sample_ok map_fits
    by (simp_all add: file_at_def meta_sectors_def sample_data map_data) (simp_all add: inode_ok_def map_data, simp add: map_inode_def)
qed

lemma full_used: "free_map full_fs = \<lparr>bit_cnt = 40, bits = [0x0C0F, 0]\<rparr>"
  "a < 32 \<Longrightarrow> used full_fs a \<longleftrightarrow> bit (0x0C0F :: u32) a"
  by (simp_all add: full_fs_def bit_at_def)

lemma full_growable: "growable ram_view 40 full_fs map_inode 3 sample_inode (data_cnt sample_inode)"
proof -
  note e = file_at_ext [OF full_file(1)]
  have s: "file_sectors full_view 3 sample_inode = {3, 10, 11}" "file_sectors full_view FREE_MAP_SECTOR map_inode = {0, 2}"
    by (auto simp: file_sectors_def meta_sectors_def sample_data map_data)
  have "free_map_ok 40 full_view full_fs map_inode"
    using full_file(2) s by (simp add: free_map_ok_def full_used(2)) (simp add: full_used(1) bitmap_ok_def elem_cnt_def DIV_ROUND_UP_def byte_cnt_def opened_def writable_def full_fs_def map_inode_def bit_simps)
  then show ?thesis using e s by (simp add: growable_def full_used(2))
qed

lemma full_free: "0 < card (free_sectors full_fs)"
proof -
  have "20 \<in> free_sectors full_fs" by (simp add: free_sectors_def full_used(2)) (simp add: full_used(1))
  moreover have "finite (free_sectors full_fs)" by (simp add: free_sectors_def)
  ultimately show ?thesis using card_gt_0_iff by blast
qed

section \<open>Reading outside a block\<close>

lemma cache_read_invalid:
  assumes "cache_good good n os c" "n \<le> a"
  shows "cache_read c a = None"
proof -
  have "a \<notin> sectors (live c)" using assms by (auto simp: cache_good_def list_all_iff entry_good_def)
  then have "cached (live c) a = None" by (rule cached_not_in)
  moreover have "check_sector (fs_device c) a = None" using assms by (simp add: cache_good_def block_good_def check_sector_def)
  ultimately show ?thesis by (simp add: cache_read_def read_scan_eq block_read_def flip: live_def)
qed

context cache_over
begin

lemma read_sector_beyond:
  assumes "cache_good good n os (cch fs)" "128 \<le> k"
  shows "read_sector fs a k = None"
proof -
  obtain f1 where f1: "snd (fs_malloc fs) = f1" "cache_good good n os (cch f1)"
    using assms(1) malloc_keeps [of "cch fs"] by (auto simp: fs_malloc_def malloc_def)
  show ?thesis
  proof (cases "a < n")
    case True
    obtain f2 where "fs_read f1 a = Some (disk_of f1 a, f2)" using fs_read_ok [OF f1(2) True] by blast
    moreover have "length (disk_of f1 a) = 512" using cache_view_length [OF f1(2) True] .
    ultimately show ?thesis using assms(2) f1(1) by (auto simp: read_sector_def int_get_def idx_get_def split: prod.split)
  next
    case False
    then show ?thesis using cache_read_invalid [OF f1(2), of a] f1(1) by (auto simp: read_sector_def fs_read_def split: prod.split)
  qed
qed

lemma read_sector_good:
  assumes "cache_good good n os (cch fs)" "read_sector fs a k = Some (s, fs')"
  shows "cache_good good n os (cch fs')"
proof -
  obtain ok f1 bs where f1: "fs_malloc fs = (ok, f1)" "fs_read f1 a = Some (bs, fs')"
    using assms(2) by (auto simp: read_sector_def monad_simps split: prod.splits)
  have g: "cache_good good n os (cch f1)" using assms(1) f1(1) malloc_keeps [of "cch fs"] by (auto simp: fs_malloc_def malloc_def)
  moreover have "a < n" using cache_read_invalid [OF g, of a] f1(2) by (force simp: fs_read_def)
  ultimately show ?thesis using fs_read_ok [OF g, of a] f1(2) now_holdsD(1) by fastforce
qed

end

lemma inner_index: "(124 + 128) * 512 \<le> p \<Longrightarrow> 128 \<le> cdiv p 512 - cdiv (cdiv p 512 - 124 - 128) 128"
proof -
  assume p: "(124 + 128) * 512 \<le> p"
  define q where "q = p div 512"
  have q: "252 \<le> q" using p by (simp add: q_def)
  then have "(q - 252) div 128 \<le> q - 252" by linarith
  then show ?thesis using p q by (simp add: q_def)
qed

section \<open>Properties\<close>

text \<open>C2: writing a file. Over every driver that stores sectors, \<^verbatim>\<open>inode_write_at\<close> at a position up to
  the end of a file, of any length that the direct and singly indirect pointers can reach and for which
  enough sectors are free, writes all bytes: the file's new content is the old one with the written
  piece put in place (appending when it reaches past the end). The free map stays well-formed, and no
  sector in use outside this file and the free map's file changes.\<close>

theorem inode_write_at_content:
  assumes "sector_store good view n (op_read os) (op_write os)" and "cache_good good n os (cch fs)" and "mem_ok fs"
    and "opened n fs i sec" and "writable fs i" and "file_at n v sec d" and "v = cache_view view (cch fs)"
    and "growable view n fs fd sec d (data_cnt d)" and "int p \<le> ilength d" and "int (p + l) < 2 ^ 31" and "l \<le> length buf"
    and "T = nat (sectors_for (int (p + l)))" and "T \<le> DIRECT_CNT + INDIRECT_CNT" and "sectors_needed (data_cnt d) T \<le> card (free_sectors fs)"
  shows "\<exists>fs' v' d'. inode_write_at (Suc (Suc k)) fs i buf (int l) (int p) = Some (int l, fs') \<and> alloc_holds good view n os fs v' fs' \<and>
    file_at n v' sec d' \<and> content v' d' = splice_bytes (content v d) p (take l buf) \<and> free_map_ok n v' fs' fd \<and>
    (\<forall>a. used fs a \<longrightarrow> a < n \<longrightarrow> a \<notin> file_sectors v sec d \<union> file_sectors v FREE_MAP_SECTOR fd \<longrightarrow> v' a = v a)"
  using cache_over.inode_write_ok [OF cache_overI [OF assms(1)] assms(2-5) assms(6) [unfolded assms(7)] assms(8-14), of k]
  unfolding assms(7) by blast

theorem inode_write_at_content_witness:
  "\<exists>fs' v' d'. inode_write_at (Suc (Suc 0)) full_fs 5 (replicate 600 9) (int 600) (int 700) = Some (int 600, fs') \<and>
    alloc_holds (ram_good 40) ram_view 40 (ram_ops 40) full_fs v' fs' \<and> file_at 40 v' 3 d' \<and>
    content v' d' = splice_bytes (content full_view sample_inode) 700 (take 600 (replicate 600 9)) \<and> free_map_ok 40 v' fs' map_inode \<and>
    (\<forall>a. used full_fs a \<longrightarrow> a < 40 \<longrightarrow> a \<notin> file_sectors full_view 3 sample_inode \<union> file_sectors full_view FREE_MAP_SECTOR map_inode \<longrightarrow>
      v' a = full_view a)"
  by (rule inode_write_at_content [OF ram.sector_store_axioms full_good(1) full_opened(2,1,3) full_file(1) refl full_growable _ _ _ refl])
    (use full_free in \<open>simp_all add: sectors_for_eq sectors_needed_def sample_data, simp_all add: sample_inode_def\<close>)

text \<open>C17: what was written is read back. After such a write of at least one byte, reading the same number of
  bytes at the same position returns exactly the bytes written.\<close>

theorem inode_write_read:
  assumes "sector_store good view n (op_read os) (op_write os)" and "cache_good good n os (cch fs)" and "mem_ok fs"
    and "opened n fs i sec" and "sec \<le> 20000000" and "writable fs i" and "file_at n v sec d" and "v = cache_view view (cch fs)"
    and "growable view n fs fd sec d (data_cnt d)" and "int p \<le> ilength d" and "int (p + l) < 2 ^ 31" and "0 < l" and "l \<le> length buf"
    and "l \<le> length buf'"
    and "T = nat (sectors_for (int (p + l)))" and "T \<le> DIRECT_CNT + INDIRECT_CNT" and "sectors_needed (data_cnt d) T \<le> card (free_sectors fs)"
  shows "\<exists>fs'. do { (m, fs) \<leftarrow> inode_write_at (Suc (Suc k)) fs i buf (int l) (int p); inode_read_at fs i buf' (int l) (int p) } =
    Some (int l, take l buf @ drop l buf', fs')"
proof -
  note ov = cache_overI [OF assms(1)]
  from cache_over.inode_write_ok [OF ov assms(2-4,6) assms(7) [unfolded assms(8)] assms(9-11,13,15-17), of k] obtain f1 v' d' where
    w: "inode_write_at (Suc (Suc k)) fs i buf (int l) (int p) = Some (int l, f1)" "alloc_holds good view n os fs v' f1" "file_at n v' sec d'"
    "ilength d' = max (ilength d) (int (p + l))" "content v' d' = splice_bytes (content (cache_view view (cch fs)) d) p (take l buf)" by blast
  note h = alloc_holdsD [OF w(2)]
  have L: "int p < ilength d'" using w(4) assms(12) by simp
  have o1: "opened n f1 i sec" "mem_ok f1" using h(7,11) assms(3,4) by simp_all
  have d': "d' = dec_inode (cache_view view (cch f1) sec)" "inode_ok n (cache_view view (cch f1)) d'"
    using file_atD(1,2) [OF w(3)] h(2) by simp_all
  have c: "take l (drop p (content (cache_view view (cch f1)) d')) = take l buf"
    using assms(10,13) file_atD(7) [OF assms(7)] unfolding h(2) w(5) splice_bytes_def by (simp add: min_def nat_le_iff)
  from cache_over.inode_read_at_ok [OF ov h(1) o1(2,1) assms(5) d' L assms(14)] obtain f2 where
    "inode_read_at f1 i buf' (int l) (int p) = Some (int (length (take l buf)), splice_bytes buf' 0 (take l buf), f2)"
    unfolding c by blast
  then show ?thesis using w(1) assms(13) by (simp add: splice_bytes_def del: inode_write_at.simps)
qed

theorem inode_write_read_witness:
  "\<exists>fs'. do { (m, fs) \<leftarrow> inode_write_at (Suc (Suc 0)) full_fs 5 (replicate 600 9) (int 600) (int 700);
    inode_read_at fs 5 (replicate 1000 1) (int 600) (int 700) } =
    Some (int 600, take 600 (replicate 600 9) @ drop 600 (replicate 1000 1), fs')"
  by (rule inode_write_read [OF ram.sector_store_axioms full_good(1) full_opened(2,1) _ full_opened(3) full_file(1) refl full_growable _ _ _ _ _ refl])
    (use full_free in \<open>simp_all add: sectors_for_eq sectors_needed_def sample_data, simp_all add: sample_inode_def\<close>)

text \<open>C16: allocation. While a sector is free, \<^verbatim>\<open>free_map_allocate\<close> of one sector succeeds: it hands out a sector
  that was free, marks just this one as used, and the free map's file holds the new map, while no sector
  outside that file changes.\<close>

theorem free_map_allocate_fresh:
  assumes "sector_store good view n (op_read os) (op_write os)" and "cache_good good n os (cch fs)" and "mem_ok fs"
    and "free_map_ok n v fs fd" and "v = cache_view view (cch fs)" and "free_sectors fs \<noteq> {}"
  shows "\<exists>s fs' v'. free_map_allocate (inode_write_at (Suc k)) fs 1 = Some (Some s, fs') \<and> s \<in> free_sectors fs \<and>
    bmap (free_map fs') = (bmap (free_map fs))[s := True] \<and> alloc_holds good view n os fs v' fs' \<and> map_stored v' fs' fd \<and>
    (\<forall>a. a \<notin> file_sectors v FREE_MAP_SECTOR fd \<longrightarrow> v' a = v a)"
  using cache_over.free_map_allocate_ok [OF cache_overI [OF assms(1)] assms(2,3) assms(4) [unfolded assms(5)] assms(6), of k]
  unfolding assms(5) by blast

theorem free_map_allocate_fresh_witness:
  "\<exists>s fs' v'. free_map_allocate (inode_write_at (Suc 0)) full_fs 1 = Some (Some s, fs') \<and> s \<in> free_sectors full_fs \<and>
    bmap (free_map fs') = (bmap (free_map full_fs))[s := True] \<and> alloc_holds (ram_good 40) ram_view 40 (ram_ops 40) full_fs v' fs' \<and>
    map_stored v' fs' map_inode \<and> (\<forall>a. a \<notin> file_sectors full_view FREE_MAP_SECTOR map_inode \<longrightarrow> v' a = full_view a)"
  by (rule free_map_allocate_fresh [OF ram.sector_store_axioms full_good(1) full_opened(2) growableD(1) [OF full_growable refl refl] refl])
    (use full_free in auto)


definition large_fs :: "sector_data list fs" where
  "large_fs = full_fs\<lparr>cch := fresh_cache (block_register BLOCK_FILESYS 40 (ram_ops 40) (full_sectors[3 := enc_inode (sample_inode\<lparr>ilength := 200000\<rparr>)])) (\<lambda>_. True)\<rparr>"


end
