(* ===== verification/Thread.thy ===== *)
theory Thread
  imports Prelude
begin

text \<open>
  Threads and synchronization: threads/thread.c, threads/synch.c, the interrupt level of
  threads/interrupt.c and the timer interrupt of devices/timer.c.

  Only one thread runs at a time. A thread that is not running has suspended inside a kernel routine;
  what is left for it to do when it runs again is a list of frames, the innermost first. The running
  thread, too, may have frames left: the rest of a routine after a point where an interrupt can come
  in. Between frames it runs its own code and may call any routine; \<^verbatim>\<open>process_exit\<close>, which \<^verbatim>\<open>thread_exit\<close>
  runs first, counts as the thread's own code. The address space (\<^verbatim>\<open>process_activate\<close>) and the name of a
  thread are left out. The ready list and the lists of
  waiters are lists of thread addresses; that the kernel's linked lists behave so is the contract
  \<open>fifo_queue\<close> of the list component.

  A semaphore is named by what it belongs to: itself, a lock, or the entry of a thread that waits on
  a condition variable. \<open>None\<close> means that an assertion failed.
\<close>

section \<open>State\<close>

datatype thread_status = THREAD_RUNNING | THREAD_READY | THREAD_BLOCKED | THREAD_DYING

datatype sema_id = Sema nat | Lock_sema nat | Waiter addr

text \<open>Frames: \<open>Start\<close> begins \<^verbatim>\<open>kernel_thread\<close>; \<open>Set_level\<close> is the \<^verbatim>\<open>intr_set_level (old_level)\<close> after
  \<^verbatim>\<open>schedule ()\<close> in \<^verbatim>\<open>thread_yield\<close>, and \<open>Iret\<close> the return from an interrupt; \<open>Down\<close> is the loop of
  \<^verbatim>\<open>sema_down\<close> after \<^verbatim>\<open>thread_block ()\<close>; \<open>Set_holder\<close> and \<open>Up\<close> are the second halves of \<^verbatim>\<open>lock_acquire\<close>
  and \<^verbatim>\<open>lock_release\<close>; \<open>Call_down\<close>, \<open>Call_acquire\<close>, \<open>Call_release\<close> and \<open>Broadcast\<close> are calls still to
  be made; \<open>Take_tid\<close> and \<open>Unblock\<close> finish \<^verbatim>\<open>thread_create\<close>; the rest is \<^verbatim>\<open>idle\<close>.\<close>

datatype frame =
    Start
  | Set_level bool
  | Iret
  | Down sema_id bool
  | Set_holder nat
  | Up sema_id
  | Call_down sema_id
  | Call_acquire nat
  | Call_release nat
  | Broadcast nat nat
  | Take_tid addr
  | Unblock addr
  | Idle_init sema_id
  | Idle_block
  | Idle_hlt

record thread =
  tid :: int
  status :: thread_status
  priority :: int
  pagedir :: addr
  todo :: "frame list"

record kernel =
  threads :: "addr \<Rightarrow> thread option"
  current :: addr
  ready_list :: "addr list"
  all_list :: "addr list"
  idle_thread :: addr
  initial_thread :: addr
  next_tid :: int
  ticks :: int
  thread_ticks :: nat
  idle_ticks :: int
  kernel_ticks :: int
  user_ticks :: int
  intr_on :: bool
  sem_value :: "sema_id \<Rightarrow> nat"
  waiters :: "sema_id \<Rightarrow> addr list"
  holder :: "nat \<Rightarrow> addr"
  cond_waiters :: "nat \<Rightarrow> addr list"

abbreviation TIME_SLICE :: nat where
  "TIME_SLICE \<equiv> 4"

abbreviation PRI_MIN :: int where
  "PRI_MIN \<equiv> 0"

abbreviation PRI_MAX :: int where
  "PRI_MAX \<equiv> 63"

text \<open>The lock that protects \<^verbatim>\<open>next_tid\<close>.\<close>

abbreviation tid_lock :: nat where
  "tid_lock \<equiv> 0"

definition upd_thread :: "addr \<Rightarrow> (thread \<Rightarrow> thread) \<Rightarrow> kernel \<Rightarrow> kernel" where
  "upd_thread t f k = k\<lparr>threads := (threads k)(t := map_option f (threads k t))\<rparr>"

definition set_status :: "addr \<Rightarrow> thread_status \<Rightarrow> kernel \<Rightarrow> kernel" where
  "set_status t s = upd_thread t (\<lambda>th. th\<lparr>status := s\<rparr>)"

definition push_frames :: "frame list \<Rightarrow> kernel \<Rightarrow> kernel" where
  "push_frames fs k = upd_thread (current k) (\<lambda>th. th\<lparr>todo := fs @ todo th\<rparr>) k"

definition is_thread :: "kernel \<Rightarrow> addr \<Rightarrow> bool" where
  "is_thread k t \<longleftrightarrow> t \<noteq> NULL \<and> threads k t \<noteq> None"

section \<open>The scheduler\<close>

definition next_thread_to_run :: "kernel \<Rightarrow> addr \<times> kernel" where
  "next_thread_to_run k = (case ready_list k of
     [] \<Rightarrow> (idle_thread k, k)
   | t # ts \<Rightarrow> (t, k\<lparr>ready_list := ts\<rparr>))"

definition thread_schedule_tail :: "kernel \<Rightarrow> addr option \<Rightarrow> kernel option" where
  "thread_schedule_tail k prev = do {
     assertO (\<not> intr_on k);
     let k = (set_status (current k) THREAD_RUNNING k)\<lparr>thread_ticks := 0\<rparr>;
     case prev of
       None \<Rightarrow> Some k
     | Some p \<Rightarrow>
         if map_option status (threads k p) = Some THREAD_DYING \<and> p \<noteq> initial_thread k then do {
           assertO (p \<noteq> current k);
           Some (k\<lparr>threads := (threads k)(p := None)\<rparr>) }
         else Some k }"

definition schedule :: "kernel \<Rightarrow> kernel option" where
  "schedule k = do {
     let cur = current k;
     let (nxt, k) = next_thread_to_run k;
     th \<leftarrow> threads k cur;
     assertO (\<not> intr_on k);
     assertO (status th \<noteq> THREAD_RUNNING);
     assertO (is_thread k nxt);
     if cur \<noteq> nxt then thread_schedule_tail (k\<lparr>current := nxt\<rparr>) (Some cur)
     else thread_schedule_tail k None }"

definition thread_current :: "kernel \<Rightarrow> thread option" where
  "thread_current k = do {
     th \<leftarrow> threads k (current k);
     assertO (status th = THREAD_RUNNING);
     Some th }"

definition thread_block :: "kernel \<Rightarrow> kernel option" where
  "thread_block k = do {
     assertO (\<not> intr_on k);
     thread_current k;
     schedule (set_status (current k) THREAD_BLOCKED k) }"

definition thread_unblock :: "addr \<Rightarrow> kernel \<Rightarrow> kernel option" where
  "thread_unblock t k = do {
     assertO (is_thread k t);
     assertO (map_option status (threads k t) = Some THREAD_BLOCKED);
     Some (set_status t THREAD_READY (k\<lparr>ready_list := ready_list k @ [t]\<rparr>)) }"

text \<open>The frames are what the yielding thread has left: the rest of \<^verbatim>\<open>thread_yield\<close>, and after an
  interrupt the return from it.\<close>

definition thread_yield :: "frame list \<Rightarrow> kernel \<Rightarrow> kernel option" where
  "thread_yield rest k = do {
     thread_current k;
     let cur = current k;
     let k = push_frames (Set_level (intr_on k) # rest) k;
     let k = k\<lparr>intr_on := False\<rparr>;
     let k = (if cur \<noteq> idle_thread k then k\<lparr>ready_list := ready_list k @ [cur]\<rparr> else k);
     schedule (set_status cur THREAD_READY k) }"

definition thread_exit :: "kernel \<Rightarrow> kernel option" where
  "thread_exit k = do {
     let k = k\<lparr>intr_on := False\<rparr>;
     thread_current k;
     let k = k\<lparr>all_list := remove1 (current k) (all_list k)\<rparr>;
     schedule (set_status (current k) THREAD_DYING k) }"

definition thread_tick :: "kernel \<Rightarrow> (bool \<times> kernel) option" where
  "thread_tick k = do {
     th \<leftarrow> thread_current k;
     let k = (if current k = idle_thread k then k\<lparr>idle_ticks := idle_ticks k + 1\<rparr>
              else if pagedir th \<noteq> NULL then k\<lparr>user_ticks := user_ticks k + 1\<rparr>
              else k\<lparr>kernel_ticks := kernel_ticks k + 1\<rparr>);
     let k = k\<lparr>thread_ticks := thread_ticks k + 1\<rparr>;
     Some (TIME_SLICE \<le> thread_ticks k, k) }"

definition timer_interrupt :: "kernel \<Rightarrow> (bool \<times> kernel) option" where
  "timer_interrupt k = thread_tick (k\<lparr>ticks := ticks k + 1\<rparr>)"

section \<open>Semaphores\<close>

definition sema_init :: "sema_id \<Rightarrow> nat \<Rightarrow> kernel \<Rightarrow> kernel" where
  "sema_init s v k = k\<lparr>sem_value := (sem_value k)(s := v), waiters := (waiters k)(s := [])\<rparr>"

definition sema_down_loop :: "sema_id \<Rightarrow> bool \<Rightarrow> kernel \<Rightarrow> kernel option" where
  "sema_down_loop s old_level k =
     (if sem_value k s = 0 then
        thread_block (push_frames [Down s old_level]
          (k\<lparr>waiters := (waiters k)(s := waiters k s @ [current k])\<rparr>))
      else Some (k\<lparr>sem_value := (sem_value k)(s := sem_value k s - 1), intr_on := old_level\<rparr>))"

definition sema_down :: "sema_id \<Rightarrow> kernel \<Rightarrow> kernel option" where
  "sema_down s k = sema_down_loop s (intr_on k) (k\<lparr>intr_on := False\<rparr>)"

definition sema_try_down :: "sema_id \<Rightarrow> kernel \<Rightarrow> bool \<times> kernel" where
  "sema_try_down s k =
     (if 0 < sem_value k s then (True, k\<lparr>sem_value := (sem_value k)(s := sem_value k s - 1)\<rparr>)
      else (False, k))"

definition sema_up :: "sema_id \<Rightarrow> kernel \<Rightarrow> kernel option" where
  "sema_up s k = do {
     k \<leftarrow> (case waiters k s of
            [] \<Rightarrow> Some k
          | t # ts \<Rightarrow> thread_unblock t (k\<lparr>waiters := (waiters k)(s := ts)\<rparr>));
     Some (k\<lparr>sem_value := (sem_value k)(s := sz (sem_value k s + 1))\<rparr>) }"

section \<open>Locks\<close>

definition lock_init :: "nat \<Rightarrow> kernel \<Rightarrow> kernel" where
  "lock_init l k = sema_init (Lock_sema l) 1 (k\<lparr>holder := (holder k)(l := NULL)\<rparr>)"

definition lock_held_by_current_thread :: "nat \<Rightarrow> kernel \<Rightarrow> bool" where
  "lock_held_by_current_thread l k \<longleftrightarrow> holder k l = current k"

definition lock_acquire :: "nat \<Rightarrow> kernel \<Rightarrow> kernel option" where
  "lock_acquire l k = do {
     assertO (\<not> lock_held_by_current_thread l k);
     sema_down (Lock_sema l) (push_frames [Set_holder l] k) }"

definition lock_try_acquire :: "nat \<Rightarrow> kernel \<Rightarrow> (bool \<times> kernel) option" where
  "lock_try_acquire l k = do {
     assertO (\<not> lock_held_by_current_thread l k);
     let (success, k) = sema_try_down (Lock_sema l) k;
     Some (success, if success then push_frames [Set_holder l] k else k) }"

definition lock_release :: "nat \<Rightarrow> kernel \<Rightarrow> kernel option" where
  "lock_release l k = do {
     assertO (lock_held_by_current_thread l k);
     Some (push_frames [Up (Lock_sema l)] (k\<lparr>holder := (holder k)(l := NULL)\<rparr>)) }"

section \<open>Condition variables\<close>

definition cond_init :: "nat \<Rightarrow> kernel \<Rightarrow> kernel" where
  "cond_init c k = k\<lparr>cond_waiters := (cond_waiters k)(c := [])\<rparr>"

definition cond_wait :: "nat \<Rightarrow> nat \<Rightarrow> kernel \<Rightarrow> kernel option" where
  "cond_wait c l k = do {
     assertO (lock_held_by_current_thread l k);
     let t = current k;
     let k = sema_init (Waiter t) 0 k;
     let k = k\<lparr>cond_waiters := (cond_waiters k)(c := cond_waiters k c @ [t])\<rparr>;
     lock_release l (push_frames [Call_down (Waiter t), Call_acquire l] k) }"

definition cond_signal :: "nat \<Rightarrow> nat \<Rightarrow> kernel \<Rightarrow> kernel option" where
  "cond_signal c l k = do {
     assertO (lock_held_by_current_thread l k);
     case cond_waiters k c of
       [] \<Rightarrow> Some k
     | t # ts \<Rightarrow> sema_up (Waiter t) (k\<lparr>cond_waiters := (cond_waiters k)(c := ts)\<rparr>) }"

definition cond_broadcast :: "nat \<Rightarrow> nat \<Rightarrow> kernel \<Rightarrow> kernel option" where
  "cond_broadcast c l k =
     (if cond_waiters k c = [] then Some k
      else cond_signal c l (push_frames [Broadcast c l] k))"

section \<open>Creating threads\<close>

definition init_thread :: "addr \<Rightarrow> int \<Rightarrow> kernel \<Rightarrow> kernel option" where
  "init_thread t prio k = do {
     assertO (t \<noteq> NULL);
     assertO (PRI_MIN \<le> prio \<and> prio \<le> PRI_MAX);
     Some (k\<lparr>threads := (threads k)(t \<mapsto> \<lparr>tid = 0, status = THREAD_BLOCKED, priority = prio, pagedir = NULL, todo = []\<rparr>),
       all_list := all_list k @ [t]\<rparr>) }"

text \<open>The page that \<^verbatim>\<open>palloc_get_page\<close> returned is an argument, null when there was none; a page that holds
  a thread is not free. \<open>body\<close> is what the new thread runs after \<^verbatim>\<open>kernel_thread\<close> has enabled
  interrupts, nothing for an ordinary thread.\<close>

definition thread_create :: "addr \<Rightarrow> int \<Rightarrow> frame list \<Rightarrow> kernel \<Rightarrow> kernel option" where
  "thread_create t prio body k =
     (if t = NULL then Some k
      else do {
        assertO (threads k t = None);
        k \<leftarrow> init_thread t prio k;
        let k = upd_thread t (\<lambda>th. th\<lparr>todo := Start # body\<rparr>) k;
        lock_acquire tid_lock (push_frames [Take_tid t, Call_release tid_lock, Unblock t] k) })"

definition thread_set_priority :: "int \<Rightarrow> kernel \<Rightarrow> kernel" where
  "thread_set_priority p k = upd_thread (current k) (\<lambda>th. th\<lparr>priority := p\<rparr>) k"

definition thread_get_priority :: "kernel \<Rightarrow> int option" where
  "thread_get_priority k = map_option priority (thread_current k)"

definition thread_tid :: "kernel \<Rightarrow> int option" where
  "thread_tid k = map_option tid (thread_current k)"

text \<open>The beginning of a thread, what \<^verbatim>\<open>allocate_tid\<close> does inside its lock, and the three parts of the idle thread.\<close>

definition kernel_thread :: "kernel \<Rightarrow> kernel" where [simp]:
  "kernel_thread k = k\<lparr>intr_on := True\<rparr>"

definition allocate_tid :: "addr \<Rightarrow> kernel \<Rightarrow> kernel" where [simp]:
  "allocate_tid t k = (upd_thread t (\<lambda>th. th\<lparr>tid := next_tid k\<rparr>) k)\<lparr>next_tid := next_tid k + 1\<rparr>"

definition idle_start :: "sema_id \<Rightarrow> kernel \<Rightarrow> kernel" where [simp]:
  "idle_start s k = push_frames [Up s, Idle_block] (k\<lparr>idle_thread := current k\<rparr>)"

definition idle_block :: "kernel \<Rightarrow> kernel option" where [simp]:
  "idle_block k = thread_block (push_frames [Idle_hlt] (k\<lparr>intr_on := False\<rparr>))"

definition idle_hlt :: "kernel \<Rightarrow> kernel" where [simp]:
  "idle_hlt k = push_frames [Idle_block] (k\<lparr>intr_on := True\<rparr>)"

section \<open>Running a frame\<close>

fun run_frame :: "frame \<Rightarrow> kernel \<Rightarrow> kernel option" where
  "run_frame Start k = Some (kernel_thread k)"
| "run_frame (Set_level l) k = Some (k\<lparr>intr_on := l\<rparr>)"
| "run_frame Iret k = Some (k\<lparr>intr_on := True\<rparr>)"
| "run_frame (Down s old_level) k = sema_down_loop s old_level k"
| "run_frame (Set_holder l) k = Some (k\<lparr>holder := (holder k)(l := current k)\<rparr>)"
| "run_frame (Up s) k = sema_up s k"
| "run_frame (Call_down s) k = sema_down s k"
| "run_frame (Call_acquire l) k = lock_acquire l k"
| "run_frame (Call_release l) k = lock_release l k"
| "run_frame (Broadcast c l) k = cond_broadcast c l k"
| "run_frame (Take_tid t) k = Some (allocate_tid t k)"
| "run_frame (Unblock t) k = thread_unblock t k"
| "run_frame (Idle_init s) k = Some (idle_start s k)"
| "run_frame Idle_block k = idle_block k"
| "run_frame Idle_hlt k = Some (idle_hlt k)"

definition pop_frame :: "kernel \<Rightarrow> (frame \<times> kernel) option" where
  "pop_frame k = do {
     th \<leftarrow> thread_current k;
     case todo th of
       [] \<Rightarrow> None
     | f # fs \<Rightarrow> Some (f, upd_thread (current k) (\<lambda>th. th\<lparr>todo := fs\<rparr>) k) }"

section \<open>Steps of the system\<close>

datatype call =
    C_down nat | C_try_down nat | C_up nat
  | C_acquire nat | C_try_acquire nat | C_release nat
  | C_wait nat nat | C_signal nat nat | C_broadcast nat nat
  | C_create addr int | C_exit | C_yield | C_priority int

fun do_call :: "call \<Rightarrow> kernel \<Rightarrow> kernel option" where
  "do_call (C_down n) k = sema_down (Sema n) k"
| "do_call (C_try_down n) k = Some (snd (sema_try_down (Sema n) k))"
| "do_call (C_up n) k = sema_up (Sema n) k"
| "do_call (C_acquire l) k = lock_acquire l k"
| "do_call (C_try_acquire l) k = map_option snd (lock_try_acquire l k)"
| "do_call (C_release l) k = lock_release l k"
| "do_call (C_wait c l) k = cond_wait c l k"
| "do_call (C_signal c l) k = cond_signal c l k"
| "do_call (C_broadcast c l) k = cond_broadcast c l k"
| "do_call (C_create t p) k = thread_create t p [] k"
| "do_call C_exit k = thread_exit k"
| "do_call C_yield k = thread_yield [] k"
| "do_call (C_priority p) k = Some (thread_set_priority p k)"

text \<open>An interrupt comes in only when interrupts are on; the handler runs with them off, and the thread
  may have to yield before it returns. A device's handler may up a semaphore. A semaphore that no thread waits on may be initialized at any time.\<close>

definition intr_handler_timer :: "kernel \<Rightarrow> kernel option" where
  "intr_handler_timer k = do {
     (yield_on_return, k) \<leftarrow> timer_interrupt (k\<lparr>intr_on := False\<rparr>);
     if yield_on_return then thread_yield [Iret] k else Some (k\<lparr>intr_on := True\<rparr>) }"

definition intr_handler_up :: "nat \<Rightarrow> kernel \<Rightarrow> kernel option" where
  "intr_handler_up n k = map_option (\<lambda>k. k\<lparr>intr_on := True\<rparr>) (sema_up (Sema n) (k\<lparr>intr_on := False\<rparr>))"

inductive kstep :: "kernel \<Rightarrow> kernel \<Rightarrow> bool" where
  frame: "pop_frame k = Some (f, k1) \<Longrightarrow> run_frame f k1 = Some k2 \<Longrightarrow> kstep k k2"
| call: "thread_current k = Some th \<Longrightarrow> todo th = [] \<Longrightarrow> do_call c k = Some k2 \<Longrightarrow> kstep k k2"
| timer: "intr_on k \<Longrightarrow> intr_handler_timer k = Some k2 \<Longrightarrow> kstep k k2"
| sema: "waiters k (Sema n) = [] \<Longrightarrow> kstep k (sema_init (Sema n) v k)"
| device: "intr_on k \<Longrightarrow> intr_handler_up n k = Some k2 \<Longrightarrow> kstep k k2"

inductive_cases kstepE: "kstep k k2"

text \<open>The state after \<^verbatim>\<open>thread_init\<close>, in which \<open>t\<close> runs \<^verbatim>\<open>main\<close> with interrupts off and no other thread
  exists; \<^verbatim>\<open>thread_start\<close> is the creation of the idle thread followed by a \<^verbatim>\<open>sema_down\<close>.\<close>

definition thread_init :: "addr \<Rightarrow> kernel" where
  "thread_init t = \<lparr>threads = [t \<mapsto> \<lparr>tid = 1, status = THREAD_RUNNING, priority = 31, pagedir = NULL, todo = []\<rparr>],
     current = t, ready_list = [], all_list = [t], idle_thread = NULL, initial_thread = t, next_tid = 2,
     ticks = 0, thread_ticks = 0, idle_ticks = 0, kernel_ticks = 0, user_ticks = 0, intr_on = False,
     sem_value = (\<lambda>s. case s of Lock_sema l \<Rightarrow> 1 | _ \<Rightarrow> 0), waiters = (\<lambda>s. []), holder = (\<lambda>l. NULL),
     cond_waiters = (\<lambda>c. [])\<rparr>"

definition thread_start :: "addr \<Rightarrow> kernel \<Rightarrow> kernel option" where
  "thread_start t k = thread_create t PRI_MIN [Idle_init (Sema 0)]
     (push_frames [Start, Call_down (Sema 0)] (sema_init (Sema 0) 0 k))"

inductive reachable :: "kernel \<Rightarrow> bool" where
  init: "t \<noteq> NULL \<Longrightarrow> i \<noteq> NULL \<Longrightarrow> i \<noteq> t \<Longrightarrow> thread_start i (thread_init t) = Some k \<Longrightarrow> reachable k"
| step: "reachable k \<Longrightarrow> kstep k k2 \<Longrightarrow> reachable k2"

end
