(* ===== verification/Thread_Inv.thy ===== *)
theory Thread_Inv
  imports Thread
begin

text \<open>
  Invariants of the thread system, kept by every step of every interleaving: exactly one thread runs;
  the ready list holds exactly the ready threads; a thread waits on a semaphore exactly when it is
  blocked in \<^verbatim>\<open>sema_down\<close> on it; no wakeup is lost; a lock has one owner.
\<close>

section \<open>Views of the state\<close>

definition st :: "kernel \<Rightarrow> addr \<Rightarrow> thread_status option" where
  "st k t = map_option status (threads k t)"

definition frames :: "kernel \<Rightarrow> addr \<Rightarrow> frame list" where
  "frames k t = (case threads k t of None \<Rightarrow> [] | Some th \<Rightarrow> todo th)"

named_theorems view_simps \<open>the views after an update of the state\<close>

lemma st_record [simp, view_simps]:
  "st (k\<lparr>current := a\<rparr>) = st k" "st (k\<lparr>ready_list := b\<rparr>) = st k" "st (k\<lparr>all_list := b\<rparr>) = st k"
  "st (k\<lparr>idle_thread := a\<rparr>) = st k" "st (k\<lparr>next_tid := i\<rparr>) = st k" "st (k\<lparr>ticks := i\<rparr>) = st k"
  "st (k\<lparr>thread_ticks := n\<rparr>) = st k" "st (k\<lparr>idle_ticks := i\<rparr>) = st k" "st (k\<lparr>kernel_ticks := i\<rparr>) = st k"
  "st (k\<lparr>user_ticks := i\<rparr>) = st k" "st (k\<lparr>intr_on := c\<rparr>) = st k" "st (k\<lparr>sem_value := v\<rparr>) = st k"
  "st (k\<lparr>waiters := w\<rparr>) = st k" "st (k\<lparr>holder := h\<rparr>) = st k" "st (k\<lparr>cond_waiters := q\<rparr>) = st k"
  by (simp_all add: st_def fun_eq_iff)

lemma frames_record [simp, view_simps]:
  "frames (k\<lparr>current := a\<rparr>) = frames k" "frames (k\<lparr>ready_list := b\<rparr>) = frames k" "frames (k\<lparr>all_list := b\<rparr>) = frames k"
  "frames (k\<lparr>idle_thread := a\<rparr>) = frames k" "frames (k\<lparr>next_tid := i\<rparr>) = frames k" "frames (k\<lparr>ticks := i\<rparr>) = frames k"
  "frames (k\<lparr>thread_ticks := n\<rparr>) = frames k" "frames (k\<lparr>idle_ticks := i\<rparr>) = frames k" "frames (k\<lparr>kernel_ticks := i\<rparr>) = frames k"
  "frames (k\<lparr>user_ticks := i\<rparr>) = frames k" "frames (k\<lparr>intr_on := c\<rparr>) = frames k" "frames (k\<lparr>sem_value := v\<rparr>) = frames k"
  "frames (k\<lparr>waiters := w\<rparr>) = frames k" "frames (k\<lparr>holder := h\<rparr>) = frames k" "frames (k\<lparr>cond_waiters := q\<rparr>) = frames k"
  by (simp_all add: frames_def fun_eq_iff)

lemma upd_thread_simps [simp, view_simps]:
  "current (upd_thread t f k) = current k" "ready_list (upd_thread t f k) = ready_list k"
  "idle_thread (upd_thread t f k) = idle_thread k" "initial_thread (upd_thread t f k) = initial_thread k"
  "intr_on (upd_thread t f k) = intr_on k" "sem_value (upd_thread t f k) = sem_value k"
  "waiters (upd_thread t f k) = waiters k" "holder (upd_thread t f k) = holder k"
  "cond_waiters (upd_thread t f k) = cond_waiters k"
  by (simp_all add: upd_thread_def)

lemma set_status_simps [simp, view_simps]:
  "current (set_status t s k) = current k" "ready_list (set_status t s k) = ready_list k"
  "idle_thread (set_status t s k) = idle_thread k" "initial_thread (set_status t s k) = initial_thread k"
  "intr_on (set_status t s k) = intr_on k" "sem_value (set_status t s k) = sem_value k"
  "waiters (set_status t s k) = waiters k" "holder (set_status t s k) = holder k"
  "cond_waiters (set_status t s k) = cond_waiters k"
  by (simp_all add: set_status_def)

lemma push_frames_simps [simp, view_simps]:
  "current (push_frames fs k) = current k" "ready_list (push_frames fs k) = ready_list k"
  "idle_thread (push_frames fs k) = idle_thread k" "initial_thread (push_frames fs k) = initial_thread k"
  "intr_on (push_frames fs k) = intr_on k" "sem_value (push_frames fs k) = sem_value k"
  "waiters (push_frames fs k) = waiters k" "holder (push_frames fs k) = holder k"
  "cond_waiters (push_frames fs k) = cond_waiters k"
  by (simp_all add: push_frames_def)

lemma st_set_status [simp, view_simps]:
  "st (set_status t s k) = (st k)(t := map_option (\<lambda>_. s) (st k t))"
  by (auto simp: st_def set_status_def upd_thread_def fun_eq_iff option.map_comp comp_def)

lemma frames_set_status [simp, view_simps]: "frames (set_status t s k) = frames k"
  by (auto simp: frames_def set_status_def upd_thread_def fun_eq_iff split: option.split)

lemma st_push_frames [simp, view_simps]: "st (push_frames fs k) = st k"
  by (auto simp: st_def push_frames_def upd_thread_def fun_eq_iff option.map_comp comp_def)

lemma frames_push_frames [simp, view_simps]:
  "frames (push_frames fs k) = (frames k)(current k := if st k (current k) = None then [] else fs @ frames k (current k))"
  by (auto simp: frames_def st_def push_frames_def upd_thread_def fun_eq_iff split: option.split)

lemma st_upd_todo [simp, view_simps]: "st (upd_thread t (\<lambda>th. th\<lparr>todo := g th\<rparr>) k) = st k"
  "st (upd_thread t (\<lambda>th. th\<lparr>tid := h th\<rparr>) k) = st k" "st (upd_thread t (\<lambda>th. th\<lparr>priority := i th\<rparr>) k) = st k"
  by (auto simp: st_def upd_thread_def fun_eq_iff option.map_comp comp_def)

lemma frames_upd_todo [simp, view_simps]:
  "frames (upd_thread t (\<lambda>th. th\<lparr>todo := fs\<rparr>) k) = (frames k)(t := if st k t = None then [] else fs)"
  "frames (upd_thread t (\<lambda>th. th\<lparr>tid := h th\<rparr>) k) = frames k" "frames (upd_thread t (\<lambda>th. th\<lparr>priority := i th\<rparr>) k) = frames k"
  by (auto simp: st_def frames_def upd_thread_def fun_eq_iff split: option.split)

lemma kill_simps [simp, view_simps]:
  "st (k\<lparr>threads := (threads k)(t := None)\<rparr>) = (st k)(t := None)"
  "frames (k\<lparr>threads := (threads k)(t := None)\<rparr>) = (frames k)(t := [])"
  by (simp_all add: st_def frames_def fun_eq_iff)

lemma frames_None: "st k t = None \<Longrightarrow> frames k t = []"
  by (simp add: st_def frames_def)

lemma thread_current_iff: "thread_current k = Some th \<longleftrightarrow> threads k (current k) = Some th \<and> status th = THREAD_RUNNING"
  by (auto simp: thread_current_def monad_simps)

lemma thread_current_st: "thread_current k \<noteq> None \<longleftrightarrow> st k (current k) = Some THREAD_RUNNING"
  by (cases "threads k (current k)") (auto simp: thread_current_def st_def monad_simps)

section \<open>Switching threads\<close>

definition next_of_ready :: "kernel \<Rightarrow> addr" where
  "next_of_ready k = (case ready_list k of [] \<Rightarrow> idle_thread k | t # ts \<Rightarrow> t)"

text \<open>The thread structure that is freed by the switch away from it.\<close>

definition freed :: "kernel \<Rightarrow> addr \<Rightarrow> bool" where
  "freed k t \<longleftrightarrow> t = current k \<and> st k t = Some THREAD_DYING \<and> t \<noteq> initial_thread k \<and> next_of_ready k \<noteq> t"

lemma schedule_effect:
  assumes "schedule k = Some k'"
  shows "current k' = next_of_ready k" "ready_list k' = tl (ready_list k)"
    "st k' = (\<lambda>t. if t = next_of_ready k then Some THREAD_RUNNING else if freed k t then None else st k t)"
    "frames k' = (\<lambda>t. if freed k t then [] else frames k t)"
    "idle_thread k' = idle_thread k" "initial_thread k' = initial_thread k" "intr_on k' = intr_on k"
    "sem_value k' = sem_value k" "waiters k' = waiters k" "holder k' = holder k" "cond_waiters k' = cond_waiters k"
    "\<not> intr_on k" "next_of_ready k \<noteq> NULL" "st k (next_of_ready k) \<noteq> None" "thread_ticks k' = 0"
proof -
  define k1 where "k1 = snd (next_thread_to_run k)"
  have n: "next_thread_to_run k = (next_of_ready k, k1)"
    by (simp add: k1_def next_thread_to_run_def next_of_ready_def split: list.split)
  have k1: "k1 = k\<lparr>ready_list := tl (ready_list k)\<rparr>"
    by (cases "ready_list k") (simp_all add: k1_def next_thread_to_run_def)
  define kc where "kc = (set_status (next_of_ready k) THREAD_RUNNING (k1\<lparr>current := next_of_ready k\<rparr>))\<lparr>thread_ticks := 0\<rparr>"
  have g: "\<not> intr_on k" "next_of_ready k \<noteq> NULL" "st k (next_of_ready k) \<noteq> None"
    using assms by (auto simp: schedule_def Let_def n k1 monad_simps is_thread_def st_def split: if_splits)
  have "k' = (if freed k (current k) then kc\<lparr>threads := (threads kc)(current k := None)\<rparr> else kc)"
    using assms
    by (auto simp: schedule_def Let_def n k1 monad_simps thread_schedule_tail_def kc_def freed_def st_def set_status_def
        upd_thread_def split: if_splits)
  moreover have "st kc = (st k)(next_of_ready k := Some THREAD_RUNNING)" "frames kc = frames k"
    using g(3) by (auto simp: kc_def k1)
  moreover have "current kc = next_of_ready k" "ready_list kc = tl (ready_list k)" "idle_thread kc = idle_thread k"
    "initial_thread kc = initial_thread k" "intr_on kc = intr_on k" "sem_value kc = sem_value k"
    "waiters kc = waiters k" "holder kc = holder k" "cond_waiters kc = cond_waiters k"
    "thread_ticks kc = 0"
    by (simp_all add: kc_def k1)
  ultimately show "current k' = next_of_ready k" "ready_list k' = tl (ready_list k)"
    "st k' = (\<lambda>t. if t = next_of_ready k then Some THREAD_RUNNING else if freed k t then None else st k t)"
    "frames k' = (\<lambda>t. if freed k t then [] else frames k t)"
    "idle_thread k' = idle_thread k" "initial_thread k' = initial_thread k" "intr_on k' = intr_on k"
    "sem_value k' = sem_value k" "waiters k' = waiters k" "holder k' = holder k" "cond_waiters k' = cond_waiters k"
    "thread_ticks k' = 0"
    by (auto simp: freed_def fun_eq_iff)
  show "\<not> intr_on k" "next_of_ready k \<noteq> NULL" "st k (next_of_ready k) \<noteq> None" using g by auto
qed

section \<open>The invariant\<close>

text \<open>The semaphore on which a thread with these frames waits, or for which it has just been woken.\<close>

fun waits_on :: "frame list \<Rightarrow> sema_id option" where
  "waits_on (Down s l # fs) = Some s"
| "waits_on fs = None"

text \<open>What a thread can have left to do: a wait is its innermost frame, a wait for a lock is followed by
  taking the lock, only a thread itself waits on its entry of a condition variable.\<close>

fun frame_ok :: "addr \<Rightarrow> frame \<Rightarrow> frame list \<Rightarrow> bool" where
  "frame_ok t (Down s l) fs = (case s of Sema n \<Rightarrow> True | Lock_sema k \<Rightarrow> fs \<noteq> [] \<and> hd fs = Set_holder k | Waiter u \<Rightarrow> u = t)"
| "frame_ok t (Call_down s) fs = (case s of Sema n \<Rightarrow> True | Lock_sema k \<Rightarrow> False | Waiter u \<Rightarrow> u = t)"
| "frame_ok t (Idle_init s) fs = (fs = [] \<and> (\<exists>n. s = Sema n))"
| "frame_ok t f fs = True"

fun frames_ok :: "addr \<Rightarrow> frame list \<Rightarrow> bool" where
  "frames_ok t [] = True"
| "frames_ok t (f # fs) = (frame_ok t f fs \<and> waits_on fs = None \<and> frames_ok t fs)"

fun unblocks :: "frame list \<Rightarrow> addr list" where
  "unblocks [] = []"
| "unblocks (Unblock t # fs) = t # unblocks fs"
| "unblocks (_ # fs) = unblocks fs"

fun idle_frame :: "frame \<Rightarrow> bool" where
  "idle_frame (Set_level l) = True"
| "idle_frame Iret = True"
| "idle_frame (Up s) = True"
| "idle_frame Idle_block = True"
| "idle_frame Idle_hlt = True"
| "idle_frame f = False"

definition idle_frames :: "frame list \<Rightarrow> bool" where
  "idle_frames fs \<longleftrightarrow> fs \<noteq> [] \<and> last fs \<in> {Idle_block, Idle_hlt} \<and> list_all idle_frame fs"

fun starts :: "frame list \<Rightarrow> bool" where
  "starts (Start # fs) = True"
| "starts fs = False"

fun idle_inits :: "frame list \<Rightarrow> bool" where
  "idle_inits [] = False"
| "idle_inits (Idle_init s # fs) = True"
| "idle_inits (f # fs) = idle_inits fs"

definition ready_ok :: "kernel \<Rightarrow> bool" where
  "ready_ok k \<longleftrightarrow> st k NULL = None \<and> distinct (ready_list k) \<and>
     (\<forall>t. t \<in> set (ready_list k) \<longleftrightarrow> st k t = Some THREAD_READY \<and> t \<noteq> idle_thread k)"

definition wait_ok :: "kernel \<Rightarrow> bool" where
  "wait_ok k \<longleftrightarrow> (\<forall>s. distinct (waiters k s) \<and>
     (\<forall>t. t \<in> set (waiters k s) \<longleftrightarrow> st k t = Some THREAD_BLOCKED \<and> waits_on (frames k t) = Some s))"

definition todo_ok :: "kernel \<Rightarrow> bool" where
  "todo_ok k \<longleftrightarrow> (\<forall>t. frames_ok t (frames k t)) \<and> finite {t. st k t \<noteq> None}"

definition idle_ok :: "kernel \<Rightarrow> bool" where
  "idle_ok k \<longleftrightarrow>
     (idle_thread k \<noteq> NULL \<longrightarrow> st k (idle_thread k) \<notin> {None, Some THREAD_DYING} \<and> idle_frames (frames k (idle_thread k))) \<and>
     (\<forall>t. idle_inits (frames k t) \<longrightarrow> idle_thread k = NULL) \<and>
     (\<forall>t u. idle_inits (frames k t) \<longrightarrow> idle_inits (frames k u) \<longrightarrow> t = u)"

definition create_ok :: "kernel \<Rightarrow> bool" where
  "create_ok k \<longleftrightarrow>
     (\<forall>u. distinct (unblocks (frames k u))) \<and>
     (\<forall>u t. t \<in> set (unblocks (frames k u)) \<longrightarrow> st k t = Some THREAD_BLOCKED \<and> starts (frames k t)) \<and>
     (\<forall>u v t. t \<in> set (unblocks (frames k u)) \<longrightarrow> t \<in> set (unblocks (frames k v)) \<longrightarrow> u = v)"

definition core :: "kernel \<Rightarrow> bool" where
  "core k \<longleftrightarrow> ready_ok k \<and> wait_ok k \<and> todo_ok k \<and> idle_ok k \<and> create_ok k"

definition one_running :: "kernel \<Rightarrow> bool" where
  "one_running k \<longleftrightarrow> (\<forall>t. st k t = Some THREAD_RUNNING \<longleftrightarrow> t = current k)"

definition kernel_inv :: "kernel \<Rightarrow> bool" where
  "kernel_inv k \<longleftrightarrow> core k \<and> one_running k \<and> (intr_on k \<longrightarrow> waits_on (frames k (current k)) = None)"

text \<open>A state in which the running thread is not about to resume a wait.\<close>

definition calm :: "kernel \<Rightarrow> bool" where
  "calm k \<longleftrightarrow> core k \<and> one_running k \<and> waits_on (frames k (current k)) = None"

lemmas core_defs = core_def ready_ok_def wait_ok_def todo_ok_def idle_ok_def create_ok_def

lemma calm_inv: "calm k \<Longrightarrow> kernel_inv k"
  by (simp add: calm_def kernel_inv_def)

lemma core_cong:
  assumes "core k" "st k' = st k" "frames k' = frames k" "ready_list k' = ready_list k"
    "idle_thread k' = idle_thread k" "waiters k' = waiters k"
  shows "core k'"
  using assms by (simp add: core_defs)

lemma calm_cong:
  assumes "calm k" "st k' = st k" "frames k' = frames k" "ready_list k' = ready_list k"
    "idle_thread k' = idle_thread k" "waiters k' = waiters k" "current k' = current k"
  shows "calm k'"
  using assms core_cong [of k k'] by (simp add: calm_def one_running_def)

lemma calm_record [simp]:
  "calm (k\<lparr>sem_value := v\<rparr>) = calm k" "calm (k\<lparr>holder := h\<rparr>) = calm k" "calm (k\<lparr>cond_waiters := q\<rparr>) = calm k"
  "calm (k\<lparr>intr_on := c\<rparr>) = calm k" "calm (k\<lparr>next_tid := i\<rparr>) = calm k" "calm (k\<lparr>ticks := i\<rparr>) = calm k"
  "calm (k\<lparr>thread_ticks := n\<rparr>) = calm k" "calm (k\<lparr>idle_ticks := i\<rparr>) = calm k" "calm (k\<lparr>kernel_ticks := i\<rparr>) = calm k"
  "calm (k\<lparr>user_ticks := i\<rparr>) = calm k" "calm (k\<lparr>all_list := a\<rparr>) = calm k"
  by (auto elim!: calm_cong)

lemma idle_frames_facts:
  "idle_frames fs \<Longrightarrow> waits_on fs = None" "idle_frames fs \<Longrightarrow> \<not> starts fs" "idle_frames fs \<Longrightarrow> unblocks fs = []"
  "idle_frames fs \<Longrightarrow> fs \<noteq> []"
proof -
  have *: "list_all idle_frame fs \<Longrightarrow> waits_on fs = None \<and> \<not> starts fs \<and> unblocks fs = []" for fs
  proof (induction fs)
    case (Cons f fs)
    then show ?case by (cases f) auto
  qed simp
  then show "idle_frames fs \<Longrightarrow> waits_on fs = None" "idle_frames fs \<Longrightarrow> \<not> starts fs"
    "idle_frames fs \<Longrightarrow> unblocks fs = []" "idle_frames fs \<Longrightarrow> fs \<noteq> []"
    by (auto simp: idle_frames_def)
qed

lemma starts_waits_on: "starts fs \<Longrightarrow> waits_on fs = None"
  by (cases fs rule: starts.cases) auto

section \<open>What the elementary changes keep\<close>

lemma core_local:
  assumes c: "core k" and r: "one_running k"
    and f: "frames k' = (frames k)(current k := fs)"
    and same: "st k' = st k" "ready_list k' = ready_list k" "idle_thread k' = idle_thread k" "waiters k' = waiters k"
    and ok: "frames_ok (current k) fs" "idle_inits fs \<Longrightarrow> idle_inits (frames k (current k))"
      "current k = idle_thread k \<Longrightarrow> idle_frames fs"
      "set (unblocks fs) \<subseteq> set (unblocks (frames k (current k)))" "distinct (unblocks fs)"
  shows "core k'"
proof -
  have n: "st k (current k) = Some THREAD_RUNNING" using r by (simp add: one_running_def)
  have "wait_ok k'" using c n by (auto simp: core_def wait_ok_def f same)
  moreover have "ready_ok k'" using c by (simp add: core_def ready_ok_def same)
  moreover have "todo_ok k'" using c ok(1) by (simp add: core_def todo_ok_def f same)
  moreover have "idle_ok k'" using c ok(2,3) by (auto simp: core_def idle_ok_def f same)
  moreover have "create_ok k'"
    unfolding create_ok_def
  proof (intro conjI allI impI)
    have d: "create_ok k" using c by (simp add: core_def)
    fix u v t
    show "distinct (unblocks (frames k' u))" using d ok(5) by (simp add: f create_ok_def)
    have sub: "set (unblocks (frames k' w)) \<subseteq> set (unblocks (frames k w))" for w using ok(4) by (simp add: f)
    show "u = v" if "t \<in> set (unblocks (frames k' u))" "t \<in> set (unblocks (frames k' v))"
      using d sub that unfolding create_ok_def by blast
    assume "t \<in> set (unblocks (frames k' u))"
    then have t: "st k t = Some THREAD_BLOCKED" "starts (frames k t)"
      using d sub unfolding create_ok_def by blast+
    then show "st k' t = Some THREAD_BLOCKED" "starts (frames k' t)" using n by (auto simp: f same)
  qed
  ultimately show ?thesis by (simp add: core_def)
qed

lemma schedule_inv:
  assumes c: "core k" and r: "\<And>t. st k t \<noteq> Some THREAD_RUNNING" and s: "schedule k = Some k'"
  shows "kernel_inv k'"
proof -
  note e = schedule_effect [OF s]
  have d: "st k (idle_thread k) \<noteq> Some THREAD_DYING"
    using c by (cases "idle_thread k = NULL") (auto simp: core_def idle_ok_def ready_ok_def)
  let ?n = "next_of_ready k"
  have nx: "(?n = idle_thread k \<and> ready_list k = []) \<or> (st k ?n = Some THREAD_READY \<and> ready_list k = ?n # tl (ready_list k))"
    using c by (cases "ready_list k") (auto simp: next_of_ready_def core_def ready_ok_def)
  then have i: "waits_on (frames k ?n) = None \<and> \<not> starts (frames k ?n) \<or> st k ?n = Some THREAD_READY"
    using c idle_frames_facts(1,2) e(13) by (auto simp: core_def idle_ok_def)
  have "ready_ok k'"
  proof (cases "ready_list k")
    case Nil
    then show ?thesis using c e(13) by (auto simp: core_def ready_ok_def e freed_def next_of_ready_def)
  next
    case (Cons a as)
    then have n: "?n = a" and a: "a \<notin> set as" "distinct as"
      and m: "(t = a \<or> t \<in> set as) = (st k t = Some THREAD_READY \<and> t \<noteq> idle_thread k)" for t
      using c by (auto simp: next_of_ready_def core_def ready_ok_def)
    have "t \<in> set as \<longleftrightarrow> st k' t = Some THREAD_READY \<and> t \<noteq> idle_thread k" for t
      using m [of t] m [of a] a(1) by (auto simp: e n freed_def)
    then show ?thesis using c a e(13) by (simp add: ready_ok_def core_def e freed_def Cons)
  qed
  moreover have "wait_ok k'"
    using c i by (auto simp: core_def wait_ok_def e freed_def)
  moreover have "todo_ok k'"
  proof -
    have "{t. st k' t \<noteq> None} \<subseteq> {t. st k t \<noteq> None}" using e(14) by (auto simp: e)
    then have "finite {t. st k' t \<noteq> None}" using c finite_subset unfolding core_def todo_ok_def by blast
    then show ?thesis using c by (simp add: core_def todo_ok_def e(4))
  qed
  moreover have "idle_ok k'"
  proof -
    have "\<not> freed k (idle_thread k)" using d by (simp add: freed_def)
    then have "frames k' (idle_thread k) = frames k (idle_thread k)"
      "st k (idle_thread k) \<notin> {None, Some THREAD_DYING} \<Longrightarrow> st k' (idle_thread k) \<notin> {None, Some THREAD_DYING}" by (simp_all add: e)
    moreover have "idle_inits (frames k' t) \<Longrightarrow> idle_inits (frames k t)" for t by (simp add: e split: if_splits)
    ultimately show ?thesis using c unfolding core_def idle_ok_def e(5) by metis
  qed
  moreover have "create_ok k'"
  proof -
    have c': "create_ok k" using c by (simp add: core_def)
    have sub: "t \<in> set (unblocks (frames k' u)) \<Longrightarrow> t \<in> set (unblocks (frames k u))" for t u
      by (simp add: e split: if_splits)
    have "st k' t = Some THREAD_BLOCKED \<and> starts (frames k' t)"
      if "st k t = Some THREAD_BLOCKED" "starts (frames k t)" for t
      using i that by (auto simp: e freed_def)
    moreover have "distinct (unblocks (frames k' u))" for u using c' by (simp add: create_ok_def e)
    ultimately show ?thesis using c' sub unfolding create_ok_def by blast
  qed
  moreover have "one_running k'" using r by (auto simp: one_running_def e)
  ultimately show ?thesis using e(7,12) by (simp add: kernel_inv_def core_def)
qed

text \<open>The running thread gives up the processor with status \<open>x\<close>.\<close>

lemma core_leave:
  assumes c: "core k" and r: "one_running k" and x: "x \<noteq> THREAD_RUNNING" "x = THREAD_DYING \<Longrightarrow> current k \<noteq> idle_thread k"
    and st': "st k' = (st k)(current k := Some x)" and same: "frames k' = frames k" "idle_thread k' = idle_thread k"
    and rl: "ready_list k' = (if x = THREAD_READY \<and> current k \<noteq> idle_thread k then ready_list k @ [current k] else ready_list k)"
    and w: "waiters k' = (case waits_on (frames k (current k)) of None \<Rightarrow> waiters k
      | Some s \<Rightarrow> if x = THREAD_BLOCKED then (waiters k)(s := waiters k s @ [current k]) else waiters k)"
  shows "core k'" and "st k' t \<noteq> Some THREAD_RUNNING"
proof -
  have n: "st k (current k) = Some THREAD_RUNNING" "st k t = Some THREAD_RUNNING \<Longrightarrow> t = current k" for t
    using r by (auto simp: one_running_def)
  show "st k' t \<noteq> Some THREAD_RUNNING" using n(2) [of t] x(1) by (auto simp: st')
  have m: "u \<in> set (ready_list k) \<longleftrightarrow> st k u = Some THREAD_READY \<and> u \<noteq> idle_thread k"
    "distinct (ready_list k)" "st k NULL = None" for u
    using c by (simp_all add: core_def ready_ok_def)
  have "current k \<noteq> NULL" using m(3) n(1) by (metis option.distinct(1))
  then have "ready_ok k'" using m(2,3) n(1) by (auto simp: ready_ok_def st' rl same m(1))
  moreover have "wait_ok k'"
    unfolding wait_ok_def
  proof (intro allI)
    fix s
    have old: "distinct (waiters k s)"
      "u \<in> set (waiters k s) \<longleftrightarrow> st k u = Some THREAD_BLOCKED \<and> waits_on (frames k u) = Some s" for u
      using c by (simp_all add: core_def wait_ok_def)
    show "distinct (waiters k' s) \<and>
      (\<forall>t. t \<in> set (waiters k' s) \<longleftrightarrow> st k' t = Some THREAD_BLOCKED \<and> waits_on (frames k' t) = Some s)"
      using old(1) n(1) by (auto simp: w st' same old(2) split: option.split)
  qed
  moreover have "todo_ok k'"
  proof -
    have "{t. st k' t \<noteq> None} = {t. st k t \<noteq> None}" using n(1) by (auto simp: st')
    then show ?thesis using c by (simp add: core_def todo_ok_def same)
  qed
  moreover have "idle_ok k'"
    using c x(2) by (cases "current k = idle_thread k") (auto simp: core_def idle_ok_def same st')
  moreover have "create_ok k'"
  proof -
    have "st k u = Some THREAD_BLOCKED \<Longrightarrow> st k' u = Some THREAD_BLOCKED" for u using n(1) by (auto simp: st')
    then show ?thesis using c unfolding core_def create_ok_def same by blast
  qed
  ultimately show "core k'" by (simp add: core_def)
qed

lemma leave_inv:
  assumes "core k" "one_running k" "x \<noteq> THREAD_RUNNING" "x = THREAD_DYING \<Longrightarrow> current k \<noteq> idle_thread k"
    "st m = (st k)(current k := Some x)" "frames m = frames k" "idle_thread m = idle_thread k"
    "ready_list m = (if x = THREAD_READY \<and> current k \<noteq> idle_thread k then ready_list k @ [current k] else ready_list k)"
    "waiters m = (case waits_on (frames k (current k)) of None \<Rightarrow> waiters k
      | Some s \<Rightarrow> if x = THREAD_BLOCKED then (waiters k)(s := waiters k s @ [current k]) else waiters k)"
    and s: "schedule m = Some k'"
  shows "kernel_inv k'"
  by (rule schedule_inv [OF core_leave(1) [OF assms(1-9)] core_leave(2) [OF assms(1-9)] s])

text \<open>A blocked thread becomes ready, the first of the waiters of a semaphore or a new thread.\<close>

lemma core_wake:
  assumes c: "core k" and b: "st k t = Some THREAD_BLOCKED" and i: "t \<noteq> idle_thread k"
    and st': "st k' = (st k)(t := Some THREAD_READY)" and same: "frames k' = frames k" "idle_thread k' = idle_thread k"
    and rl: "ready_list k' = ready_list k @ [t]"
    and w: "waiters k' = (case waits_on (frames k t) of None \<Rightarrow> waiters k | Some s \<Rightarrow> (waiters k)(s := tl (waiters k s)))"
      "\<And>s. waits_on (frames k t) = Some s \<Longrightarrow> \<exists>ts. waiters k s = t # ts"
    and u: "\<And>u. t \<notin> set (unblocks (frames k u))"
  shows "core k'"
proof -
  have m: "u \<in> set (ready_list k) \<longleftrightarrow> st k u = Some THREAD_READY \<and> u \<noteq> idle_thread k"
    "distinct (ready_list k)" "st k NULL = None" for u
    using c by (simp_all add: core_def ready_ok_def)
  have "t \<noteq> NULL" using m(3) b by (metis option.distinct(1))
  then have "ready_ok k'" using m(2,3) b i by (auto simp: ready_ok_def st' rl same m(1))
  moreover have "wait_ok k'"
    unfolding wait_ok_def
  proof (intro allI)
    fix r
    have old: "distinct (waiters k r)"
      "u \<in> set (waiters k r) \<longleftrightarrow> st k u = Some THREAD_BLOCKED \<and> waits_on (frames k u) = Some r" for u
      using c by (simp_all add: core_def wait_ok_def)
    show "distinct (waiters k' r) \<and>
      (\<forall>t. t \<in> set (waiters k' r) \<longleftrightarrow> st k' t = Some THREAD_BLOCKED \<and> waits_on (frames k' t) = Some r)"
    proof (cases "waits_on (frames k t) = Some r")
      case True
      then obtain ts where ts: "waiters k r = t # ts" using w(2) by blast
      then have "waiters k' r = ts" using True by (simp add: w(1))
      moreover have "u \<in> set ts \<longleftrightarrow> u \<noteq> t \<and> st k u = Some THREAD_BLOCKED \<and> waits_on (frames k u) = Some r" for u
        using old(1) old(2) [of u] ts by auto
      moreover have "distinct ts" using old(1) ts by simp
      ultimately show ?thesis by (simp add: st' same)
    next
      case False
      then have "waiters k' r = waiters k r" by (auto simp: w(1) split: option.split)
      then show ?thesis using old(1) False by (auto simp: old(2) st' same)
    qed
  qed
  moreover have "todo_ok k'"
  proof -
    have "{t. st k' t \<noteq> None} = {t. st k t \<noteq> None}" using b by (auto simp: st')
    then show ?thesis using c by (simp add: core_def todo_ok_def same)
  qed
  moreover have "idle_ok k'"
    using c i by (auto simp: core_def idle_ok_def same st')
  moreover have "create_ok k'"
  proof -
    have "v \<in> set (unblocks (frames k u)) \<Longrightarrow> st k' v = st k v" for u v using u by (auto simp: st')
    then show ?thesis using c unfolding core_def create_ok_def same by metis
  qed
  ultimately show "core k'" by (simp add: core_def)
qed

text \<open>A new thread, which its creator will unblock.\<close>

lemma core_create:
  assumes c: "core k" and r: "one_running k" and t: "st k t = None" "t \<noteq> NULL"
    and st': "st k' = (st k)(t := Some THREAD_BLOCKED)"
    and fr: "frames k' = (frames k)(t := Start # body, current k := Unblock t # frames k (current k))"
    and same: "idle_thread k' = idle_thread k" "ready_list k' = ready_list k" "waiters k' = waiters k"
    and b: "frames_ok t (Start # body)" "unblocks body = []"
      "idle_inits body \<Longrightarrow> idle_thread k = NULL \<and> (\<forall>u. \<not> idle_inits (frames k u))"
    and o: "waits_on (frames k (current k)) = None" "current k \<noteq> idle_thread k"
  shows "core k'"
proof -
  have n: "st k (current k) = Some THREAD_RUNNING" using r by (simp add: one_running_def)
  then have ne: "current k \<noteq> t" "t \<noteq> current k" using t by auto
  have ft: "frames k t = []" using t(1) by (rule frames_None)
  have nb: "t \<notin> set (unblocks (frames k u))" for u using c t(1) unfolding core_def create_ok_def by (metis option.distinct(1))
  have "ready_ok k'" using c t by (auto simp: core_def ready_ok_def st' same)
  moreover have "wait_ok k'" using c t n ft ne by (auto simp: core_def wait_ok_def st' fr same)
  moreover have "todo_ok k'"
  proof -
    have "{u. st k' u \<noteq> None} \<subseteq> insert t {u. st k u \<noteq> None}" by (auto simp: st')
    then have "finite {u. st k' u \<noteq> None}" using c finite_subset unfolding core_def todo_ok_def by blast
    then show ?thesis using c o(1) b(1) by (simp add: core_def todo_ok_def fr)
  qed
  moreover have "idle_ok k'"
    using c t o(2) b(3) by (auto simp: core_def idle_ok_def fr st' same)
  moreover have "create_ok k'"
    unfolding create_ok_def
  proof (intro conjI allI impI)
    have d: "create_ok k" using c by (simp add: core_def)
    have u: "set (unblocks (frames k' u)) = (if u = current k then insert t (set (unblocks (frames k u)))
      else set (unblocks (frames k u)))" for u using b(2) ft ne by (simp add: fr)
    fix u v a
    show "distinct (unblocks (frames k' u))" using d nb b(2) by (auto simp: create_ok_def fr)
    show "u = v" if "a \<in> set (unblocks (frames k' u))" "a \<in> set (unblocks (frames k' v))"
      using d that nb unfolding create_ok_def u by (metis insertE)
    assume a: "a \<in> set (unblocks (frames k' u))"
    show "st k' a = Some THREAD_BLOCKED" "starts (frames k' a)"
      using a d n ne unfolding u create_ok_def by (auto simp: st' fr split: if_splits)
  qed
  ultimately show ?thesis by (simp add: core_def)
qed

section \<open>What the operations keep\<close>

lemma unblocks_append [simp]: "unblocks (fs @ gs) = unblocks fs @ unblocks gs"
  by (induction fs rule: unblocks.induct) auto

lemma idle_inits_append [simp]: "idle_inits (fs @ gs) \<longleftrightarrow> idle_inits fs \<or> idle_inits gs"
  by (induction fs rule: idle_inits.induct) auto

lemma calm_running: "calm k \<Longrightarrow> st k (current k) = Some THREAD_RUNNING"
  by (simp add: calm_def one_running_def)

lemma coreD:
  "core k \<Longrightarrow> st k NULL = None"
  "core k \<Longrightarrow> idle_thread k \<noteq> NULL \<Longrightarrow> idle_frames (frames k (idle_thread k))"
  "core k \<Longrightarrow> t \<in> set (unblocks (frames k u)) \<Longrightarrow> st k t = Some THREAD_BLOCKED \<and> starts (frames k t)"
  "core k \<Longrightarrow> t \<in> set (waiters k s) \<longleftrightarrow> st k t = Some THREAD_BLOCKED \<and> waits_on (frames k t) = Some s"
  by (simp_all add: core_def ready_ok_def idle_ok_def wait_ok_def) (auto simp: create_ok_def)

lemma calm_core: "calm k \<Longrightarrow> core k"
  by (simp add: calm_def)

lemma calm_current: "calm k \<Longrightarrow> current k \<noteq> NULL"
  by (metis calm_core calm_running coreD(1) option.distinct(1))

lemma calm_frames_ok: "calm k \<Longrightarrow> frames_ok (current k) (frames k (current k))"
  by (simp add: calm_def core_def todo_ok_def)

lemma core_push:
  assumes "calm k" "frames_ok (current k) (fs @ frames k (current k))" "unblocks fs = []" "\<not> idle_inits fs"
    "current k = idle_thread k \<Longrightarrow> list_all idle_frame fs"
  shows "core (push_frames fs k)"
proof (rule core_local [where fs = "fs @ frames k (current k)"])
  show "core k" "one_running k" using assms(1) by (simp_all add: calm_def)
  show "frames (push_frames fs k) = (frames k)(current k := fs @ frames k (current k))"
    using calm_running [OF assms(1)] by simp
  have "create_ok k" using assms(1) by (simp add: calm_def core_def)
  then show "distinct (unblocks (fs @ frames k (current k)))" using assms(3) by (simp add: create_ok_def)
  show "idle_frames (fs @ frames k (current k))" if "current k = idle_thread k"
  proof -
    have "idle_frames (frames k (current k))"
      using calm_current [OF assms(1)] coreD(2) [OF calm_core [OF assms(1)]] that by simp
    then show ?thesis using assms(5) that by (simp add: idle_frames_def)
  qed
qed (use assms in auto)

lemma calm_push:
  assumes "calm k" "frames_ok (current k) (fs @ frames k (current k))" "unblocks fs = []" "\<not> idle_inits fs"
    "current k = idle_thread k \<Longrightarrow> list_all idle_frame fs" "waits_on (fs @ frames k (current k)) = None"
  shows "calm (push_frames fs k)"
  using core_push [OF assms(1-5)] assms(1,6) calm_running [OF assms(1)] by (simp add: calm_def one_running_def)

lemma sema_down_loop_inv:
  assumes k: "calm k" "current k \<noteq> idle_thread k" and f: "frame_ok (current k) (Down s l) (frames k (current k))"
    and d: "sema_down_loop s l k = Some k'"
  shows "kernel_inv k'"
proof (cases "sem_value k s = 0")
  case True
  let ?p = "push_frames [Down s l] k"
  let ?m = "set_status (current k) THREAD_BLOCKED (push_frames [Down s l]
    (k\<lparr>waiters := (waiters k)(s := waiters k s @ [current k])\<rparr>))"
  note r = calm_running [OF k(1)]
  have w: "waits_on (frames k (current k)) = None" using k(1) by (simp add: calm_def)
  have c: "core ?p" by (rule core_push) (use k f w calm_frames_ok [OF k(1)] in auto)
  have "schedule ?m = Some k'" using d True by (auto simp: sema_down_loop_def thread_block_def monad_simps)
  moreover have "one_running ?p" using k(1) by (simp add: calm_def one_running_def)
  ultimately show ?thesis using c k(2) r by (intro leave_inv [of ?p THREAD_BLOCKED ?m]) auto
next
  case False
  then show ?thesis using d k(1) by (auto simp: sema_down_loop_def intro!: calm_inv)
qed

lemma sema_down_inv:
  assumes "calm k" "current k \<noteq> idle_thread k" "frame_ok (current k) (Down s l) (frames k (current k))"
    "sema_down s k = Some k'"
  shows "kernel_inv k'"
  using assms sema_down_loop_inv [of "k\<lparr>intr_on := False\<rparr>" s "intr_on k" k'] by (cases s) (auto simp: sema_down_def)

lemma calm_wake:
  assumes k: "calm k" and t: "st k t = Some THREAD_BLOCKED" "t \<noteq> idle_thread k"
    and k': "st k' = (st k)(t := Some THREAD_READY)" "frames k' = frames k" "idle_thread k' = idle_thread k"
      "current k' = current k" "ready_list k' = ready_list k @ [t]"
      "waiters k' = (case waits_on (frames k t) of None \<Rightarrow> waiters k | Some s \<Rightarrow> (waiters k)(s := tl (waiters k s)))"
    and w: "\<And>s. waits_on (frames k t) = Some s \<Longrightarrow> \<exists>ts. waiters k s = t # ts"
    and u: "\<And>u. t \<notin> set (unblocks (frames k u))"
  shows "calm k'"
proof -
  have "core k'" by (rule core_wake [OF _ t k'(1-3,5,6) w u]) (use k in \<open>auto simp: calm_def\<close>)
  moreover have "current k \<noteq> t" using t(1) calm_running [OF k] by auto
  ultimately show ?thesis using k by (auto simp: calm_def one_running_def k')
qed

lemma waiter_facts:
  assumes "core k" "t \<in> set (waiters k s)"
  shows "st k t = Some THREAD_BLOCKED" "waits_on (frames k t) = Some s" "t \<noteq> idle_thread k"
    "t \<notin> set (unblocks (frames k u))"
proof -
  show t: "st k t = Some THREAD_BLOCKED" "waits_on (frames k t) = Some s"
    using assms(2) by (simp_all add: coreD(4) [OF assms(1)])
  show "t \<noteq> idle_thread k"
    by (metis assms(1) coreD(1,2) t idle_frames_facts(1) option.distinct(1))
  show "t \<notin> set (unblocks (frames k u))"
    using coreD(3) [OF assms(1), of t u] t starts_waits_on [of "frames k t"] by auto
qed

lemma sema_up_calm:
  assumes k: "calm k" and u: "sema_up s k = Some k'"
  shows "calm k'"
proof (cases "waiters k s")
  case Nil
  then show ?thesis using assms by (auto simp: sema_up_def)
next
  case (Cons t ts)
  then have "t \<in> set (waiters k s)" by simp
  with k have t: "st k t = Some THREAD_BLOCKED" "waits_on (frames k t) = Some s" "t \<noteq> idle_thread k"
    "\<And>u. t \<notin> set (unblocks (frames k u))" using waiter_facts [of k t s] by (auto simp: calm_def)
  let ?m = "set_status t THREAD_READY (k\<lparr>waiters := (waiters k)(s := ts), ready_list := ready_list k @ [t]\<rparr>)"
  have "calm ?m" by (rule calm_wake [OF k t(1,3)]) (use t Cons in auto)
  then show ?thesis using u Cons by (auto simp: sema_up_def thread_unblock_def monad_simps)
qed

end
