(* ===== verification/Thread_Steps.thy ===== *)
theory Thread_Steps
  imports Thread_Inv
begin

text \<open>
  Every step of the thread system keeps the invariant: the routines of threads/synch.c and
  threads/thread.c one by one, the frames of a suspended routine, interrupts, and the initial state.
\<close>

section \<open>Locks and condition variables\<close>

lemma lock_acquire_inv:
  assumes k: "calm k" "current k \<noteq> idle_thread k" and a: "lock_acquire l k = Some k'"
  shows "kernel_inv k'"
proof -
  have w: "waits_on (frames k (current k)) = None" using k(1) by (simp add: calm_def)
  have "calm (push_frames [Set_holder l] k)"
    by (rule calm_push) (use k w calm_frames_ok [OF k(1)] in auto)
  then show ?thesis using sema_down_inv [of "push_frames [Set_holder l] k" "Lock_sema l" True k'] a k calm_running [OF k(1)]
    by (auto simp: lock_acquire_def monad_simps)
qed

lemma sema_try_down_calm: "calm k \<Longrightarrow> calm (snd (sema_try_down s k))"
  by (simp add: sema_try_down_def)

lemma lock_try_acquire_calm:
  assumes k: "calm k" "current k \<noteq> idle_thread k" and a: "lock_try_acquire l k = Some (b, k')"
  shows "calm k'"
proof -
  let ?d = "snd (sema_try_down (Lock_sema l) k)"
  have d: "calm ?d" "current ?d = current k" "idle_thread ?d = idle_thread k" "frames ?d = frames k"
    using k sema_try_down_calm by (auto simp: sema_try_down_def)
  have w: "waits_on (frames k (current k)) = None" using k(1) by (simp add: calm_def)
  have "calm (push_frames [Set_holder l] ?d)"
    by (rule calm_push) (use k d w calm_frames_ok [OF k(1)] in auto)
  then show ?thesis using a d(1) by (auto simp: lock_try_acquire_def monad_simps split: prod.splits if_splits)
qed

lemma lock_release_calm:
  assumes k: "calm k" "current k \<noteq> idle_thread k" and r: "lock_release l k = Some k'"
  shows "calm k'"
proof -
  have w: "waits_on (frames k (current k)) = None" using k(1) by (simp add: calm_def)
  have "calm (push_frames [Up (Lock_sema l)] (k\<lparr>holder := (holder k)(l := NULL)\<rparr>))"
    by (rule calm_push) (use k w calm_frames_ok [OF k(1)] in auto)
  then show ?thesis using r by (auto simp: lock_release_def monad_simps)
qed

lemma no_waiters_self:
  assumes "calm k"
  shows "waiters k (Waiter (current k)) = []"
proof (rule ccontr)
  assume "waiters k (Waiter (current k)) \<noteq> []"
  then obtain t where t: "t \<in> set (waiters k (Waiter (current k)))" using list.set_intros(1) neq_Nil_conv by metis
  note w = waiter_facts(1,2) [OF calm_core [OF assms] t]
  have "frames_ok t (frames k t)" using assms by (simp add: calm_def core_def todo_ok_def)
  then have "t = current k" using w(2) by (cases "frames k t" rule: waits_on.cases) auto
  then show False using w(1) calm_running [OF assms] by simp
qed

lemma sema_init_calm: "calm k \<Longrightarrow> waiters k s = [] \<Longrightarrow> calm (sema_init s v k)"
  unfolding sema_init_def by (rule calm_cong) auto

lemma cond_wait_calm:
  assumes k: "calm k" "current k \<noteq> idle_thread k" and r: "cond_wait c l k = Some k'"
  shows "calm k'"
proof -
  have w: "waits_on (frames k (current k)) = None" using k(1) by (simp add: calm_def)
  let ?i = "sema_init (Waiter (current k)) 0 k"
  let ?m = "?i\<lparr>cond_waiters := (cond_waiters ?i)(c := cond_waiters ?i c @ [current k])\<rparr>"
  let ?p = "push_frames [Call_down (Waiter (current k)), Call_acquire l] ?m"
  have m: "calm ?m" "frames ?m = frames k" "current ?m = current k" "idle_thread ?m = idle_thread k"
    using sema_init_calm [OF k(1) no_waiters_self [OF k(1)]] by (simp_all add: sema_init_def)
  have p: "calm ?p"
    by (rule calm_push) (use k m w calm_frames_ok [OF k(1)] in auto)
  have "lock_release l ?p = Some k'" using r by (simp add: cond_wait_def Let_def monad_simps)
  then show ?thesis by (rule lock_release_calm [OF p, rotated]) (use m k(2) in simp)
qed

lemma cond_signal_calm: "calm k \<Longrightarrow> cond_signal c l k = Some k' \<Longrightarrow> calm k'"
  by (auto simp: cond_signal_def monad_simps split: list.splits intro: sema_up_calm [rotated])

lemma cond_broadcast_calm:
  assumes k: "calm k" "current k \<noteq> idle_thread k" and r: "cond_broadcast c l k = Some k'"
  shows "calm k'"
proof -
  have w: "waits_on (frames k (current k)) = None" using k(1) by (simp add: calm_def)
  have "calm (push_frames [Broadcast c l] k)"
    by (rule calm_push) (use k w calm_frames_ok [OF k(1)] in auto)
  then show ?thesis using r k(1) by (auto simp: cond_broadcast_def split: if_splits intro: cond_signal_calm [rotated])
qed

section \<open>Threads\<close>

lemma thread_yield_inv:
  assumes k: "calm k" and y: "thread_yield rest k = Some k'" and r: "rest = [] \<or> rest = [Iret]"
  shows "kernel_inv k'"
proof -
  let ?p = "push_frames (Set_level (intr_on k) # rest) k"
  let ?m = "set_status (current k) THREAD_READY (if current k \<noteq> idle_thread k
    then ?p\<lparr>intr_on := False, ready_list := ready_list k @ [current k]\<rparr> else ?p\<lparr>intr_on := False\<rparr>)"
  have w: "waits_on (frames k (current k)) = None" using k by (simp add: calm_def)
  have "calm ?p" by (rule calm_push) (use k w r calm_frames_ok [OF k] in auto)
  moreover from this have "core ?p" "one_running ?p" "waits_on (frames ?p (current ?p)) = None" unfolding calm_def by auto
  moreover have "schedule ?m = Some k'" using y by (auto simp: thread_yield_def Let_def monad_simps split: if_splits)
  ultimately show ?thesis using calm_running [OF k] by (intro leave_inv [of ?p THREAD_READY ?m]) auto
qed

lemma thread_exit_inv:
  assumes k: "calm k" "current k \<noteq> idle_thread k" and x: "thread_exit k = Some k'"
  shows "kernel_inv k'"
proof -
  let ?m = "set_status (current k) THREAD_DYING (k\<lparr>intr_on := False, all_list := remove1 (current k) (all_list k)\<rparr>)"
  have w: "waits_on (frames k (current k)) = None" using k by (simp add: calm_def)
  have "schedule ?m = Some k'" using x by (auto simp: thread_exit_def Let_def monad_simps)
  then show ?thesis using k calm_running [OF k(1)] w unfolding calm_def
    by (intro leave_inv [of k THREAD_DYING ?m]) auto
qed

lemma push_frames_append: "push_frames (fs @ gs) k = push_frames fs (push_frames gs k)"
  by (auto simp: push_frames_def upd_thread_def fun_eq_iff option.map_comp comp_def intro!: arg_cong2 [of _ _ _ _ threads_update])

text \<open>\<^verbatim>\<open>thread_create\<close> up to its call of \<^verbatim>\<open>lock_acquire\<close> in \<^verbatim>\<open>allocate_tid\<close>.\<close>

lemma thread_create_prepare:
  assumes k: "calm k" "current k \<noteq> idle_thread k" and x: "thread_create t p body k = Some k'" and t0: "t \<noteq> NULL"
    and b: "body = [] \<or> body = [Idle_init (Sema n)] \<and> idle_thread k = NULL \<and> (\<forall>u. \<not> idle_inits (frames k u))"
  obtains q where "calm q" "current q = current k" "idle_thread q = idle_thread k" "lock_acquire tid_lock q = Some k'"
    "st k t = None" "st q = (st k)(t := Some THREAD_BLOCKED)"
    "frames q = (frames k)(t := Start # body, current k := [Take_tid t, Call_release tid_lock, Unblock t] @ frames k (current k))"
    "waiters q = waiters k" "sem_value q = sem_value k" "holder q = holder k"
proof -
  obtain m where t: "st k t = None" and m: "init_thread t p k = Some m"
    and x': "lock_acquire tid_lock (push_frames [Take_tid t, Call_release tid_lock, Unblock t]
      (upd_thread t (\<lambda>th. th\<lparr>todo := Start # body\<rparr>) m)) = Some k'"
    using x t0 by (auto simp: thread_create_def monad_simps Let_def st_def)
  let ?u = "upd_thread t (\<lambda>th. th\<lparr>todo := Start # body\<rparr>) m"
  let ?c = "push_frames [Unblock t] ?u"
  let ?q = "push_frames [Take_tid t, Call_release tid_lock] ?c"
  have r: "st k (current k) = Some THREAD_RUNNING" using k(1) by (rule calm_running)
  then have ne: "current k \<noteq> t" using t by auto
  have w: "waits_on (frames k (current k)) = None" using k(1) by (simp add: calm_def)
  have sm: "st m = (st k)(t := Some THREAD_BLOCKED)" "frames m = (frames k)(t := [])" "current m = current k"
    "idle_thread m = idle_thread k" "ready_list m = ready_list k" "waiters m = waiters k" "sem_value m = sem_value k"
    "holder m = holder k"
    using m by (auto simp: init_thread_def monad_simps st_def frames_def fun_eq_iff)
  have c: "core ?c"
    by (rule core_create [OF calm_core [OF k(1)] _ t t0, where body = body])
      (use k(1) ne b w k(2) r in \<open>auto simp: sm calm_def\<close>)
  have cc: "calm ?c" "current ?c = current k" "idle_thread ?c = idle_thread k" "st ?c (current k) = Some THREAD_RUNNING"
    "frames ?c (current k) = Unblock t # frames k (current k)"
    using c k(1) ne r w by (auto simp: calm_def one_running_def sm)
  have "calm ?q" by (rule calm_push) (use cc k(2) calm_frames_ok [OF cc(1)] in auto)
  moreover have "push_frames [Take_tid t, Call_release tid_lock, Unblock t] ?u = ?q"
    using push_frames_append [of "[Take_tid t, Call_release tid_lock]" "[Unblock t]"] by simp
  then have "lock_acquire tid_lock ?q = Some k'" using x' by simp
  ultimately show ?thesis using that [of ?q] t r ne by (simp add: sm)
qed

lemma thread_create_inv:
  assumes k: "calm k" "current k \<noteq> idle_thread k" and x: "thread_create t p body k = Some k'"
    and b: "body = [] \<or> body = [Idle_init (Sema n)] \<and> idle_thread k = NULL \<and> (\<forall>u. \<not> idle_inits (frames k u))"
  shows "kernel_inv k'"
proof (cases "t = NULL")
  case True
  then show ?thesis using x k(1) by (auto simp: thread_create_def intro: calm_inv)
next
  case False
  obtain q where "calm q" "current q = current k" "idle_thread q = idle_thread k" "lock_acquire tid_lock q = Some k'"
    using thread_create_prepare [OF k x False b] by metis
  then show ?thesis using k(2) lock_acquire_inv by simp
qed

section \<open>Frames\<close>

lemma pop_frame_effect:
  assumes "pop_frame k = Some (f, k1)"
  shows "frames k (current k) = f # frames k1 (current k)" "k1 = upd_thread (current k) (\<lambda>th. th\<lparr>todo := frames k1 (current k)\<rparr>) k"
    "st k (current k) = Some THREAD_RUNNING"
proof -
  obtain th where th: "thread_current k = Some th" using assms by (auto simp: pop_frame_def monad_simps)
  then have "threads k (current k) = Some th" "status th = THREAD_RUNNING" by (auto simp: thread_current_iff)
  moreover from th obtain fs where "todo th = f # fs" "k1 = upd_thread (current k) (\<lambda>th. th\<lparr>todo := fs\<rparr>) k"
    using assms by (cases "todo th") (auto simp: pop_frame_def)
  ultimately show "frames k (current k) = f # frames k1 (current k)" "st k (current k) = Some THREAD_RUNNING"
    "k1 = upd_thread (current k) (\<lambda>th. th\<lparr>todo := frames k1 (current k)\<rparr>) k"
    by (auto simp: frames_def st_def upd_thread_def)
qed

lemma pop_frame_views:
  assumes "pop_frame k = Some (f, k1)"
  shows "frames k1 = (frames k)(current k := tl (frames k (current k)))" "st k1 = st k" "current k1 = current k"
    "ready_list k1 = ready_list k" "idle_thread k1 = idle_thread k" "waiters k1 = waiters k" "intr_on k1 = intr_on k"
    "sem_value k1 = sem_value k" "holder k1 = holder k" "cond_waiters k1 = cond_waiters k"
proof -
  note e = pop_frame_effect [OF assms]
  define g where "g = frames k1 (current k)"
  have k1: "k1 = upd_thread (current k) (\<lambda>th. th\<lparr>todo := g\<rparr>) k" using e(2) by (simp add: g_def)
  show "frames k1 = (frames k)(current k := tl (frames k (current k)))" using e(1,3) by (simp add: k1)
  show "st k1 = st k" "current k1 = current k" "ready_list k1 = ready_list k" "idle_thread k1 = idle_thread k"
    "waiters k1 = waiters k" "intr_on k1 = intr_on k" "sem_value k1 = sem_value k" "holder k1 = holder k"
    "cond_waiters k1 = cond_waiters k"
    by (simp_all add: k1)
qed

lemma unblocks_tl: "set (unblocks fs) \<subseteq> set (unblocks (f # fs))" "distinct (unblocks (f # fs)) \<Longrightarrow> distinct (unblocks fs)"
  "idle_inits fs \<Longrightarrow> idle_inits (f # fs)"
  by (cases f; auto)+

lemma running_idle:
  assumes "kernel_inv k" "current k = idle_thread k"
  shows "idle_frames (frames k (current k))"
proof -
  have "st k (current k) = Some THREAD_RUNNING" "core k" using assms(1) by (auto simp: kernel_inv_def one_running_def)
  then have "current k \<noteq> NULL" by (metis coreD(1) option.distinct(1))
  then show ?thesis using coreD(2) [OF \<open>core k\<close>] assms(2) by simp
qed

lemma core_replace:
  assumes k: "kernel_inv k" and p: "pop_frame k = Some (f, k1)"
    and f: "frames k2 = (frames k1)(current k := gs @ frames k1 (current k))"
    and same: "st k2 = st k" "ready_list k2 = ready_list k" "idle_thread k2 = idle_thread k" "waiters k2 = waiters k"
    and g: "gs \<in> {[], [Idle_block], [Idle_hlt]}" "gs = [] \<Longrightarrow> f \<notin> {Idle_block, Idle_hlt}"
      "gs \<noteq> [] \<Longrightarrow> f \<in> {Idle_block, Idle_hlt}"
  shows "core k2"
proof (rule core_local [where k = k and fs = "gs @ frames k1 (current k)"])
  let ?fs = "frames k1 (current k)"
  note e = pop_frame_effect(1) [OF p] pop_frame_views [OF p]
  have c: "core k" "one_running k" using k by (auto simp: kernel_inv_def)
  then show "core k" "one_running k" by auto
  show "frames k2 = (frames k)(current k := gs @ frames k1 (current k))" by (simp add: f e(2))
  have "frames_ok (current k) (f # ?fs)" using c(1) e(1) by (simp add: core_def todo_ok_def flip: e(1))
  then show "frames_ok (current k) (gs @ ?fs)" using g(1) by auto
  have "distinct (unblocks (f # ?fs))" using c(1) by (simp add: core_def create_ok_def flip: e(1))
  then show "distinct (unblocks (gs @ ?fs))" using g(1) unblocks_tl(2) by auto
  show "set (unblocks (gs @ ?fs)) \<subseteq> set (unblocks (frames k (current k)))"
    using g(1) unblocks_tl(1) [of ?fs f] by (auto simp: e(1))
  show "idle_inits (frames k (current k))" if "idle_inits (gs @ ?fs)"
    using that g(1) unblocks_tl(3) [of ?fs f] by (auto simp: e(1))
  show "idle_frames (gs @ ?fs)" if "current k = idle_thread k"
  proof -
    have "idle_frames (f # ?fs)" using running_idle [OF k that] by (simp add: e(1))
    then show ?thesis using g by (cases "?fs = []") (auto simp: idle_frames_def)
  qed
qed (use same in auto)

lemma pop_calm:
  assumes k: "kernel_inv k" and p: "pop_frame k = Some (f, k1)" and f: "f \<notin> {Idle_block, Idle_hlt}"
  shows "calm k1" "frame_ok (current k) f (frames k1 (current k))"
    "current k = idle_thread k \<Longrightarrow> idle_frame f"
proof -
  note e = pop_frame_effect(1) [OF p] pop_frame_views [OF p]
  have c: "core k1" by (rule core_replace [OF k p, of _ "[]"]) (use f e(2-) in auto)
  have ok: "frames_ok (current k) (f # frames k1 (current k))"
    using k by (simp add: kernel_inv_def core_def todo_ok_def flip: e(1))
  have "one_running k1" using k by (simp add: kernel_inv_def one_running_def e(2-))
  then show "calm k1" using c ok e(2-) by (simp add: calm_def)
  show "frame_ok (current k) f (frames k1 (current k))" using ok by simp
  show "current k = idle_thread k \<Longrightarrow> idle_frame f"
    using running_idle [OF k] unfolding e(1) by (simp add: idle_frames_def)
qed

lemma idle_replace_calm:
  assumes k: "kernel_inv k" and p: "pop_frame k = Some (f, k1)" and f: "f \<in> {Idle_block, Idle_hlt}"
    and g: "g \<in> {Idle_block, Idle_hlt}"
  shows "calm (push_frames [g] (k1\<lparr>intr_on := b\<rparr>))"
proof -
  note e = pop_frame_effect(1,3) [OF p] pop_frame_views [OF p]
  have "core (push_frames [g] (k1\<lparr>intr_on := b\<rparr>))"
    by (rule core_replace [OF k p, of _ "[g]"]) (use f e(2-) g in auto)
  moreover have "one_running (push_frames [g] (k1\<lparr>intr_on := b\<rparr>))"
    using k by (simp add: kernel_inv_def one_running_def e(3-))
  ultimately show ?thesis using g e(2-) by (auto simp: calm_def)
qed

lemma frame_idle:
  assumes k: "kernel_inv k" and p: "pop_frame k = Some (f, k1)" and f: "f \<in> {Idle_block, Idle_hlt}"
    and r: "run_frame f k1 = Some k2"
  shows "kernel_inv k2"
proof (cases "f = Idle_hlt")
  case True
  then show ?thesis using r idle_replace_calm [OF k p f, of Idle_block True] by (auto intro: calm_inv)
next
  case False
  note e = pop_frame_effect(1,3) [OF p] pop_frame_views [OF p]
  let ?p = "push_frames [Idle_hlt] (k1\<lparr>intr_on := False\<rparr>)"
  let ?m = "set_status (current k) THREAD_BLOCKED ?p"
  have "schedule ?m = Some k2" using False f r by (auto simp: thread_block_def monad_simps e(3-))
  then show ?thesis using idle_replace_calm [OF k p f, of Idle_hlt False] e(2-) unfolding calm_def
    by (intro leave_inv [of ?p THREAD_BLOCKED ?m]) auto
qed

lemma frame_idle_init:
  assumes k: "kernel_inv k" and p: "pop_frame k = Some (Idle_init s, k1)"
    and r: "run_frame (Idle_init s) k1 = Some k2"
  shows "kernel_inv k2"
proof -
  note e = pop_frame_effect(1,3) [OF p] pop_frame_views [OF p]
  have ck: "core k" using k by (simp add: kernel_inv_def)
  have c: "calm k1" and n: "frames k1 (current k) = []"
    using pop_calm [OF k p] by auto
  have i: "idle_thread k = NULL" "\<And>u. u \<noteq> current k \<Longrightarrow> \<not> idle_inits (frames k u)"
    using ck e(1) unfolding core_def idle_ok_def by (metis idle_inits.simps(2))+
  have k2: "k2 = push_frames [Up s, Idle_block] (k1\<lparr>idle_thread := current k\<rparr>)" using r e(5) by simp
  have v: "st k2 = st k1" "frames k2 = (frames k1)(current k := [Up s, Idle_block])" "ready_list k2 = ready_list k1"
    "waiters k2 = waiters k1" "idle_thread k2 = current k" "current k2 = current k"
    using n e(2,4) by (simp_all add: k2 e(3-))
  have "t \<in> set (ready_list k1) \<longleftrightarrow> st k1 t = Some THREAD_READY \<and> t \<noteq> current k" for t
    using ck e(2) i(1) unfolding core_def ready_ok_def e(3-) by (metis option.inject thread_status.distinct(1) option.distinct(1))
  then have "ready_ok k2" using calm_core [OF c] unfolding core_def ready_ok_def v by blast
  moreover have "wait_ok k2"
    using coreD(4) [OF calm_core [OF c]] calm_core [OF c] e(2,4) by (auto simp: core_def wait_ok_def v)
  moreover have "todo_ok k2" using calm_core [OF c] by (simp add: core_def todo_ok_def v)
  moreover have "idle_ok k2"
    using i(2) e(2,4) by (auto simp: idle_ok_def v idle_frames_def e(3))
  moreover have "create_ok k2"
  proof -
    have "unblocks (frames k2 u) = unblocks (frames k1 u)" for u by (simp add: v n)
    moreover have "st k1 t = Some THREAD_BLOCKED \<Longrightarrow> frames k2 t = frames k1 t" for t using e(2,4) by (auto simp: v)
    ultimately show ?thesis using calm_core [OF c] unfolding core_def create_ok_def v(1) by metis
  qed
  moreover have "one_running k2" using c e(5) by (simp add: calm_def one_running_def v)
  ultimately show ?thesis by (simp add: kernel_inv_def core_def v)
qed

lemma frame_unblock:
  assumes k: "kernel_inv k" and p: "pop_frame k = Some (Unblock t, k1)" and r: "run_frame (Unblock t) k1 = Some k2"
  shows "calm k2"
proof -
  note e = pop_frame_effect(1,3) [OF p] pop_frame_views [OF p]
  have ck: "core k" using k by (simp add: kernel_inv_def)
  have c: "calm k1" using pop_calm [OF k p] by simp
  have t: "t \<in> set (unblocks (frames k (current k)))" by (simp add: e(1))
  have b: "st k t = Some THREAD_BLOCKED" "starts (frames k t)" using coreD(3) [OF ck t] by auto
  have "t \<noteq> current k" using b(1) e(2) by auto
  have "distinct (unblocks (frames k (current k)))" using ck by (simp add: core_def create_ok_def)
  then have "t \<notin> set (unblocks (frames k1 (current k)))" by (simp add: e(1))
  moreover have "t \<in> set (unblocks (frames k u)) \<Longrightarrow> u = current k" for u
    using ck t unfolding core_def create_ok_def by blast
  ultimately have u: "t \<notin> set (unblocks (frames k1 u))" for u using e(3) by (cases "u = current k") auto
  have "t \<noteq> idle_thread k1"
    using b coreD(1,2) [OF ck] idle_frames_facts(2) e(7) by (metis option.distinct(1))
  then show ?thesis
    using calm_wake [OF c, of t k2] r u b \<open>t \<noteq> current k\<close> starts_waits_on [OF b(2)]
    by (auto simp: thread_unblock_def monad_simps e(3-))
qed

lemma calm_upd [simp]:
  "calm k \<Longrightarrow> calm (upd_thread t (\<lambda>th. th\<lparr>tid := h th\<rparr>) k)"
  "calm k \<Longrightarrow> calm (upd_thread t (\<lambda>th. th\<lparr>priority := i th\<rparr>) k)"
  by (auto elim!: calm_cong)

lemma step_frame:
  assumes k: "kernel_inv k" and p: "pop_frame k = Some (f, k1)" and r: "run_frame f k1 = Some k2"
  shows "kernel_inv k2"
proof -
  note v = pop_frame_views [OF p]
  consider "f \<in> {Idle_block, Idle_hlt}" | s where "f = Idle_init s" | t where "f = Unblock t" |
    "f \<notin> {Idle_block, Idle_hlt} \<union> range Idle_init \<union> range Unblock" by blast
  then show ?thesis
  proof cases
    case 1
    then show ?thesis using frame_idle [OF k p _ r] by simp
  next
    case 2
    then show ?thesis using frame_idle_init [OF k] p r by simp
  next
    case 3
    then show ?thesis using frame_unblock [OF k] p r calm_inv by blast
  next
    case 4
    then have c: "calm k1" "frame_ok (current k1) f (frames k1 (current k1))"
      and i: "\<not> idle_frame f \<Longrightarrow> current k1 \<noteq> idle_thread k1"
      using pop_calm [OF k p] by (auto simp: v)
    then show ?thesis
    proof (cases f)
      case (Down s l)
      then show ?thesis using sema_down_loop_inv [OF c(1)] c(2) i r by simp
    next
      case (Call_down s)
      then show ?thesis using sema_down_inv [OF c(1), of s True] c(2) i r by (cases s) simp_all
    next
      case (Take_tid t)
      then show ?thesis using c(1) r calm_upd(1) [OF c(1), of t "\<lambda>_. next_tid k1"] by (auto intro: calm_inv)
    qed (use 4 r c i in \<open>auto intro: calm_inv sema_up_calm lock_acquire_inv lock_release_calm cond_broadcast_calm\<close>)
  qed
qed

section \<open>Calls and interrupts\<close>

lemma step_call:
  assumes k: "kernel_inv k" and t: "thread_current k = Some th" "todo th = []" and d: "do_call c k = Some k2"
  shows "kernel_inv k2"
proof -
  have f: "frames k (current k) = []" using t by (auto simp: thread_current_iff frames_def)
  then have c: "calm k" and i: "current k \<noteq> idle_thread k"
    using k running_idle [OF k] by (auto simp: kernel_inv_def calm_def idle_frames_def)
  show ?thesis
  proof (cases c)
    case (C_down n)
    then show ?thesis using sema_down_inv [OF c i, of "Sema n"] d by simp
  next
    case (C_try_down n)
    then show ?thesis using sema_try_down_calm [OF c] d by (auto intro: calm_inv)
  next
    case (C_create t p)
    then show ?thesis using thread_create_inv [OF c i] d by simp
  next
    case C_yield
    then show ?thesis using thread_yield_inv [OF c] d by simp
  next
    case (C_priority p)
    then show ?thesis using calm_upd(2) [OF c, of "current k" "\<lambda>_. p"] d
      by (auto simp: thread_set_priority_def intro: calm_inv)
  qed (use c i d in \<open>auto intro: calm_inv sema_up_calm lock_acquire_inv lock_try_acquire_calm lock_release_calm
      cond_wait_calm cond_signal_calm cond_broadcast_calm thread_exit_inv\<close>)
qed

lemma step_timer:
  assumes k: "kernel_inv k" "intr_on k" and t: "intr_handler_timer k = Some k2"
  shows "kernel_inv k2"
proof -
  have c: "calm k" using k by (simp add: kernel_inv_def calm_def)
  obtain b m where m: "timer_interrupt (k\<lparr>intr_on := False\<rparr>) = Some (b, m)"
    and r: "(if b then thread_yield [Iret] m else Some (m\<lparr>intr_on := True\<rparr>)) = Some k2"
    using t by (auto simp: intr_handler_timer_def monad_simps)
  have "calm m" using m c by (auto simp: timer_interrupt_def thread_tick_def Let_def monad_simps)
  then show ?thesis using r by (auto split: if_splits intro: calm_inv thread_yield_inv)
qed

lemma step_device:
  assumes k: "kernel_inv k" "intr_on k" and t: "intr_handler_up n k = Some k2"
  shows "kernel_inv k2"
proof -
  have "calm k" using k by (simp add: kernel_inv_def calm_def)
  then show ?thesis using t sema_up_calm [of "k\<lparr>intr_on := False\<rparr>"] by (auto simp: intr_handler_up_def intro: calm_inv)
qed

lemma step_sema_init:
  assumes k: "kernel_inv k" and w: "waiters k (Sema n) = []"
  shows "kernel_inv (sema_init (Sema n) v k)"
proof -
  have "core (sema_init (Sema n) v k)"
    unfolding sema_init_def by (rule core_cong [of k]) (use k w in \<open>auto simp: kernel_inv_def\<close>)
  then show ?thesis using k by (simp add: kernel_inv_def one_running_def sema_init_def)
qed

lemma kstep_inv: "kstep k k2 \<Longrightarrow> kernel_inv k \<Longrightarrow> kernel_inv k2"
  by (erule kstepE) (auto intro: step_frame step_call step_timer step_device step_sema_init)

section \<open>The initial state\<close>

lemma thread_init_views:
  "st (thread_init t) = [t \<mapsto> THREAD_RUNNING]" "frames (thread_init t) = (\<lambda>u. [])"
  "current (thread_init t) = t" "ready_list (thread_init t) = []" "idle_thread (thread_init t) = NULL"
  "waiters (thread_init t) = (\<lambda>s. [])" "holder (thread_init t) = (\<lambda>l. NULL)"
  "sem_value (thread_init t) (Lock_sema l) = 1"
  by (auto simp: thread_init_def st_def frames_def fun_eq_iff)

lemma thread_init_calm: "t \<noteq> NULL \<Longrightarrow> calm (thread_init t)"
  by (auto simp: calm_def core_defs one_running_def thread_init_views)

lemma thread_start_inv:
  assumes t: "t \<noteq> NULL" and s: "thread_start i (thread_init t) = Some k"
  shows "kernel_inv k"
proof -
  let ?s = "sema_init (Sema 0) 0 (thread_init t)"
  let ?p = "push_frames [Start, Call_down (Sema 0)] ?s"
  have c: "calm ?s" using sema_init_calm [OF thread_init_calm [OF t]] by (simp add: thread_init_views)
  have v: "current ?s = t" "frames ?s = (\<lambda>u. [])" "idle_thread ?s = NULL" "st ?s = [t \<mapsto> THREAD_RUNNING]"
    using thread_init_views [of t] by (auto simp: sema_init_def)
  have "calm ?p" by (rule calm_push) (use c v t in auto)
  then show ?thesis by (rule thread_create_inv [where body = "[Idle_init (Sema 0)]"])
      (use s v t in \<open>auto simp: thread_start_def\<close>)
qed

lemma reachable_inv: "reachable k \<Longrightarrow> kernel_inv k"
  by (induction rule: reachable.induct) (auto intro: thread_start_inv kstep_inv)

end
