(* ===== verification/Thread_Sync.thy ===== *)
theory Thread_Sync
  imports Thread_Steps
begin

text \<open>
  Semaphores lose no wakeup and locks exclude: two quantities over all threads, kept by every step.

  A thread that was woken from \<^verbatim>\<open>sema_down\<close> does not own anything yet: it tests the value again when it
  runs, and another thread may have taken it. What holds is that as long as threads wait, the value of
  the semaphore is at most the number of threads that have been woken and have not yet run.

  A lock is owned exactly once: by its semaphore, by its holder, or by a thread that is between the two
  halves of \<^verbatim>\<open>lock_acquire\<close> or \<^verbatim>\<open>lock_release\<close>.
\<close>

section \<open>Quantities\<close>

definition woken :: "kernel \<Rightarrow> sema_id \<Rightarrow> addr set" where
  "woken k s = {t. st k t \<in> {Some THREAD_READY, Some THREAD_RUNNING} \<and> waits_on (frames k t) = Some s}"

fun token :: "nat \<Rightarrow> frame \<Rightarrow> nat" where
  "token l (Set_holder n) = (if n = l then 1 else 0)"
| "token l (Up s) = (if s = Lock_sema l then 1 else 0)"
| "token l f = 0"

text \<open>A thread that waits for a lock has taking it still before it.\<close>

definition tokens :: "nat \<Rightarrow> frame list \<Rightarrow> nat" where
  "tokens l fs = sum_list (map (token l) fs) - (if waits_on fs = Some (Lock_sema l) then 1 else 0)"

definition tok :: "kernel \<Rightarrow> nat \<Rightarrow> nat" where
  "tok k l = (\<Sum>t | frames k t \<noteq> []. tokens l (frames k t))"

definition owned :: "kernel \<Rightarrow> nat \<Rightarrow> nat" where
  "owned k l = sem_value k (Lock_sema l) + (if holder k l = NULL then 0 else 1) + tok k l"

text \<open>\<open>e\<close> is the semaphore whose wait the running thread has just resumed.\<close>

definition wake_ok :: "sema_id option \<Rightarrow> kernel \<Rightarrow> bool" where
  "wake_ok e k \<longleftrightarrow> (\<forall>s. waiters k s \<noteq> [] \<longrightarrow> sem_value k s \<le> card (woken k s) + (if e = Some s then 1 else 0))"

definition quiet :: "kernel \<Rightarrow> kernel \<Rightarrow> bool" where
  "quiet k k' \<longleftrightarrow> waiters k' = waiters k \<and> sem_value k' = sem_value k \<and> holder k' = holder k \<and>
     woken k' = woken k \<and> tok k' = tok k"

lemma quiet_views:
  assumes "frames k' = frames k" "st k' = st k" "waiters k' = waiters k" "sem_value k' = sem_value k" "holder k' = holder k"
  shows "quiet k k'"
  using assms by (simp add: quiet_def woken_def tok_def fun_eq_iff)

lemma quiet_trans: "quiet k k1 \<Longrightarrow> quiet k1 k2 \<Longrightarrow> quiet k k2"
  by (simp add: quiet_def)

lemma quiet_refl [simp]: "quiet k k"
  by (simp add: quiet_def)

lemma quiet_wake: "quiet k k' \<Longrightarrow> wake_ok e k \<Longrightarrow> wake_ok e k'"
  by (simp add: quiet_def wake_ok_def)

lemma quiet_owned: "quiet k k' \<Longrightarrow> owned k' = owned k \<and> holder k' = holder k"
  by (simp add: quiet_def owned_def fun_eq_iff)

lemma quiet_record [simp]:
  "quiet k (k\<lparr>cond_waiters := q\<rparr>)" "quiet k (k\<lparr>intr_on := c\<rparr>)" "quiet k (k\<lparr>next_tid := i\<rparr>)" "quiet k (k\<lparr>ticks := i\<rparr>)"
  "quiet k (k\<lparr>thread_ticks := n\<rparr>)" "quiet k (k\<lparr>idle_ticks := i\<rparr>)" "quiet k (k\<lparr>kernel_ticks := i\<rparr>)"
  "quiet k (k\<lparr>user_ticks := i\<rparr>)" "quiet k (k\<lparr>all_list := a\<rparr>)" "quiet k (k\<lparr>idle_thread := a0\<rparr>)"
  by (simp_all add: quiet_def woken_def tok_def fun_eq_iff)

lemma counts_record [simp]:
  "owned (k\<lparr>intr_on := c\<rparr>) = owned k" "wake_ok e (k\<lparr>intr_on := c\<rparr>) = wake_ok e k"
  "owned (k\<lparr>cond_waiters := q\<rparr>) = owned k" "wake_ok e (k\<lparr>cond_waiters := q\<rparr>) = wake_ok e k"
  by (simp_all add: owned_def wake_ok_def woken_def tok_def fun_eq_iff)

lemma finite_frames: "core k \<Longrightarrow> finite {t. frames k t \<noteq> []}"
proof -
  have "{t. frames k t \<noteq> []} \<subseteq> {t. st k t \<noteq> None}" using frames_None by blast
  then show "core k \<Longrightarrow> finite {t. frames k t \<noteq> []}" by (auto simp: core_def todo_ok_def intro: finite_subset)
qed

lemma finite_woken: "core k \<Longrightarrow> finite (woken k s)"
  by (rule finite_subset [of _ "{t. st k t \<noteq> None}"]) (auto simp: core_def todo_ok_def woken_def)

lemma tok_superset: "finite A \<Longrightarrow> {t. frames k t \<noteq> []} \<subseteq> A \<Longrightarrow> tok k l = (\<Sum>t\<in>A. tokens l (frames k t))"
  unfolding tok_def by (rule sum.mono_neutral_left) (auto simp: tokens_def)

lemma tok_local:
  assumes "finite {t. frames k t \<noteq> []}" "frames k' = (frames k)(c := fs)"
  shows "tok k' l + tokens l (frames k c) = tok k l + tokens l fs"
proof -
  define A where "A = insert c {t. frames k t \<noteq> []}"
  have A: "finite A" "c \<in> A" "{t. frames k t \<noteq> []} \<subseteq> A" "{t. frames k' t \<noteq> []} \<subseteq> A"
    using assms by (auto simp: A_def)
  have "tok k l = tokens l (frames k c) + (\<Sum>t\<in>A - {c}. tokens l (frames k t))"
    using tok_superset [OF A(1,3)] sum.remove [OF A(1,2)] by simp
  moreover have "tok k' l = tokens l fs + (\<Sum>t\<in>A - {c}. tokens l (frames k' t))"
    using tok_superset [OF A(1,4)] sum.remove [OF A(1,2), of "\<lambda>t. tokens l (frames k' t)"] by (simp add: assms(2))
  moreover have "(\<Sum>t\<in>A - {c}. tokens l (frames k' t)) = (\<Sum>t\<in>A - {c}. tokens l (frames k t))"
    by (rule sum.cong) (auto simp: assms(2))
  ultimately show ?thesis by simp
qed

lemma woken_local:
  assumes "frames k' = (frames k)(c := fs)" "st k' = st k" "waits_on fs = waits_on (frames k c)"
  shows "woken k' = woken k"
  using assms by (auto simp: woken_def fun_eq_iff)

lemma quiet_push:
  assumes "calm k" "waits_on (fs @ frames k (current k)) = None" "tokens l (fs @ frames k (current k)) = tokens l (frames k (current k))"
  shows "tok (push_frames fs k) l = tok k l" "woken (push_frames fs k) = woken k"
proof -
  let ?gs = "fs @ frames k (current k)"
  have f: "frames (push_frames fs k) = (frames k)(current k := ?gs)" using calm_running [OF assms(1)] by simp
  show "tok (push_frames fs k) l = tok k l"
    using tok_local [OF finite_frames [OF calm_core [OF assms(1)]] f, of l] assms(3) by simp
  show "woken (push_frames fs k) = woken k"
    using woken_local [OF f] assms(1,2) by (simp add: calm_def)
qed

lemma schedule_woken:
  assumes k: "calm k" and c: "core m" and s: "schedule m = Some k'" and x: "x \<noteq> THREAD_RUNNING"
    and m: "st m = (st k)(current k := Some x)" "\<And>t. t \<noteq> current k \<Longrightarrow> frames m t = frames k t"
    "current m = current k" "x = THREAD_READY \<Longrightarrow> waits_on (frames m (current k)) = None"
  shows "woken k' s0 = woken k s0"
proof -
  note e = schedule_effect [OF s]
  have r: "st k (current k) = Some THREAD_RUNNING" "\<And>t. st k t = Some THREAD_RUNNING \<Longrightarrow> t = current k"
    and w: "waits_on (frames k (current k)) = None" using k by (auto simp: calm_def one_running_def)
  have i: "waits_on (frames m (next_of_ready m)) = None \<or> st m (next_of_ready m) = Some THREAD_READY"
  proof (cases "ready_list m")
    case Nil
    then show ?thesis using coreD(2) [OF c] e(13) idle_frames_facts(1) by (simp add: next_of_ready_def)
  next
    case (Cons t ts)
    then show ?thesis using c by (simp add: next_of_ready_def core_def ready_ok_def) (metis list.set_intros(1))
  qed
  have fr: "frames k' t = frames m t" if "st k' t \<noteq> None" for t using that e(14) by (auto simp: e freed_def split: if_splits)
  have "t \<in> woken k' s0 \<longleftrightarrow> t \<in> woken k s0" for t
  proof (cases "t = next_of_ready m")
    case True
    then have t: "st k' t = Some THREAD_RUNNING" "frames k' t = frames m t" by (simp_all add: e freed_def)
    show ?thesis
    proof (cases "t = current k")
      case c: True
      then have "waits_on (frames m t) = None" using i m(1,4) True by auto
      then show ?thesis using w t c by (simp add: woken_def)
    next
      case False
      then show ?thesis using t i True m(1) m(2) [of t] by (auto simp: woken_def)
    qed
  next
    case n: False
    show ?thesis
    proof (cases "t = current k")
      case True
      then have "st k' t \<noteq> Some THREAD_RUNNING" "st k' t = Some THREAD_READY \<Longrightarrow> x = THREAD_READY"
        using n x m(1) by (auto simp: e split: if_splits)
      then show ?thesis using True w m(4) fr [of t] by (auto simp: woken_def)
    next
      case False
      then have "st k' t = st k t" using n m(1,3) by (auto simp: e freed_def)
      then show ?thesis using False fr [of t] m(2) [of t] by (auto simp: woken_def)
    qed
  qed
  then show ?thesis by blast
qed

lemma schedule_tok:
  assumes "schedule m = Some k'" "st m (current m) = Some THREAD_DYING \<Longrightarrow> frames m (current m) = []"
  shows "tok k' = tok m"
proof -
  have "frames k' = frames m" using assms(2) by (auto simp: schedule_effect [OF assms(1)] freed_def fun_eq_iff)
  then show ?thesis by (simp add: tok_def fun_eq_iff)
qed

section \<open>Semaphores and locks\<close>

abbreviation lock_unit :: "sema_id \<Rightarrow> nat \<Rightarrow> nat" where
  "lock_unit s l \<equiv> (if s = Lock_sema l then 1 else 0)"

lemma tokens_down:
  assumes "frame_ok t (Down s b) fs" "waits_on fs = None"
  shows "tokens l (Down s b # fs) + lock_unit s l = tokens l fs"
  using assms by (cases fs) (auto simp: tokens_def)

lemma sema_down_loop_counts:
  assumes k: "calm k" "current k \<noteq> idle_thread k" and f: "frame_ok (current k) (Down s b) (frames k (current k))"
    and d: "sema_down_loop s b k = Some k'"
  shows "holder k' = holder k" "owned k' l + lock_unit s l = owned k l"
    "wake_ok e k \<Longrightarrow> e = None \<or> e = Some s \<Longrightarrow> wake_ok None k'"
proof (atomize (full), cases "sem_value k s = 0")
  case True
  let ?p = "push_frames [Down s b] k"
  let ?m = "set_status (current k) THREAD_BLOCKED (push_frames [Down s b]
    (k\<lparr>waiters := (waiters k)(s := waiters k s @ [current k])\<rparr>))"
  have w: "waits_on (frames k (current k)) = None" using k(1) by (simp add: calm_def)
  have s: "schedule ?m = Some k'" using d True by (auto simp: sema_down_loop_def thread_block_def monad_simps)
  note e = schedule_effect [OF s]
  note r = calm_running [OF k(1)]
  have "core ?p" by (rule core_push) (use k f w calm_frames_ok [OF k(1)] in auto)
  moreover have "one_running ?p" using k(1) by (simp add: calm_def one_running_def)
  ultimately have "core ?m" using k(2) r by (intro core_leave(1) [of ?p THREAD_BLOCKED ?m]) auto
  then have wk: "woken k' s0 = woken k s0" for s0
    by (rule schedule_woken [OF k(1) _ s, of THREAD_BLOCKED]) (use r in auto)
  have "tok k' = tok ?m" by (rule schedule_tok [OF s]) (simp add: r)
  moreover have "tok ?m l + tokens l (frames k (current k)) = tok k l + tokens l (Down s b # frames k (current k))"
    by (rule tok_local [OF finite_frames [OF calm_core [OF k(1)]]]) (use r in auto)
  ultimately have "tok k' l + lock_unit s l = tok k l" using tokens_down [OF f w, of l] by auto
  moreover have "wake_ok e k \<Longrightarrow> e = None \<or> e = Some s \<Longrightarrow> wake_ok None k'" for e
    using True by (auto simp: wake_ok_def e wk split: if_splits)
  ultimately show "holder k' = holder k \<and> owned k' l + lock_unit s l = owned k l \<and>
    (wake_ok e k \<longrightarrow> e = None \<or> e = Some s \<longrightarrow> wake_ok None k')"
    by (simp add: owned_def e)
next
  case False
  then have k': "k' = k\<lparr>sem_value := (sem_value k)(s := sem_value k s - 1), intr_on := b\<rparr>"
    using d by (simp add: sema_down_loop_def)
  have "wake_ok e k \<Longrightarrow> e = None \<or> e = Some s \<Longrightarrow> wake_ok None k'"
    by (auto simp: wake_ok_def k' woken_def split: if_splits)
  then show "holder k' = holder k \<and> owned k' l + lock_unit s l = owned k l \<and>
    (wake_ok e k \<longrightarrow> e = None \<or> e = Some s \<longrightarrow> wake_ok None k')"
    using False by (auto simp: k' owned_def tok_def)
qed

lemma sema_up_counts:
  assumes k: "calm k" and u: "sema_up s k = Some k'" and w: "wake_ok None k"
    and v: "\<And>l. s = Lock_sema l \<Longrightarrow> sem_value k s = 0"
  shows "holder k' = holder k" "owned k' l = owned k l + lock_unit s l" "wake_ok None k'"
proof (atomize (full), cases "waiters k s")
  case Nil
  then have k': "k' = k\<lparr>sem_value := (sem_value k)(s := sz (sem_value k s + 1))\<rparr>" using u by (simp add: sema_up_def)
  have "wake_ok None k'" using w Nil by (auto simp: wake_ok_def k' woken_def)
  then show "holder k' = holder k \<and> owned k' l = owned k l + lock_unit s l \<and> wake_ok None k'"
    using v by (auto simp: k' owned_def tok_def)
next
  case (Cons t ts)
  let ?m = "set_status t THREAD_READY (k\<lparr>waiters := (waiters k)(s := ts), ready_list := ready_list k @ [t]\<rparr>)"
  have k': "k' = ?m\<lparr>sem_value := (sem_value k)(s := sz (sem_value k s + 1))\<rparr>"
    using u Cons by (auto simp: sema_up_def thread_unblock_def monad_simps)
  have "t \<in> set (waiters k s)" using Cons by simp
  note t = waiter_facts(1,2) [OF calm_core [OF k] this]
  have wk: "woken k' r = (if r = s then insert t (woken k r) else woken k r)" and n: "t \<notin> woken k r" for r
    using t by (auto simp: woken_def k')
  have "sem_value k s \<le> card (woken k s)" using w Cons by (auto simp: wake_ok_def split: if_splits)
  then have "sem_value k s + 1 \<le> card (insert t (woken k s))"
    using n finite_woken [OF calm_core [OF k]] by simp
  then have "sz (sem_value k s + 1) \<le> card (insert t (woken k s))" by (rule order_trans [OF sz_le])
  then have "wake_ok None k'" using w unfolding wake_ok_def wk by (auto simp: k')
  then show "holder k' = holder k \<and> owned k' l = owned k l + lock_unit s l \<and> wake_ok None k'"
    using v by (auto simp: k' owned_def tok_def)
qed

section \<open>The operations\<close>

definition sync :: "kernel \<Rightarrow> bool" where
  "sync k \<longleftrightarrow> wake_ok None k \<and> (\<forall>l. owned k l = 1)"

text \<open>The holder of a lock changes only when the running thread takes a free lock or releases its own.\<close>

definition holder_step :: "kernel \<Rightarrow> kernel \<Rightarrow> bool" where
  "holder_step k k' \<longleftrightarrow> (\<forall>l. holder k' l = holder k l \<or> holder k l = current k \<and> holder k' l = NULL \<or>
     holder k l = NULL \<and> holder k' l = current k)"

definition sync_step :: "kernel \<Rightarrow> kernel \<Rightarrow> bool" where
  "sync_step k k' \<longleftrightarrow> sync k' \<and> holder_step k k'"

lemma quiet_sync: "quiet k k' \<Longrightarrow> sync k \<Longrightarrow> sync_step k k'"
  using quiet_wake [of k k' None] quiet_owned [of k k'] by (simp add: sync_def sync_step_def holder_step_def)

lemma sync_quiet_trans: "quiet k m \<Longrightarrow> current m = current k \<Longrightarrow> sync_step m k' \<Longrightarrow> sync_step k k'"
  by (simp add: quiet_def sync_step_def holder_step_def)

lemma quiet_pushI:
  assumes "calm k" "waits_on (fs @ frames k (current k)) = None" "\<And>l. sum_list (map (token l) fs) = 0"
  shows "quiet k (push_frames fs k)"
proof -
  have "tokens l (fs @ frames k (current k)) = tokens l (frames k (current k))" for l
    using assms by (simp add: tokens_def calm_def)
  then show ?thesis using quiet_push [OF assms(1,2)] by (simp add: quiet_def fun_eq_iff)
qed

lemma lock_value: "sync k \<Longrightarrow> tok k l \<noteq> 0 \<or> holder k l \<noteq> NULL \<Longrightarrow> sem_value k (Lock_sema l) = 0"
  by (auto simp: sync_def owned_def split: if_splits dest!: spec [of _ l])

lemma lock_push_counts:
  assumes k: "calm k" and f: "f = Set_holder n \<or> f = Up (Lock_sema n)"
  shows "owned (push_frames [f] k) l = owned k l + (if n = l then 1 else 0)" "holder (push_frames [f] k) = holder k"
    "wake_ok e (push_frames [f] k) = wake_ok e k"
proof -
  let ?fs = "f # frames k (current k)"
  have w: "waits_on (frames k (current k)) = None" "waits_on ?fs = None" using k f by (auto simp: calm_def)
  have "frames (push_frames [f] k) = (frames k)(current k := ?fs)" using calm_running [OF k] by simp
  note t = tok_local [OF finite_frames [OF calm_core [OF k]] this, of l] woken_local [OF this]
  show "owned (push_frames [f] k) l = owned k l + (if n = l then 1 else 0)"
    using t(1) f w by (auto simp: owned_def tokens_def)
  show "wake_ok e (push_frames [f] k) = wake_ok e k" using t(2) w by (simp add: wake_ok_def)
qed simp

lemma lock_acquire_sync:
  assumes k: "calm k" "current k \<noteq> idle_thread k" "sync k" and a: "lock_acquire n k = Some k'"
  shows "sync_step k k'"
proof -
  let ?p = "(push_frames [Set_holder n] k)\<lparr>intr_on := False\<rparr>"
  have w: "waits_on (frames k (current k)) = None" using k(1) by (simp add: calm_def)
  have c: "calm ?p" using calm_push [OF k(1), of "[Set_holder n]"] k w calm_frames_ok [OF k(1)] by auto
  have d: "sema_down_loop (Lock_sema n) (intr_on k) ?p = Some k'"
    using a by (auto simp: lock_acquire_def sema_down_def monad_simps)
  have i: "current ?p \<noteq> idle_thread ?p" "frame_ok (current ?p) (Down (Lock_sema n) (intr_on k)) (frames ?p (current ?p))"
    using k(2) calm_running [OF k(1)] by auto
  note e = sema_down_loop_counts [OF c i d] lock_push_counts [OF k(1), of "Set_holder n" n]
  have "owned k' l = 1" for l
    using e(2) [of l] e(4) [of l] k(3) by (simp add: sync_def split: if_splits)
  moreover have "wake_ok None k'" using e(3) [of None] e(6) [of None] k(3) by (simp add: sync_def)
  ultimately show ?thesis using e(1) by (simp add: sync_step_def sync_def holder_step_def)
qed

lemma sema_down_sync:
  assumes k: "calm k" "current k \<noteq> idle_thread k" "sync k" and f: "frame_ok (current k) (Down s b) (frames k (current k))"
    and s: "\<And>l. s \<noteq> Lock_sema l" and d: "sema_down s k = Some k'"
  shows "sync_step k k'"
proof -
  have "frame_ok (current k) (Down s (intr_on k)) (frames k (current k))" using f by (cases s) auto
  note e = sema_down_loop_counts [of "k\<lparr>intr_on := False\<rparr>" s "intr_on k" k']
  show ?thesis using e k f s d by (cases s) (auto simp: sema_down_def sync_step_def sync_def holder_step_def)
qed

lemma sema_up_sync:
  assumes "calm k" "sync k" "sema_up s k = Some k'" "\<And>l. s \<noteq> Lock_sema l"
  shows "sync_step k k'"
  using sema_up_counts [OF assms(1,3)] assms(2,4) by (auto simp: sync_def sync_step_def holder_step_def)

lemma lock_try_acquire_sync:
  assumes k: "calm k" "sync k" and a: "lock_try_acquire n k = Some (b, k')"
  shows "sync_step k k'"
proof (cases "0 < sem_value k (Lock_sema n)")
  case True
  let ?d = "k\<lparr>sem_value := (sem_value k)(Lock_sema n := sem_value k (Lock_sema n) - 1)\<rparr>"
  have k': "k' = push_frames [Set_holder n] ?d"
    using a True by (auto simp: lock_try_acquire_def sema_try_down_def monad_simps)
  have c: "calm ?d" using k(1) by simp
  note e = lock_push_counts [OF c, of "Set_holder n" n]
  have "owned ?d l + (if n = l then 1 else 0) = owned k l" for l using True by (auto simp: owned_def tok_def)
  moreover have "wake_ok None ?d" using k(2) by (auto simp: sync_def wake_ok_def woken_def split: if_splits)
  ultimately show ?thesis using e k(2) by (simp add: sync_step_def sync_def holder_step_def k')
next
  case False
  then have "k' = k" using a by (auto simp: lock_try_acquire_def sema_try_down_def monad_simps)
  then show ?thesis using k(2) by (simp add: sync_step_def holder_step_def)
qed

lemma lock_release_sync:
  assumes k: "calm k" "sync k" and a: "lock_release n k = Some k'"
  shows "sync_step k k'"
proof -
  let ?d = "k\<lparr>holder := (holder k)(n := NULL)\<rparr>"
  have k': "k' = push_frames [Up (Lock_sema n)] ?d" and h: "holder k n = current k"
    using a by (auto simp: lock_release_def lock_held_by_current_thread_def monad_simps)
  have c: "calm ?d" using k(1) by simp
  note e = lock_push_counts [OF c, of "Up (Lock_sema n)" n]
  have "owned ?d l + (if n = l then 1 else 0) = owned k l" for l
    using h calm_current [OF k(1)] by (auto simp: owned_def tok_def)
  moreover have "wake_ok None ?d" using k(2) by (simp add: sync_def wake_ok_def woken_def)
  ultimately show ?thesis using e k(2) h by (simp add: sync_step_def sync_def holder_step_def k')
qed

lemma sema_init_sync:
  assumes "sync k" "waiters k s = []" "\<And>l. s \<noteq> Lock_sema l"
  shows "sync (sema_init s v k)"
proof -
  have "Lock_sema l \<noteq> s" for l using assms(3) [of l] by auto
  then have "owned (sema_init s v k) = owned k" by (simp add: owned_def tok_def sema_init_def fun_eq_iff)
  then show ?thesis using assms(1,2) by (auto simp: sync_def sema_init_def wake_ok_def woken_def)
qed

lemma cond_wait_sync:
  assumes k: "calm k" "current k \<noteq> idle_thread k" "sync k" and r: "cond_wait c l k = Some k'"
  shows "sync_step k k'"
proof -
  have w: "waits_on (frames k (current k)) = None" using k(1) by (simp add: calm_def)
  let ?i = "sema_init (Waiter (current k)) 0 k"
  let ?m = "?i\<lparr>cond_waiters := (cond_waiters ?i)(c := cond_waiters ?i c @ [current k])\<rparr>"
  let ?p = "push_frames [Call_down (Waiter (current k)), Call_acquire l] ?m"
  have m: "calm ?m" "frames ?m = frames k" "current ?m = current k" "idle_thread ?m = idle_thread k"
    using sema_init_calm [OF k(1) no_waiters_self [OF k(1)]] by (simp_all add: sema_init_def)
  have p: "calm ?p"
    by (rule calm_push) (use k m w calm_frames_ok [OF k(1)] in auto)
  have "sync ?m" using sema_init_sync [OF k(3) no_waiters_self [OF k(1)], of 0] by (simp add: sync_def)
  moreover have "quiet ?m ?p" by (rule quiet_pushI [OF m(1)]) auto
  ultimately have "sync ?p" using quiet_sync by (simp add: sync_step_def)
  moreover have "lock_release l ?p = Some k'" using r by (simp add: cond_wait_def Let_def monad_simps)
  ultimately have "sync_step ?p k'" using lock_release_sync [OF p] by simp
  then show ?thesis by (simp add: sync_step_def holder_step_def sema_init_def)
qed

lemma cond_signal_sync:
  assumes k: "calm k" "sync k" and r: "cond_signal c l k = Some k'"
  shows "sync_step k k'"
proof (cases "cond_waiters k c")
  case Nil
  then show ?thesis using r k(2) by (auto simp: cond_signal_def monad_simps sync_step_def holder_step_def)
next
  case (Cons t ts)
  let ?m = "k\<lparr>cond_waiters := (cond_waiters k)(c := ts)\<rparr>"
  have "sync_step ?m k'" by (rule sema_up_sync [of _ "Waiter t"]) (use k r Cons in \<open>auto simp: cond_signal_def monad_simps sync_def\<close>)
  then show ?thesis by (rule sync_quiet_trans [rotated 2]) auto
qed

lemma cond_broadcast_sync:
  assumes k: "calm k" "current k \<noteq> idle_thread k" "sync k" and r: "cond_broadcast c l k = Some k'"
  shows "sync_step k k'"
proof (cases "cond_waiters k c = []")
  case True
  then show ?thesis using r k(3) by (auto simp: cond_broadcast_def sync_step_def holder_step_def)
next
  case False
  let ?p = "push_frames [Broadcast c l] k"
  have w: "waits_on (frames k (current k)) = None" using k(1) by (simp add: calm_def)
  have p: "calm ?p" by (rule calm_push) (use k w calm_frames_ok [OF k(1)] in auto)
  have q: "quiet k ?p" by (rule quiet_pushI [OF k(1)]) auto
  then have "sync ?p" using quiet_sync [OF q k(3)] by (simp add: sync_step_def)
  then have "sync_step ?p k'" using cond_signal_sync [OF p] r False by (simp add: cond_broadcast_def)
  then show ?thesis by (rule sync_quiet_trans [OF q, rotated]) simp
qed

text \<open>Giving up the processor other than in \<^verbatim>\<open>sema_down\<close>.\<close>

lemma leave_quiet:
  assumes k: "calm k" and x: "x \<noteq> THREAD_RUNNING" "x = THREAD_DYING \<Longrightarrow> current k \<noteq> idle_thread k \<and> frames k (current k) = []"
    and m: "st m = (st k)(current k := Some x)" "frames m = frames k" "idle_thread m = idle_thread k"
      "ready_list m = (if x = THREAD_READY \<and> current k \<noteq> idle_thread k then ready_list k @ [current k] else ready_list k)"
      "waiters m = waiters k" "current m = current k" "sem_value m = sem_value k" "holder m = holder k"
    and s: "schedule m = Some k'"
  shows "quiet k k'"
proof -
  have w: "waits_on (frames k (current k)) = None" using k by (simp add: calm_def)
  have "core m" by (rule core_leave [of k x]) (use k x m w in \<open>auto simp: calm_def\<close>)
  then have "woken k' = woken k" using schedule_woken [OF k _ s x(1) m(1)] m w by (simp add: fun_eq_iff)
  moreover have "tok k' = tok k" using schedule_tok [OF s] x(2) m by (simp add: tok_def fun_eq_iff)
  ultimately show ?thesis using m by (simp add: quiet_def schedule_effect [OF s])
qed

lemma thread_yield_quiet:
  assumes k: "calm k" and y: "thread_yield rest k = Some k'" and r: "rest = [] \<or> rest = [Iret]"
  shows "quiet k k'"
proof -
  let ?p = "push_frames (Set_level (intr_on k) # rest) k"
  let ?m = "set_status (current k) THREAD_READY (if current k \<noteq> idle_thread k
    then ?p\<lparr>intr_on := False, ready_list := ready_list k @ [current k]\<rparr> else ?p\<lparr>intr_on := False\<rparr>)"
  have w: "waits_on (frames k (current k)) = None" using k by (simp add: calm_def)
  have c: "calm ?p" by (rule calm_push) (use k w r calm_frames_ok [OF k] in auto)
  have "schedule ?m = Some k'" using y by (auto simp: thread_yield_def Let_def monad_simps split: if_splits)
  then have "quiet ?p k'" by (rule leave_quiet [OF c, of THREAD_READY ?m, rotated -1]) (use calm_running [OF k] in auto)
  moreover have "quiet k ?p" by (rule quiet_pushI [OF k]) (use r in auto)
  ultimately show ?thesis using quiet_trans by blast
qed

lemma thread_exit_quiet:
  assumes k: "calm k" "current k \<noteq> idle_thread k" "frames k (current k) = []" and x: "thread_exit k = Some k'"
  shows "quiet k k'"
proof -
  let ?m = "set_status (current k) THREAD_DYING (k\<lparr>intr_on := False, all_list := remove1 (current k) (all_list k)\<rparr>)"
  have "schedule ?m = Some k'" using x by (auto simp: thread_exit_def Let_def monad_simps)
  then show ?thesis by (rule leave_quiet [OF k(1), of THREAD_DYING ?m, rotated -1]) (use calm_running [OF k(1)] k in auto)
qed

lemma tokens_start: "body = [] \<or> body = [Idle_init s] \<Longrightarrow> tokens l (Start # body) = 0"
  by (auto simp: tokens_def)

lemma thread_create_sync:
  assumes k: "calm k" "current k \<noteq> idle_thread k" "sync k" and x: "thread_create t p body k = Some k'"
    and b: "body = [] \<or> body = [Idle_init (Sema n)] \<and> idle_thread k = NULL \<and> (\<forall>u. \<not> idle_inits (frames k u))"
  shows "sync_step k k'"
proof (cases "t = NULL")
  case True
  then show ?thesis using x k(3) by (auto simp: thread_create_def sync_step_def holder_step_def)
next
  case False
  obtain q where q: "calm q" "current q = current k" "idle_thread q = idle_thread k" "lock_acquire tid_lock q = Some k'"
    "st k t = None" "st q = (st k)(t := Some THREAD_BLOCKED)"
    "frames q = (frames k)(t := Start # body, current k := [Take_tid t, Call_release tid_lock, Unblock t] @ frames k (current k))"
    "waiters q = waiters k" "sem_value q = sem_value k" "holder q = holder k"
    using thread_create_prepare [OF k(1,2) x False b] by metis
  have w: "waits_on (frames k (current k)) = None" using k(1) by (simp add: calm_def)
  have ne: "current k \<noteq> t" using q(5) calm_running [OF k(1)] by auto
  have ft: "frames k t = []" using q(5) by (rule frames_None)
  let ?f = "(frames k)(t := Start # body)"
  have "tok q l = tok k l" for l
  proof -
    let ?gs = "[Take_tid t, Call_release tid_lock, Unblock t] @ frames k (current k)"
    let ?m = "k\<lparr>threads := (threads k)(t := Some \<lparr>tid = 0, status = THREAD_BLOCKED, priority = 0, pagedir = NULL, todo = Start # body\<rparr>)\<rparr>"
    have m: "frames ?m = (frames k)(t := Start # body)" by (simp add: frames_def fun_eq_iff)
    note fin = finite_frames [OF calm_core [OF k(1)]]
    have "finite {u. frames ?m u \<noteq> []}" by (rule finite_subset [of _ "insert t {u. frames k u \<noteq> []}"]) (use fin m in auto)
    from tok_local [OF this, of q "current k" ?gs l] have "tok q l = tok ?m l" using q(7) m ne w by (simp add: tokens_def)
    moreover have "tok ?m l = tok k l" using tok_local [OF fin m, of l] b tokens_start [of body "Sema n" l] ft by (auto simp: tokens_def)
    ultimately show ?thesis by simp
  qed
  moreover have "woken q s = woken k s" for s using w ft q(5,6,7) ne by (auto simp: woken_def)
  ultimately have "quiet k q" using q by (simp add: quiet_def fun_eq_iff)
  moreover from this have "sync q" using quiet_sync [OF _ k(3)] by (simp add: sync_step_def)
  then have "sync_step q k'" using lock_acquire_sync [OF q(1)] q k(2) by simp
  ultimately show ?thesis using sync_quiet_trans q(2) by blast
qed

section \<open>Frames\<close>

lemma pop_counts:
  assumes k: "kernel_inv k" and p: "pop_frame k = Some (f, k1)" and w: "wake_ok None k"
  shows "holder k1 = holder k" "owned k1 l + token l f = owned k l + (case f of Down s b \<Rightarrow> lock_unit s l | _ \<Rightarrow> 0)"
    "wake_ok (case f of Down s b \<Rightarrow> Some s | _ \<Rightarrow> None) k1"
proof -
  note e = pop_frame_effect(1,3) [OF p] pop_frame_views [OF p]
  let ?fs = "frames k1 (current k)"
  have c: "core k" using k by (simp add: kernel_inv_def)
  have ok: "frame_ok (current k) f ?fs" "waits_on ?fs = None"
    using c by (simp_all add: core_def todo_ok_def flip: frames_ok.simps(2) e(1)) (metis e(1) frames_ok.simps(2))+
  show "holder k1 = holder k" by (simp add: e(3-))
  have f: "frames k1 = (frames k)(current k := ?fs)" by (metis e(1,3) list.sel(3))
  have t: "tokens l (f # ?fs) + (case f of Down s b \<Rightarrow> lock_unit s l | _ \<Rightarrow> 0) = tokens l ?fs + token l f"
    using ok tokens_down [of "current k" _ _ ?fs l] by (cases f) (auto simp: tokens_def)
  show "owned k1 l + token l f = owned k l + (case f of Down s b \<Rightarrow> lock_unit s l | _ \<Rightarrow> 0)"
    using tok_local [OF finite_frames [OF c] f, of l] t by (simp add: owned_def e(1) e(4-))
  show "wake_ok (case f of Down s b \<Rightarrow> Some s | _ \<Rightarrow> None) k1"
  proof (cases "\<exists>s b. f = Down s b")
    case True
    then obtain s b where fd: "f = Down s b" by blast
    have "woken k r = (if r = s then insert (current k) (woken k1 r) else woken k1 r)" for r
    proof -
      have o: "u \<noteq> current k \<Longrightarrow> frames k1 u = frames k u" for u by (simp add: e(3))
      have "u \<in> woken k r \<longleftrightarrow> u \<in> (if r = s then insert (current k) (woken k1 r) else woken k1 r)" for u
        using fd ok(2) e(1,2) o [of u] by (cases "u = current k") (auto simp: woken_def e(4))
      then show ?thesis by blast
    qed
    moreover have "card (insert (current k) A) \<le> card A + 1" for A :: "addr set" by (cases "finite A") (auto simp: card_insert_if)
    ultimately show ?thesis using w fd unfolding wake_ok_def
      by (auto simp: e(4-) split: if_splits intro: order_trans)
  next
    case False
    then have "waits_on (f # ?fs) = None" by (cases f) auto
    then have "woken k1 = woken k" using woken_local [OF f] e(1,4) ok(2) by simp
    then show ?thesis using w False by (cases f) (auto simp: wake_ok_def e(4-))
  qed
qed

lemma frame_idle_quiet:
  assumes k: "kernel_inv k" and p: "pop_frame k = Some (f, k1)" and f: "f \<in> {Idle_block, Idle_hlt}"
    and r: "run_frame f k1 = Some k2"
  shows "quiet k k2"
proof -
  note e = pop_frame_effect(1,3) [OF p] pop_frame_views [OF p]
  have q: "quiet k (push_frames [g] (k1\<lparr>intr_on := b\<rparr>))" if g: "g \<in> {Idle_block, Idle_hlt}" for g b
  proof -
    let ?m = "push_frames [g] (k1\<lparr>intr_on := b\<rparr>)" and ?fs = "frames k1 (current k)"
    have fr: "frames ?m = (frames k)(current k := g # ?fs)" using e(2,4,5) by (simp add: e(3))
    have "frames_ok (current k) (f # ?fs)" using k by (simp add: kernel_inv_def core_def todo_ok_def flip: e(1))
    then have "waits_on ?fs = None" by simp
    then have "tokens l (g # ?fs) = tokens l (f # ?fs)" for l using f g by (auto simp: tokens_def)
    moreover have "core k" using k by (simp add: kernel_inv_def)
    ultimately have "tok ?m = tok k" using tok_local [OF finite_frames fr] by (simp add: fun_eq_iff e(1))
    moreover have "woken ?m = woken k" by (rule woken_local [OF fr]) (use e(1,4) f g in auto)
    ultimately show ?thesis by (simp add: quiet_def e(3-))
  qed
  show ?thesis
  proof (cases "f = Idle_hlt")
    case True
    then show ?thesis using r q [of Idle_block True] by simp
  next
    case False
    let ?p = "push_frames [Idle_hlt] (k1\<lparr>intr_on := False\<rparr>)"
    let ?m = "set_status (current k) THREAD_BLOCKED ?p"
    have c: "calm ?p" using idle_replace_calm [OF k p f, of Idle_hlt False] by simp
    have "schedule ?m = Some k2" using False f r by (auto simp: thread_block_def monad_simps e(3-))
    then have "quiet ?p k2" by (rule leave_quiet [OF c, of THREAD_BLOCKED ?m, rotated -1]) (use e(2-) in auto)
    then show ?thesis using q [of Idle_hlt False] quiet_trans by blast
  qed
qed

lemma pop_sync:
  assumes k: "kernel_inv k" "sync k" and p: "pop_frame k = Some (f, k1)" and f: "\<And>l. token l f = 0" "\<And>s b. f \<noteq> Down s b"
  shows "sync k1" "holder k1 = holder k" "current k1 = current k"
proof -
  have "wake_ok None k" using k(2) by (simp add: sync_def)
  note e = pop_counts [OF k(1) p this]
  show "holder k1 = holder k" "current k1 = current k" using e(1) pop_frame_views(3) [OF p] by auto
  have "owned k1 l = owned k l" for l using e(2) [of l] f by (cases f) auto
  moreover have "wake_ok None k1" using e(3) f by (cases f) auto
  ultimately show "sync k1" using k(2) by (simp add: sync_def)
qed

lemma frame_down_sync:
  assumes k: "kernel_inv k" "sync k" and p: "pop_frame k = Some (Down s b, k1)" and r: "run_frame (Down s b) k1 = Some k2"
  shows "sync_step k k2"
proof -
  note v = pop_frame_views [OF p]
  have c: "calm k1" "current k1 \<noteq> idle_thread k1" "frame_ok (current k1) (Down s b) (frames k1 (current k1))"
    using pop_calm [OF k(1) p] by (auto simp: v)
  have w: "wake_ok None k" using k(2) by (simp add: sync_def)
  note e = pop_counts [OF k(1) p w]
  note d = sema_down_loop_counts [OF c, of k2] 
  have "owned k2 l = 1" for l using d(2) [of l] e(2) [of l] k(2) r by (simp add: sync_def split: if_splits)
  moreover have "wake_ok None k2" using d(3) [of "Some s"] e(3) r by simp
  ultimately show ?thesis using d(1) e(1) r by (simp add: sync_step_def sync_def holder_step_def)
qed

lemma frame_set_holder_sync:
  assumes k: "kernel_inv k" "sync k" and p: "pop_frame k = Some (Set_holder n, k1)" and r: "run_frame (Set_holder n) k1 = Some k2"
  shows "sync_step k k2"
proof -
  note v = pop_frame_views [OF p]
  have c: "calm k1" using pop_calm [OF k(1) p] by simp
  have w: "wake_ok None k" using k(2) by (simp add: sync_def)
  note e = pop_counts [OF k(1) p w]
  have k2: "k2 = k1\<lparr>holder := (holder k1)(n := current k)\<rparr>" using r v by simp
  have z: "holder k1 n = NULL" "current k \<noteq> NULL"
    using e(2) [of n] k(2) calm_current [OF c] v(3) by (auto simp: sync_def owned_def split: if_splits)
  have "owned k2 l = 1" for l
    using e(2) [of l] k(2) z by (auto simp: sync_def owned_def tok_def k2 split: if_splits)
  moreover have "wake_ok None k2" using e(3) by (simp add: wake_ok_def woken_def k2)
  ultimately show ?thesis using e(1) z by (auto simp: sync_step_def sync_def holder_step_def k2)
qed

lemma frame_up_sync:
  assumes k: "kernel_inv k" "sync k" and p: "pop_frame k = Some (Up s, k1)" and r: "run_frame (Up s) k1 = Some k2"
  shows "sync_step k k2"
proof -
  have c: "calm k1" using pop_calm [OF k(1) p] by simp
  have w: "wake_ok None k" using k(2) by (simp add: sync_def)
  note e = pop_counts [OF k(1) p w]
  have z: "sem_value k1 s = 0" if "s = Lock_sema l" for l
    using e(2) [of l] k(2) that by (simp add: sync_def owned_def)
  have u: "holder k2 = holder k1" "owned k2 l = owned k1 l + lock_unit s l" "wake_ok None k2" for l
    using sema_up_counts(1,3) [OF c, of s k2] sema_up_counts(2) [OF c, of s k2 l] r e(3) z by auto
  have "owned k2 l = 1" for l using e(2) [of l] u(2) [of l] k(2) by (simp add: sync_def)
  then show ?thesis using u(1,3) e r by (simp add: sync_step_def sync_def holder_step_def)
qed

lemma frame_unblock_quiet:
  assumes k: "kernel_inv k" and p: "pop_frame k = Some (Unblock t, k1)" and r: "run_frame (Unblock t) k1 = Some k2"
  shows "quiet k1 k2"
proof -
  note e = pop_frame_effect(1,3) [OF p] pop_frame_views [OF p]
  have ck: "core k" using k by (simp add: kernel_inv_def)
  have "t \<in> set (unblocks (frames k (current k)))" by (simp add: e(1))
  then have b: "st k t = Some THREAD_BLOCKED" "starts (frames k t)" using coreD(3) [OF ck] by auto
  then have "waits_on (frames k1 t) = None" "st k1 t = Some THREAD_BLOCKED"
    using starts_waits_on [OF b(2)] e(2) by (auto simp: e(3-))
  then have "woken k2 = woken k1" using r
    by (auto simp: woken_def thread_unblock_def monad_simps fun_eq_iff split: if_splits)
  then show ?thesis using r by (auto simp: quiet_def tok_def thread_unblock_def monad_simps)
qed

lemma step_frame_sync:
  assumes k: "kernel_inv k" "sync k" and p: "pop_frame k = Some (f, k1)" and r: "run_frame f k1 = Some k2"
  shows "sync_step k k2"
proof -
  note v = pop_frame_views [OF p]
  consider "f \<in> {Idle_block, Idle_hlt}" | s b where "f = Down s b" | n where "f = Set_holder n" | s where "f = Up s" |
    "f \<notin> {Idle_block, Idle_hlt}" "\<And>l. token l f = 0" "\<And>s b. f \<noteq> Down s b" "\<And>n. f \<noteq> Set_holder n" "\<And>s. f \<noteq> Up s"
    by (cases f) auto
  then show ?thesis
  proof cases
    case 1
    then show ?thesis using frame_idle_quiet [OF k(1) p _ r] quiet_sync [OF _ k(2)] by simp
  next
    case 2
    then show ?thesis using frame_down_sync [OF k] p r by simp
  next
    case 3
    then show ?thesis using frame_set_holder_sync [OF k] p r by simp
  next
    case 4
    then show ?thesis using frame_up_sync [OF k] p r by simp
  next
    case 5
    then have c: "calm k1" "frame_ok (current k1) f (frames k1 (current k1))"
      and i: "\<not> idle_frame f \<Longrightarrow> current k1 \<noteq> idle_thread k1" and s: "sync k1" "holder k1 = holder k"
      using pop_calm [OF k(1) p] pop_sync [OF k p] by (auto simp: v)
    have q: "quiet k1 k2 \<Longrightarrow> sync_step k1 k2" using quiet_sync [OF _ s(1)] by simp
    have "sync_step k1 k2"
    proof (cases f)
      case (Call_down s)
      then show ?thesis using sema_down_sync [OF c(1) _ s(1), of s True] c(2) i r by (cases s) simp_all
    next
      case (Unblock t)
      then show ?thesis using frame_unblock_quiet [OF k(1)] p r q by simp
    next
      case (Idle_init s)
      then obtain n where "s = Sema n" using c(2) by auto
      then have "quiet k1 (push_frames [Up s, Idle_block] k1)" by (intro quiet_pushI [OF c(1)]) auto
      moreover have "quiet (push_frames [Up s, Idle_block] k1) k2"
        using Idle_init r by (intro quiet_views) auto
      ultimately show ?thesis using q quiet_trans by blast
    next
      case (Take_tid t)
      then show ?thesis using r by (intro q quiet_views) auto
    qed (use 5 r c i s q in \<open>auto intro: lock_acquire_sync lock_release_sync cond_broadcast_sync\<close>)
    then show ?thesis using s(2) v(3) by (simp add: sync_step_def holder_step_def)
  qed
qed

section \<open>Steps\<close>

lemma step_call_sync:
  assumes k: "kernel_inv k" "sync k" and t: "thread_current k = Some th" "todo th = []" and d: "do_call a k = Some k2"
  shows "sync_step k k2"
proof -
  have f: "frames k (current k) = []" using t by (auto simp: thread_current_iff frames_def)
  then have c: "calm k" and i: "current k \<noteq> idle_thread k"
    using k running_idle [OF k(1)] by (auto simp: kernel_inv_def calm_def idle_frames_def)
  show ?thesis
  proof (cases a)
    case (C_down n)
    then show ?thesis using sema_down_sync [OF c i k(2), of "Sema n"] d by simp
  next
    case (C_try_down n)
    then have "k2 = snd (sema_try_down (Sema n) k)" using d by simp
    moreover have "wake_ok None (snd (sema_try_down (Sema n) k))"
      using k(2) by (auto simp: sync_def wake_ok_def woken_def sema_try_down_def split: if_splits)
    ultimately show ?thesis using k(2)
      by (auto simp: sync_step_def sync_def holder_step_def owned_def tok_def sema_try_down_def)
  next
    case (C_create t p)
    then show ?thesis using thread_create_sync [OF c i k(2)] d by simp
  next
    case C_yield
    then show ?thesis using thread_yield_quiet [OF c] quiet_sync [OF _ k(2)] d by simp
  next
    case C_exit
    then show ?thesis using thread_exit_quiet [OF c i f] quiet_sync [OF _ k(2)] d by simp
  next
    case (C_priority p)
    then have "quiet k k2" using d by (intro quiet_views) (auto simp: thread_set_priority_def)
    then show ?thesis using quiet_sync [OF _ k(2)] by simp
  next
    case (C_up n)
    then show ?thesis using sema_up_sync [OF c k(2), of "Sema n"] d by simp
  qed (use c i d k(2) in \<open>auto intro: lock_acquire_sync lock_try_acquire_sync lock_release_sync
      cond_wait_sync cond_signal_sync cond_broadcast_sync\<close>)
qed

lemma intr_calm: "kernel_inv k \<Longrightarrow> intr_on k \<Longrightarrow> calm k"
  by (simp add: kernel_inv_def calm_def)

lemma timer_quiet:
  assumes "timer_interrupt k = Some (b, m)"
  shows "quiet k m" "calm k \<Longrightarrow> calm m"
proof -
  show "quiet k m" using assms by (intro quiet_views) (auto simp: timer_interrupt_def thread_tick_def Let_def monad_simps)
  show "calm k \<Longrightarrow> calm m" using assms by (auto simp: timer_interrupt_def thread_tick_def Let_def monad_simps)
qed

lemma step_timer_sync:
  assumes k: "kernel_inv k" "sync k" "intr_on k" and t: "intr_handler_timer k = Some k2"
  shows "sync_step k k2"
proof -
  have c: "calm (k\<lparr>intr_on := False\<rparr>)" using k(1,3) intr_calm by simp
  obtain b m where m: "timer_interrupt (k\<lparr>intr_on := False\<rparr>) = Some (b, m)"
    and r: "(if b then thread_yield [Iret] m else Some (m\<lparr>intr_on := True\<rparr>)) = Some k2"
    using t by (auto simp: intr_handler_timer_def monad_simps)
  have "quiet m k2" using r timer_quiet(2) [OF m] c thread_yield_quiet [of m "[Iret]" k2] by (auto split: if_splits)
  then have "quiet k k2" using timer_quiet(1) [OF m] quiet_trans quiet_record(2) by blast
  then show ?thesis using quiet_sync k(2) by blast
qed

lemma step_device_sync:
  assumes k: "kernel_inv k" "sync k" "intr_on k" and t: "intr_handler_up n k = Some k2"
  shows "sync_step k k2"
proof -
  have c: "calm (k\<lparr>intr_on := False\<rparr>)" using k(1,3) intr_calm by simp
  obtain m where m: "sema_up (Sema n) (k\<lparr>intr_on := False\<rparr>) = Some m" "k2 = m\<lparr>intr_on := True\<rparr>"
    using t by (auto simp: intr_handler_up_def)
  have "sync_step (k\<lparr>intr_on := False\<rparr>) m" by (rule sema_up_sync [OF c _ m(1)]) (use k(2) in \<open>auto simp: sync_def\<close>)
  then show ?thesis by (simp add: m(2) sync_step_def sync_def holder_step_def)
qed

lemma kstep_sync:
  assumes "kstep k k2" "kernel_inv k" "sync k"
  shows "sync_step k k2"
  using assms
proof cases
  case (sema n v)
  then show ?thesis using sema_init_sync [OF assms(3), of "Sema n" v] by (simp add: sync_step_def holder_step_def sema_init_def)
qed (use assms(2,3) in \<open>auto intro: step_frame_sync step_call_sync step_timer_sync step_device_sync\<close>)

lemma thread_start_sync:
  assumes t: "t \<noteq> NULL" and s: "thread_start i (thread_init t) = Some k"
  shows "sync k"
proof -
  let ?s = "sema_init (Sema 0) 0 (thread_init t)"
  let ?p = "push_frames [Start, Call_down (Sema 0)] ?s"
  have c: "calm ?s" using sema_init_calm [OF thread_init_calm [OF t]] by (simp add: thread_init_views)
  have v: "current ?s = t" "frames ?s = (\<lambda>u. [])" "idle_thread ?s = NULL" "st ?s = [t \<mapsto> THREAD_RUNNING]"
    using thread_init_views [of t] by (auto simp: sema_init_def)
  have p: "calm ?p" by (rule calm_push) (use c v t in auto)
  have "sync (thread_init t)" by (simp add: sync_def wake_ok_def owned_def tok_def thread_init_views)
  then have "sync ?s" using sema_init_sync [of "thread_init t" "Sema 0" 0] by (simp add: thread_init_views)
  moreover have "quiet ?s ?p" by (rule quiet_pushI [OF c]) auto
  ultimately have "sync ?p" using quiet_sync [of ?s ?p] by (simp add: sync_step_def)
  then show ?thesis using thread_create_sync [OF p _ _ , of i PRI_MIN "[Idle_init (Sema 0)]" k 0] s v t
    by (auto simp: thread_start_def sync_step_def)
qed

lemma reachable_sync: "reachable k \<Longrightarrow> sync k"
proof (induction rule: reachable.induct)
  case (step k k2)
  then show ?case using kstep_sync reachable_inv by (auto simp: sync_step_def)
qed (auto intro: thread_start_sync)

end
