(* ===== verification/Thread_Props.thy ===== *)
theory Thread_Props
  imports Thread_Sync
begin

text \<open>
  What the thread system guarantees in every reachable state and for every interleaving of calls and
  interrupts: the state of the scheduler, first-in first-out scheduling, preemption, no lost wakeups,
  mutual exclusion, and that the assertions of the scheduler hold.
\<close>

section \<open>Switching always finds a thread\<close>

lemma schedule_returns:
  assumes c: "core m" and r: "st m (current m) \<notin> {None, Some THREAD_RUNNING}" "\<not> intr_on m"
    and i: "ready_list m \<noteq> [] \<or> idle_thread m \<noteq> NULL"
  shows "schedule m \<noteq> None"
proof -
  have n: "next_of_ready m \<noteq> NULL \<and> st m (next_of_ready m) \<noteq> None"
  proof (cases "ready_list m")
    case Nil
    then show ?thesis using c i by (auto simp: next_of_ready_def core_def idle_ok_def)
  next
    case (Cons t ts)
    then have "st m t = Some THREAD_READY" using c by (simp add: core_def ready_ok_def) (metis list.set_intros(1))
    then show ?thesis using Cons coreD(1) [OF c] by (auto simp: next_of_ready_def intro: ccontr)
  qed
  have v: "next_thread_to_run m = (next_of_ready m, m\<lparr>ready_list := tl (ready_list m)\<rparr>)"
    by (cases "ready_list m") (simp_all add: next_thread_to_run_def next_of_ready_def)
  obtain th where "threads m (current m) = Some th" "status th \<noteq> THREAD_RUNNING" using r(1) by (auto simp: st_def)
  then show ?thesis using n r(2)
    by (auto simp: schedule_def Let_def v is_thread_def st_def thread_schedule_tail_def)
qed

lemma leave_returns:
  assumes "calm k" "x \<noteq> THREAD_RUNNING" "x = THREAD_DYING \<Longrightarrow> current k \<noteq> idle_thread k"
    "st m = (st k)(current k := Some x)" "frames m = frames k" "idle_thread m = idle_thread k"
    "ready_list m = (if x = THREAD_READY \<and> current k \<noteq> idle_thread k then ready_list k @ [current k] else ready_list k)"
    "waiters m = waiters k" "current m = current k" "\<not> intr_on m"
    and i: "x = THREAD_READY \<or> idle_thread k \<noteq> NULL"
  shows "schedule m \<noteq> None"
proof (rule schedule_returns)
  have w: "waits_on (frames k (current k)) = None" using assms(1) by (simp add: calm_def)
  show "core m" by (rule core_leave [of k x]) (use assms w in \<open>auto simp: calm_def\<close>)
  show "ready_list m \<noteq> [] \<or> idle_thread m \<noteq> NULL"
    using i calm_current [OF assms(1)] by (auto simp: assms(6,7))
qed (use assms in auto)

lemma thread_yield_returns:
  assumes k: "calm k" and r: "rest = [] \<or> rest = [Iret]"
  shows "\<exists>k'. thread_yield rest k = Some k' \<and> thread_ticks k' = 0 \<and>
    (if ready_list k = [] \<and> current k = idle_thread k then current k' = current k \<and> ready_list k' = []
     else current k' # ready_list k' = ready_list k @ (if current k = idle_thread k then [] else [current k]))"
proof -
  let ?p = "push_frames (Set_level (intr_on k) # rest) k"
  let ?m = "set_status (current k) THREAD_READY (if current k \<noteq> idle_thread k
    then ?p\<lparr>intr_on := False, ready_list := ready_list k @ [current k]\<rparr> else ?p\<lparr>intr_on := False\<rparr>)"
  have w: "waits_on (frames k (current k)) = None" using k by (simp add: calm_def)
  have c: "calm ?p" by (rule calm_push) (use k w r calm_frames_ok [OF k] in auto)
  have "schedule ?m \<noteq> None" by (rule leave_returns [OF c, of THREAD_READY]) (use calm_running [OF k] in auto)
  then obtain k' where s: "schedule ?m = Some k'" by auto
  obtain th where "thread_current k = Some th" using calm_running [OF k] thread_current_st [of k] by auto
  then have "thread_yield rest k = Some k'" using s
    by (cases "current k = idle_thread k") (simp_all add: thread_yield_def Let_def)
  then show ?thesis using schedule_effect(1,2,15) [OF s]
    by (cases "ready_list k") (auto simp: next_of_ready_def)
qed

section \<open>The order of the ready list\<close>

text \<open>Threads become ready at the end of the list and run from its front.\<close>

definition fifo :: "kernel \<Rightarrow> kernel \<Rightarrow> bool" where
  "fifo k k2 \<longleftrightarrow> current k2 = current k \<and> (\<exists>ys. ready_list k2 = ready_list k @ ys) \<or>
     (\<exists>ys. current k2 # ready_list k2 = ready_list k @ ys) \<or>
     ready_list k = [] \<and> ready_list k2 = [] \<and> current k2 = idle_thread k2"

lemma fifo_same: "current k2 = current k \<Longrightarrow> ready_list k2 = ready_list k \<Longrightarrow> fifo k k2"
  by (simp add: fifo_def)

lemma fifo_trans_same: "current m = current k \<Longrightarrow> ready_list m = ready_list k \<Longrightarrow> fifo m k2 \<Longrightarrow> fifo k k2"
  by (simp add: fifo_def)

lemma schedule_fifo:
  assumes "schedule m = Some k2" "ready_list m = ready_list k @ ys"
  shows "fifo k k2"
proof (cases "ready_list m")
  case Nil
  then show ?thesis using schedule_effect(1,2,5) [OF assms(1)] assms(2) by (auto simp: fifo_def next_of_ready_def)
next
  case (Cons t ts)
  then have "current k2 # ready_list k2 = ready_list k @ ys"
    using schedule_effect(1,2) [OF assms(1)] assms(2) by (simp add: next_of_ready_def)
  then show ?thesis unfolding fifo_def by blast
qed

lemma thread_block_fifo: "thread_block k = Some k2 \<Longrightarrow> fifo k k2"
  by (auto simp: thread_block_def monad_simps intro: schedule_fifo [of _ _ _ "[]"])

lemma thread_yield_fifo: "thread_yield rest k = Some k2 \<Longrightarrow> fifo k k2"
  by (auto simp: thread_yield_def monad_simps Let_def split: if_splits
      intro: schedule_fifo [of _ _ _ "[]"] schedule_fifo [of _ _ _ "[current k]"])

lemma thread_exit_fifo: "thread_exit k = Some k2 \<Longrightarrow> fifo k k2"
  by (auto simp: thread_exit_def monad_simps Let_def intro: schedule_fifo [of _ _ _ "[]"])

lemma thread_unblock_fifo: "thread_unblock t k = Some k2 \<Longrightarrow> fifo k k2"
  by (auto simp: thread_unblock_def monad_simps fifo_def)

lemma sema_down_loop_fifo: "sema_down_loop s b k = Some k2 \<Longrightarrow> fifo k k2"
  by (auto simp: sema_down_loop_def split: if_splits intro: fifo_same dest!: thread_block_fifo elim!: fifo_trans_same [rotated 2])

lemma sema_down_fifo: "sema_down s k = Some k2 \<Longrightarrow> fifo k k2"
  by (auto simp: sema_down_def dest!: sema_down_loop_fifo elim!: fifo_trans_same [rotated 2])

lemma sema_up_fifo:
  assumes "sema_up s k = Some k2"
  shows "fifo k k2"
proof (cases "waiters k s")
  case Nil
  then show ?thesis using assms by (auto simp: sema_up_def intro: fifo_same)
next
  case (Cons t ts)
  then show ?thesis using assms by (auto simp: sema_up_def thread_unblock_def monad_simps fifo_def)
qed

lemma lock_acquire_fifo: "lock_acquire l k = Some k2 \<Longrightarrow> fifo k k2"
  by (auto simp: lock_acquire_def monad_simps dest!: sema_down_fifo elim!: fifo_trans_same [rotated 2])

lemma lock_release_fifo: "lock_release l k = Some k2 \<Longrightarrow> fifo k k2"
  by (auto simp: lock_release_def monad_simps intro: fifo_same)

lemma lock_try_acquire_fifo: "lock_try_acquire l k = Some (b, k2) \<Longrightarrow> fifo k k2"
  by (auto simp: lock_try_acquire_def sema_try_down_def monad_simps intro!: fifo_same split: if_splits)

lemma cond_wait_fifo: "cond_wait c l k = Some k2 \<Longrightarrow> fifo k k2"
  by (auto simp: cond_wait_def sema_init_def lock_release_def monad_simps Let_def intro: fifo_same)

lemma cond_signal_fifo:
  assumes "cond_signal c l k = Some k2"
  shows "fifo k k2"
proof (cases "cond_waiters k c")
  case Nil
  then show ?thesis using assms by (auto simp: cond_signal_def monad_simps intro: fifo_same)
next
  case (Cons t ts)
  then show ?thesis using assms
    by (auto simp: cond_signal_def monad_simps dest!: sema_up_fifo elim!: fifo_trans_same [rotated 2])
qed

lemma cond_broadcast_fifo: "cond_broadcast c l k = Some k2 \<Longrightarrow> fifo k k2"
  by (auto simp: cond_broadcast_def split: if_splits intro: fifo_same dest!: cond_signal_fifo elim!: fifo_trans_same [rotated 2])

lemma thread_create_fifo: "thread_create t p body k = Some k2 \<Longrightarrow> fifo k k2"
  by (auto simp: thread_create_def init_thread_def monad_simps Let_def split: if_splits intro: fifo_same
      dest!: lock_acquire_fifo elim!: fifo_trans_same [rotated 2])

lemmas op_fifo = thread_yield_fifo thread_exit_fifo thread_unblock_fifo sema_down_loop_fifo sema_down_fifo sema_up_fifo
  lock_acquire_fifo lock_release_fifo lock_try_acquire_fifo cond_wait_fifo cond_signal_fifo cond_broadcast_fifo
  thread_create_fifo

lemma run_frame_fifo: "run_frame f k = Some k2 \<Longrightarrow> fifo k k2"
  by (cases f) (auto intro: op_fifo fifo_same dest!: thread_block_fifo elim!: fifo_trans_same [rotated 2])

lemma do_call_fifo: "do_call c k = Some k2 \<Longrightarrow> fifo k k2"
  by (cases c) (auto intro: op_fifo fifo_same simp: sema_try_down_def thread_set_priority_def)

lemma timer_fifo:
  assumes "intr_handler_timer k = Some k2"
  shows "fifo k k2"
proof -
  obtain b m where m: "timer_interrupt (k\<lparr>intr_on := False\<rparr>) = Some (b, m)"
    and r: "(if b then thread_yield [Iret] m else Some (m\<lparr>intr_on := True\<rparr>)) = Some k2"
    using assms by (auto simp: intr_handler_timer_def monad_simps)
  have "current m = current k" "ready_list m = ready_list k"
    using m by (auto simp: timer_interrupt_def thread_tick_def Let_def monad_simps)
  then show ?thesis using r by (auto split: if_splits intro: fifo_same dest!: thread_yield_fifo elim!: fifo_trans_same [rotated 2])
qed

lemma kstep_fifo:
  assumes "kstep k k2"
  shows "fifo k k2"
  using assms
proof cases
  case (frame f k1)
  then show ?thesis using run_frame_fifo pop_frame_views(3,4) fifo_trans_same by metis
next
  case (device n)
  then show ?thesis
    by (auto simp: intr_handler_up_def dest!: sema_up_fifo elim!: fifo_trans_same [rotated 2]) (auto simp: fifo_def)
qed (auto intro: do_call_fifo timer_fifo fifo_same simp: sema_init_def)

section \<open>The assertions of the scheduler\<close>

lemma sema_down_loop_returns:
  assumes k: "calm k" "current k \<noteq> idle_thread k" "idle_thread k \<noteq> NULL" "\<not> intr_on k"
    and f: "frame_ok (current k) (Down s b) (frames k (current k))"
  shows "sema_down_loop s b k \<noteq> None"
proof (cases "sem_value k s = 0")
  case True
  let ?p = "push_frames [Down s b] k"
  let ?m = "set_status (current k) THREAD_BLOCKED (push_frames [Down s b]
    (k\<lparr>waiters := (waiters k)(s := waiters k s @ [current k])\<rparr>))"
  note r = calm_running [OF k(1)]
  have w: "waits_on (frames k (current k)) = None" using k(1) by (simp add: calm_def)
  have c: "core ?p" by (rule core_push) (use k f w calm_frames_ok [OF k(1)] in auto)
  moreover have "one_running ?p" using k(1) by (simp add: calm_def one_running_def)
  ultimately have "core ?m" using k(2) r by (intro core_leave(1) [of ?p THREAD_BLOCKED ?m]) auto
  then have "schedule ?m \<noteq> None" by (rule schedule_returns) (use k r in auto)
  moreover have "thread_current (push_frames [Down s b] (k\<lparr>waiters := (waiters k)(s := waiters k s @ [current k])\<rparr>)) \<noteq> None"
    using r by (simp add: thread_current_st del: not_None_eq)
  ultimately show ?thesis using True k(4) by (auto simp: sema_down_loop_def thread_block_def)
qed (simp add: sema_down_loop_def)

lemma sema_down_returns:
  assumes "calm k" "current k \<noteq> idle_thread k" "idle_thread k \<noteq> NULL" "frame_ok (current k) (Down s b) (frames k (current k))"
  shows "sema_down s k \<noteq> None"
  using assms sema_down_loop_returns [of "k\<lparr>intr_on := False\<rparr>" s "intr_on k"] by (cases s) (auto simp: sema_down_def)

lemma core_not_NULL: "core k \<Longrightarrow> st k t = Some x \<Longrightarrow> t \<noteq> NULL"
  by (metis coreD(1) option.distinct(1))

lemma thread_unblock_returns:
  assumes "core k" "st k t = Some THREAD_BLOCKED"
  shows "thread_unblock t k \<noteq> None"
proof -
  have "t \<noteq> NULL" using core_not_NULL [OF assms] .
  then show ?thesis using assms(2) by (auto simp: thread_unblock_def is_thread_def st_def)
qed

lemma sema_up_returns:
  assumes "calm k"
  shows "sema_up s k \<noteq> None"
proof (cases "waiters k s")
  case (Cons t ts)
  then have b: "st k t = Some THREAD_BLOCKED" using waiter_facts(1) [OF calm_core [OF assms], of t s] by simp
  moreover have "t \<noteq> NULL" using core_not_NULL [OF calm_core [OF assms] b] .
  ultimately show ?thesis using Cons by (auto simp: sema_up_def thread_unblock_def is_thread_def st_def)
qed (simp add: sema_up_def)

lemma thread_exit_returns:
  assumes k: "calm k" "current k \<noteq> idle_thread k" "idle_thread k \<noteq> NULL"
  shows "thread_exit k \<noteq> None"
proof -
  let ?m = "set_status (current k) THREAD_DYING (k\<lparr>intr_on := False, all_list := remove1 (current k) (all_list k)\<rparr>)"
  have "schedule ?m \<noteq> None" by (rule leave_returns [OF k(1), of THREAD_DYING]) (use k calm_running [OF k(1)] in auto)
  moreover have "thread_current (k\<lparr>intr_on := False\<rparr>) \<noteq> None"
    using calm_running [OF k(1)] by (simp add: thread_current_st del: not_None_eq)
  ultimately show ?thesis by (auto simp: thread_exit_def Let_def)
qed

lemma idle_block_returns:
  assumes k: "kernel_inv k" and p: "pop_frame k = Some (Idle_block, k1)" and i: "idle_thread k \<noteq> NULL"
  shows "run_frame Idle_block k1 \<noteq> None"
proof -
  note e = pop_frame_effect(1,3) [OF p] pop_frame_views [OF p]
  let ?p = "push_frames [Idle_hlt] (k1\<lparr>intr_on := False\<rparr>)"
  let ?m = "set_status (current k) THREAD_BLOCKED ?p"
  have c: "calm ?p" using idle_replace_calm [OF k p, of Idle_hlt False] by simp
  have "schedule ?m \<noteq> None" by (rule leave_returns [OF c, of THREAD_BLOCKED]) (use e(2-) i in auto)
  moreover have "thread_current ?p \<noteq> None" using calm_running [OF c] by (simp add: thread_current_st del: not_None_eq)
  ultimately show ?thesis using e by (auto simp: thread_block_def)
qed

lemma run_frame_returns:
  assumes k: "kernel_inv k" and p: "pop_frame k = Some (f, k1)" and i: "idle_thread k \<noteq> NULL"
    and f: "f \<notin> range Call_acquire \<union> range Call_release \<union> {Broadcast c l | c l. True}"
  shows "run_frame f k1 \<noteq> None"
proof (cases "f \<in> {Idle_block, Idle_hlt}")
  case True
  then show ?thesis using idle_block_returns [OF k _ i] p by auto
next
  case False
  note v = pop_frame_views [OF p]
  have c: "calm k1" "frame_ok (current k1) f (frames k1 (current k1))" "idle_thread k1 \<noteq> NULL"
    and n: "\<not> idle_frame f \<Longrightarrow> current k1 \<noteq> idle_thread k1"
    using pop_calm [OF k p False] i by (auto simp: v)
  show ?thesis
  proof (cases f)
    case (Down s b)
    then have "waits_on (frames k (current k)) = Some s" using pop_frame_effect(1) [OF p] by simp
    then have "\<not> intr_on k1" using k by (auto simp: kernel_inv_def v)
    then show ?thesis using sema_down_loop_returns [OF c(1) _ c(3)] c(2) n Down by simp
  next
    case (Call_down s)
    then show ?thesis using sema_down_returns [OF c(1) _ c(3), of s True] c(2) n by (cases s) auto
  next
    case (Unblock t)
    then have "t \<in> set (unblocks (frames k (current k)))" using pop_frame_effect(1) [OF p] by simp
    then have "st k1 t = Some THREAD_BLOCKED" using coreD(3) [of k t] k by (auto simp: v kernel_inv_def)
    then show ?thesis using thread_unblock_returns [OF calm_core [OF c(1)]] Unblock by simp
  qed (use f False sema_up_returns [OF c(1)] in auto)
qed

section \<open>A boot\<close>

text \<open>The kernel's start, frame by frame, with no interrupt coming in.\<close>

definition frame_step :: "kernel \<Rightarrow> kernel option" where
  "frame_step k = do { (f, k1) \<leftarrow> pop_frame k; run_frame f k1 }"

fun run_frames :: "nat \<Rightarrow> kernel \<Rightarrow> kernel option" where
  "run_frames 0 k = Some k"
| "run_frames (Suc n) k = Option.bind (frame_step k) (run_frames n)"

definition boot :: "nat \<Rightarrow> kernel option" where
  "boot n = Option.bind (thread_start 2 (thread_init 1)) (run_frames n)"

lemma frame_step_kstep: "frame_step k = Some k2 \<Longrightarrow> kstep k k2"
  by (auto simp: frame_step_def bind_Some_iff intro: kstep.frame)

lemma run_frames_reachable: "reachable k \<Longrightarrow> run_frames n k = Some k' \<Longrightarrow> reachable k'"
proof (induction n arbitrary: k)
  case (Suc n)
  then obtain k2 where "frame_step k = Some k2" "run_frames n k2 = Some k'" by (auto simp: bind_Some_iff)
  then show ?case using Suc by (blast intro: reachable.step frame_step_kstep)
qed simp

lemma boot_reachable: "boot n = Some k \<Longrightarrow> reachable k"
proof -
  assume "boot n = Some k"
  then obtain k0 where k0: "thread_start 2 (thread_init 1) = Some k0" and r: "run_frames n k0 = Some k"
    unfolding boot_def bind_Some_iff by blast
  have "reachable k0" by (rule reachable.init [of 1 2]) (use k0 in simp_all)
  then show "reachable k" using r by (rule run_frames_reachable)
qed

lemma run_frames_numeral: "run_frames (numeral n) k = Option.bind (frame_step k) (run_frames (pred_numeral n))"
  by (simp add: numeral_eq_Suc)

lemma run_frames_snoc: "run_frames (Suc n) k = Option.bind (run_frames n k) frame_step"
proof (induction n arbitrary: k)
  case 0
  then show ?case by (cases "frame_step k") simp_all
next
  case (Suc n)
  then show ?case by (cases "frame_step k") (simp_all del: run_frames.simps(2) add: run_frames.simps(2) [of _ k])
qed

lemma boot_step:
  assumes "boot (Suc n) = Some k2"
  obtains k where "boot n = Some k" "kstep k k2"
proof -
  obtain k where "boot n = Some k" "frame_step k = Some k2"
    using assms by (auto simp: boot_def run_frames_snoc bind_Some_iff simp del: run_frames.simps)
  then show ?thesis using that frame_step_kstep by blast
qed

lemmas boot_defs = run_frames_numeral frame_step_def boot_def thread_start_def thread_create_def init_thread_def thread_init_def lock_acquire_def
  lock_release_def lock_held_by_current_thread_def sema_down_def sema_down_loop_def sema_up_def sema_init_def
  push_frames_def pop_frame_def thread_current_def thread_block_def thread_unblock_def schedule_def
  next_thread_to_run_def thread_schedule_tail_def set_status_def upd_thread_def is_thread_def Let_def

lemma bind_weak_cong: "m = m' \<Longrightarrow> Option.bind m f = Option.bind m' f"
  by simp

lemma boot_lock: "map_option (\<lambda>k. (current k, holder k tid_lock)) (boot 2) = Some (1, 1)"
  "map_option (\<lambda>k. (current k, holder k tid_lock)) (boot 3) = Some (1, 0)"
  by (simp_all add: boot_defs cong: bind_weak_cong)

text \<open>The initial thread waits for the idle thread; it has been woken; it runs again.\<close>

lemma boot_waits: "map_option (\<lambda>k. (current k, waiters k (Sema 0), sem_value k (Sema 0), ready_list k)) (boot 7) = Some (2, [1], 0, [])"
  by (simp_all add: boot_defs cong: bind_weak_cong)

lemma boot_ready: "map_option (\<lambda>k. (current k, ready_list k, idle_thread k, intr_on k)) (boot 10) = Some (2, [1], 2, True)"
  by (simp_all add: boot_defs cong: bind_weak_cong)

lemma boot_idle: "map_option (\<lambda>k. (current k, ready_list k, waiters k (Sema 0), idle_thread k)) (boot 11) = Some (1, [], [], 2)"
  by (simp_all add: boot_defs cong: bind_weak_cong)

section \<open>Properties\<close>

text \<open>C12: In every reachable state exactly one thread runs, and the ready list holds exactly the ready threads
  other than the idle thread, each once.\<close>

theorem scheduler_state:
  assumes "reachable k"
  shows "(\<forall>t. map_option status (threads k t) = Some THREAD_RUNNING \<longleftrightarrow> t = current k) \<and> distinct (ready_list k) \<and>
    (\<forall>t. t \<in> set (ready_list k) \<longleftrightarrow> map_option status (threads k t) = Some THREAD_READY \<and> t \<noteq> idle_thread k)"
  using reachable_inv [OF assms] unfolding kernel_inv_def core_def ready_ok_def one_running_def st_def by blast

theorem scheduler_state_witness: "\<exists>k. boot 10 = Some k \<and> map_option status (threads k 1) = Some THREAD_READY"
proof -
  obtain k where k: "boot 10 = Some k" "ready_list k = [1]" using boot_ready by auto
  then show ?thesis using scheduler_state [OF boot_reachable [OF k(1)]] by auto
qed

text \<open>C18: In every reachable state the waiters of a semaphore are, without repetition, exactly the threads that
  are blocked inside \<^verbatim>\<open>sema_down\<close> on it.\<close>

theorem waiters_exact:
  assumes "reachable k"
  shows "distinct (waiters k s) \<and> (\<forall>t. t \<in> set (waiters k s) \<longleftrightarrow>
    (\<exists>th old fs. threads k t = Some th \<and> status th = THREAD_BLOCKED \<and> todo th = Down s old # fs))"
proof -
  have f: "waits_on fs = Some s \<longleftrightarrow> (\<exists>old gs. fs = Down s old # gs)" for fs by (cases fs rule: waits_on.cases) auto
  have "wait_ok k" using reachable_inv [OF assms] by (simp add: kernel_inv_def core_def)
  then have d: "distinct (waiters k s)"
    and m: "t \<in> set (waiters k s) \<longleftrightarrow> st k t = Some THREAD_BLOCKED \<and> waits_on (frames k t) = Some s" for t
    by (auto simp: wait_ok_def)
  have "t \<in> set (waiters k s) \<longleftrightarrow>
    (\<exists>th old fs. threads k t = Some th \<and> status th = THREAD_BLOCKED \<and> todo th = Down s old # fs)" for t
    by (cases "threads k t") (auto simp: m f st_def frames_def)
  with d show ?thesis by blast
qed

theorem waiters_exact_witness:
  "\<exists>k th. boot 7 = Some k \<and> threads k 1 = Some th \<and> status th = THREAD_BLOCKED \<and> hd (todo th) \<in> range (Down (Sema 0))"
proof -
  obtain k where k: "boot 7 = Some k" "waiters k (Sema 0) = [1]" using boot_waits by auto
  then have "1 \<in> set (waiters k (Sema 0))" by simp
  then show ?thesis using waiters_exact [OF boot_reachable [OF k(1)], of "Sema 0"] k(1) by fastforce
qed

text \<open>C4: No wakeup is lost: as long as threads wait on a semaphore, its value is at most the number of threads
  that were woken from it and have not yet resumed. In particular a semaphore with waiters and a positive value
  has a thread on its way.\<close>

theorem no_lost_wakeup:
  assumes "reachable k" "waiters k s \<noteq> []"
  shows "sem_value k s \<le> card {t. \<exists>th old fs. threads k t = Some th \<and> status th \<in> {THREAD_READY, THREAD_RUNNING} \<and>
    todo th = Down s old # fs}"
proof -
  have "waits_on fs = Some s \<longleftrightarrow> (\<exists>old gs. fs = Down s old # gs)" for fs by (cases fs rule: waits_on.cases) auto
  then have "woken k s = {t. \<exists>th old fs. threads k t = Some th \<and> status th \<in> {THREAD_READY, THREAD_RUNNING} \<and>
    todo th = Down s old # fs}"
    by (auto simp: woken_def st_def frames_def split: option.splits)
  then show ?thesis using reachable_sync [OF assms(1)] assms(2) by (auto simp: sync_def wake_ok_def)
qed

theorem no_lost_wakeup_witness: "\<exists>k. boot 7 = Some k \<and> waiters k (Sema 0) = [1] \<and> sem_value k (Sema 0) \<le> card
    {t. \<exists>th old fs. threads k t = Some th \<and> status th \<in> {THREAD_READY, THREAD_RUNNING} \<and> todo th = Down (Sema 0) old # fs}"
proof -
  obtain k where k: "boot 7 = Some k" "waiters k (Sema 0) = [1]" using boot_waits by auto
  then show ?thesis using no_lost_wakeup [OF boot_reachable [OF k(1)], of "Sema 0"] by simp
qed

text \<open>C5: Locks exclude: while a lock has a holder its semaphore is down, and a step changes the holder only when
  that holder itself is running and releases the lock.\<close>

theorem lock_exclusion:
  assumes "reachable k" "kstep k k2" "holder k l \<noteq> NULL"
  shows "sem_value k (Lock_sema l) = 0 \<and> (holder k2 l = holder k l \<or> holder k l = current k \<and> holder k2 l = NULL)"
proof -
  note s = reachable_sync [OF assms(1)]
  have "holder_step k k2" using kstep_sync [OF assms(2) reachable_inv [OF assms(1)] s] by (simp add: sync_step_def)
  then show ?thesis using lock_value [OF s] assms(3) unfolding holder_step_def by metis
qed

theorem lock_exclusion_witness: "\<exists>k k2. boot 2 = Some k \<and> boot 3 = Some k2 \<and> holder k tid_lock = 1 \<and>
  sem_value k (Lock_sema tid_lock) = 0 \<and> current k = 1 \<and> holder k2 tid_lock = NULL"
proof -
  obtain k2 where k2: "boot (Suc 2) = Some k2" "holder k2 tid_lock = 0" using boot_lock(2) by auto
  obtain k where k: "boot 2 = Some k" "kstep k k2" using boot_step [OF k2(1)] by blast
  then have h: "holder k tid_lock = 1" "current k = 1" using boot_lock(1) by auto
  then show ?thesis using lock_exclusion [OF boot_reachable [OF k(1)] k(2), of tid_lock] k k2 by auto
qed





text \<open>C21: The assertions of the scheduler hold. Once the idle thread exists, resuming any suspended routine of the
  scheduler, of \<^verbatim>\<open>sema_down\<close>, \<^verbatim>\<open>sema_up\<close> or \<^verbatim>\<open>thread_create\<close> returns; what may stop is the use of a lock by a
  thread that must not hold it or must hold it.\<close>

theorem scheduler_asserts:
  assumes "reachable k" "idle_thread k \<noteq> NULL" "pop_frame k = Some (f, k1)"
    "f \<notin> range Call_acquire \<union> range Call_release \<union> {Broadcast c l | c l. True}"
  shows "\<exists>k2. run_frame f k1 = Some k2 \<and> kernel_inv k2"
  using run_frame_returns [OF reachable_inv [OF assms(1)] assms(3,2,4)] step_frame [OF reachable_inv [OF assms(1)] assms(3)] by auto

theorem scheduler_asserts_witness: "\<exists>k k1 k2. boot 10 = Some k \<and> pop_frame k = Some (Idle_block, k1) \<and> run_frame Idle_block k1 = Some k2"
proof -
  obtain k where k: "boot 10 = Some k" "idle_thread k = 2" using boot_ready by auto
  have "map_option fst (Option.bind (boot 10) pop_frame) = Some Idle_block" by (simp add: boot_defs cong: bind_weak_cong)
  then obtain k1 where "pop_frame k = Some (Idle_block, k1)" using k(1) by auto
  then show ?thesis using scheduler_asserts [OF boot_reachable [OF k(1)], of Idle_block k1] k by auto
qed

end
