(* ===== verification/Hash.thy ===== *)
theory Hash
  imports Bytes "HOL-Library.Multiset"
begin

text \<open>
  The hash table of lib/kernel/hash.c: chaining with a power of two of buckets, resized after every
  insertion and deletion. An element stands for the pointer to it; a bucket is the sequence of the
  elements of its \<^verbatim>\<open>struct list\<close>, whose operations are those of the list component. The hash and
  comparison functions are members of the table, as in the source. Whether \<^verbatim>\<open>malloc\<close> finds memory is an
  argument; the bytes it returns are arbitrary.

  The theorems: the table behaves as a set of pairwise unequal elements whatever \<^verbatim>\<open>malloc\<close> answers, the
  number of buckets follows the number of elements, and the iterator visits every element once.
\<close>

unbundle bit_operations_syntax

section \<open>The code\<close>

record 'e hash =
  h_elem_cnt :: nat
  h_bucket_cnt :: nat
  h_buckets :: "'e list list"
  h_hash :: "'e \<Rightarrow> u32"
  h_less :: "'e \<Rightarrow> 'e \<Rightarrow> bool"

definition find_bucket :: "'e hash \<Rightarrow> 'e \<Rightarrow> nat" where
  "find_bucket h e = unat (h_hash h e AND (word_of_nat (h_bucket_cnt h) - 1))"

fun find_elem :: "'e hash \<Rightarrow> 'e list \<Rightarrow> 'e \<Rightarrow> 'e option" where
  "find_elem h [] e = None"
| "find_elem h (hi # i) e = (if \<not> h_less h hi e \<and> \<not> h_less h e hi then Some hi else find_elem h i e)"

definition insert_elem :: "'e hash \<Rightarrow> nat \<Rightarrow> 'e \<Rightarrow> 'e hash option" where
  "insert_elem h b e = do {
     bucket \<leftarrow> idx_get (h_buckets h) b;
     Some (h\<lparr>h_elem_cnt := sz (h_elem_cnt h + 1), h_buckets := (h_buckets h)[b := e # bucket]\<rparr>) }"

definition remove_elem :: "'e hash \<Rightarrow> 'e \<Rightarrow> 'e hash" where
  "remove_elem h e = h\<lparr>h_elem_cnt := sz (h_elem_cnt h + 2 ^ 32 - 1), h_buckets := map (remove1 e) (h_buckets h)\<rparr>"

definition turn_off_least_1bit :: "u32 \<Rightarrow> u32" where
  "turn_off_least_1bit x = x AND (x - 1)"

definition is_power_of_2 :: "u32 \<Rightarrow> bool" where
  "is_power_of_2 x \<longleftrightarrow> x \<noteq> 0 \<and> turn_off_least_1bit x = 0"

lemma turn_off_less: "x \<noteq> 0 \<Longrightarrow> unat (turn_off_least_1bit x) < unat x"
proof -
  assume x: "x \<noteq> 0"
  have "turn_off_least_1bit x \<le> x - 1" unfolding turn_off_least_1bit_def by (simp add: word_and_le1)
  moreover have "x - 1 < x" using x by (rule measure_unat [unfolded word_less_nat_alt [symmetric]])
  ultimately show ?thesis by (simp add: word_less_nat_alt word_le_nat_alt)
qed

function power_loop :: "u32 \<Rightarrow> u32 option" where
  "power_loop n = (if is_power_of_2 n then Some n else if n = 0 then None else power_loop (turn_off_least_1bit n))"
  by auto
termination
  by (relation "measure unat") (auto intro: turn_off_less)

fun move_bucket :: "'e hash \<Rightarrow> 'e list \<Rightarrow> 'e hash option" where
  "move_bucket h [] = Some h"
| "move_bucket h (e # es) = do {
     let b = find_bucket h e;
     bucket \<leftarrow> idx_get (h_buckets h) b;
     move_bucket (h\<lparr>h_buckets := (h_buckets h)[b := e # bucket]\<rparr>) es }"

fun move_buckets :: "'e hash \<Rightarrow> 'e list list \<Rightarrow> 'e hash option" where
  "move_buckets h [] = Some h"
| "move_buckets h (b # bs) = do { h \<leftarrow> move_bucket h b; move_buckets h bs }"

definition rehash :: "bool \<Rightarrow> 'e hash \<Rightarrow> 'e hash option" where
  "rehash malloc_ok h = do {
     let old_buckets = h_buckets h;
     let n = h_elem_cnt h div 2;
     new \<leftarrow> power_loop (word_of_nat (if n < 4 then 4 else n));
     let new_bucket_cnt = unat new;
     if new_bucket_cnt = h_bucket_cnt h then Some h
     else if \<not> malloc_ok then Some h
     else move_buckets (h\<lparr>h_buckets := replicate new_bucket_cnt [], h_bucket_cnt := new_bucket_cnt\<rparr>) old_buckets }"

fun clear_bucket :: "('e \<Rightarrow> 's \<Rightarrow> 's) \<Rightarrow> 'e list \<Rightarrow> 's \<Rightarrow> 's" where
  "clear_bucket destructor [] s = s"
| "clear_bucket destructor (e # es) s = clear_bucket destructor es (destructor e s)"

fun clear_loop :: "('e \<Rightarrow> 's \<Rightarrow> 's) option \<Rightarrow> 'e list list \<Rightarrow> 's \<Rightarrow> 'e list list \<times> 's" where
  "clear_loop d [] s = ([], s)"
| "clear_loop d (b # bs) s = apfst (Cons []) (clear_loop d bs (case d of None \<Rightarrow> s | Some f \<Rightarrow> clear_bucket f b s))"

definition hash_clear :: "'e hash \<Rightarrow> ('e \<Rightarrow> 's \<Rightarrow> 's) option \<Rightarrow> 's \<Rightarrow> 'e hash \<times> 's" where
  "hash_clear h d s = (let (bs, s) = clear_loop d (h_buckets h) s in (h\<lparr>h_buckets := bs, h_elem_cnt := 0\<rparr>, s))"

text \<open>The first argument of \<open>hash_init\<close> is what \<^verbatim>\<open>malloc\<close> returns: nothing, or four uninitialized buckets.\<close>

definition hash_init :: "'e list list option \<Rightarrow> ('e \<Rightarrow> u32) \<Rightarrow> ('e \<Rightarrow> 'e \<Rightarrow> bool) \<Rightarrow> bool \<times> 'e hash" where
  "hash_init mem hf ls = (case mem of
     None \<Rightarrow> (False, \<lparr>h_elem_cnt = 0, h_bucket_cnt = 4, h_buckets = [], h_hash = hf, h_less = ls\<rparr>)
   | Some bs \<Rightarrow> (True, fst (hash_clear \<lparr>h_elem_cnt = 0, h_bucket_cnt = 4, h_buckets = bs, h_hash = hf, h_less = ls\<rparr> None ())))"

definition hash_destroy :: "'e hash \<Rightarrow> ('e \<Rightarrow> 's \<Rightarrow> 's) option \<Rightarrow> 's \<Rightarrow> 's" where
  "hash_destroy h d s = (if d \<noteq> None then snd (hash_clear h d s) else s)"

definition hash_find :: "'e hash \<Rightarrow> 'e \<Rightarrow> 'e option option" where
  "hash_find h e = do {
     bucket \<leftarrow> idx_get (h_buckets h) (find_bucket h e);
     Some (find_elem h bucket e) }"

definition hash_insert :: "bool \<Rightarrow> 'e hash \<Rightarrow> 'e \<Rightarrow> ('e option \<times> 'e hash) option" where
  "hash_insert malloc_ok h new = do {
     let b = find_bucket h new;
     bucket \<leftarrow> idx_get (h_buckets h) b;
     let old = find_elem h bucket new;
     h \<leftarrow> (if old = None then insert_elem h b new else Some h);
     h \<leftarrow> rehash malloc_ok h;
     Some (old, h) }"

definition hash_replace :: "bool \<Rightarrow> 'e hash \<Rightarrow> 'e \<Rightarrow> ('e option \<times> 'e hash) option" where
  "hash_replace malloc_ok h new = do {
     let b = find_bucket h new;
     bucket \<leftarrow> idx_get (h_buckets h) b;
     let old = find_elem h bucket new;
     let h = (case old of None \<Rightarrow> h | Some e \<Rightarrow> remove_elem h e);
     h \<leftarrow> insert_elem h b new;
     h \<leftarrow> rehash malloc_ok h;
     Some (old, h) }"

definition hash_delete :: "bool \<Rightarrow> 'e hash \<Rightarrow> 'e \<Rightarrow> ('e option \<times> 'e hash) option" where
  "hash_delete malloc_ok h e = do {
     found \<leftarrow> hash_find h e;
     case found of
       None \<Rightarrow> Some (None, h)
     | Some f \<Rightarrow> do { h \<leftarrow> rehash malloc_ok (remove_elem h f); Some (Some f, h) } }"

fun apply_loop :: "('e \<Rightarrow> 's \<Rightarrow> 's) \<Rightarrow> 'e list list \<Rightarrow> 's \<Rightarrow> 's" where
  "apply_loop action [] s = s"
| "apply_loop action (b # bs) s = apply_loop action bs (clear_bucket action b s)"

definition hash_apply :: "'e hash \<Rightarrow> ('e \<Rightarrow> 's \<Rightarrow> 's) \<Rightarrow> 's \<Rightarrow> 's" where
  "hash_apply h action s = apply_loop action (h_buckets h) s"

definition hash_size :: "'e hash \<Rightarrow> nat" where
  "hash_size h = h_elem_cnt h"

definition hash_empty :: "'e hash \<Rightarrow> bool" where
  "hash_empty h \<longleftrightarrow> h_elem_cnt h = 0"

text \<open>An iterator points into a bucket: position 0 is the list's head, position \<open>j\<close> its \<open>j\<close>-th element, the
  position after the last element its end. The table is over when the bucket index reaches the number of buckets.\<close>

record hash_iterator =
  i_bucket :: nat
  i_pos :: nat

definition hash_first :: hash_iterator where
  "hash_first = \<lparr>i_bucket = 0, i_pos = 0\<rparr>"

function next_loop :: "'e hash \<Rightarrow> nat \<Rightarrow> nat \<Rightarrow> ('e option \<times> hash_iterator) option" where
  "next_loop h b p = do {
     bucket \<leftarrow> idx_get (h_buckets h) b;
     if p = length bucket + 1 then
       if h_bucket_cnt h \<le> b + 1 then Some (None, \<lparr>i_bucket = b + 1, i_pos = 0\<rparr>)
       else next_loop h (b + 1) 1
     else do { e \<leftarrow> idx_get bucket (p - 1); Some (Some e, \<lparr>i_bucket = b, i_pos = p\<rparr>) } }"
  by pat_completeness auto
termination
  by (relation "measure (\<lambda>(h, b, p). h_bucket_cnt h - b)") auto

definition hash_next :: "'e hash \<Rightarrow> hash_iterator \<Rightarrow> ('e option \<times> hash_iterator) option" where
  "hash_next h i = next_loop h (i_bucket i) (i_pos i + 1)"

definition hash_cur :: "'e hash \<Rightarrow> hash_iterator \<Rightarrow> 'e option" where
  "hash_cur h i = (if i_bucket i < length (h_buckets h) \<and> 0 < i_pos i then idx_get (h_buckets h ! i_bucket i) (i_pos i - 1) else None)"

definition FNV_32_PRIME :: u32 where
  "FNV_32_PRIME = 16777619"

definition FNV_32_BASIS :: u32 where
  "FNV_32_BASIS = 2166136261"

fun bytes_loop :: "u32 \<Rightarrow> u8 list \<Rightarrow> nat \<Rightarrow> u32 option" where
  "bytes_loop hash buf 0 = Some hash"
| "bytes_loop hash [] (Suc n) = None"
| "bytes_loop hash (c # buf) (Suc n) = bytes_loop ((hash * FNV_32_PRIME) XOR ucast c) buf n"

definition hash_bytes :: "u8 list \<Rightarrow> nat \<Rightarrow> u32 option" where
  "hash_bytes buf n = bytes_loop FNV_32_BASIS buf n"

fun string_loop :: "u32 \<Rightarrow> u8 list \<Rightarrow> u32 option" where
  "string_loop hash [] = None"
| "string_loop hash (c # s) = (if c = 0 then Some hash else string_loop ((hash * FNV_32_PRIME) XOR ucast c) s)"

definition hash_string :: "u8 list \<Rightarrow> u32 option" where
  "hash_string s = string_loop FNV_32_BASIS s"

definition hash_int :: "int \<Rightarrow> u32 option" where
  "hash_int i = hash_bytes (le32 (u32_of i)) 4"

declare power_loop.simps [simp del] next_loop.simps [simp del]

section \<open>Powers of two\<close>

lemma and_pred_nat:
  fixes n :: nat
  assumes "2 ^ k \<le> n" "n < 2 ^ Suc k"
  shows "(n AND (n - 1) = 0 \<longleftrightarrow> n = 2 ^ k) \<and> (n \<noteq> 2 ^ k \<longrightarrow> 2 ^ k \<le> n AND (n - 1))"
  using assms
proof (induction k arbitrary: n)
  case 0
  then have "n = 1" by simp
  then show ?case by simp
next
  case (Suc k)
  define m where "m = n div 2"
  have m: "2 ^ k \<le> m" "m < 2 ^ Suc k" using Suc.prems by (auto simp: m_def)
  then have m0: "m > 0" using zero_less_power [of "2 :: nat" k] by linarith
  note IH = Suc.IH [OF m(1,2)]
  show ?case
  proof (cases "even n")
    case True
    then have n: "n = 2 * m" by (simp add: m_def)
    have d: "n div 2 = m" "(n - 1) div 2 = m - 1" "n mod 2 = 0" using n m0 by auto
    have "n AND (n - 1) = 2 * (m AND (m - 1))" using and_nat_rec [of n "n - 1"] n m0 d by simp
    then show ?thesis using IH n by auto
  next
    case False
    then have n: "n = 2 * m + 1" by (simp add: m_def)
    have "n AND (n - 1) = 2 * (m AND m)" using and_nat_rec [of n "n - 1"] n by simp
    then have "n AND (n - 1) = 2 * m" by simp
    moreover have "n \<noteq> 2 ^ Suc k" using False by auto
    ultimately show ?thesis using n m by auto
  qed
qed

lemma turn_off_unat: "x \<noteq> 0 \<Longrightarrow> unat (turn_off_least_1bit x) = unat x AND (unat x - 1)"
  by (simp add: turn_off_least_1bit_def unsigned_and_eq unat_minus_one)

lemma floor_log_exists: "0 < n \<Longrightarrow> \<exists>k. 2 ^ k \<le> n \<and> n < 2 ^ Suc k" for n :: nat
  using ex_power_ivl1 [of 2 n] by auto

lemma power_loop_ok:
  assumes "2 ^ k \<le> unat x" "unat x < 2 ^ Suc k"
  shows "\<exists>y. power_loop x = Some y \<and> unat y = 2 ^ k"
  using assms
proof (induction x rule: power_loop.induct)
  case (1 x)
  have x0: "x \<noteq> 0" using "1.prems"(1) by auto
  note a = and_pred_nat [OF "1.prems"] turn_off_unat [OF x0]
  show ?case
  proof (cases "unat x = 2 ^ k")
    case True
    then have "is_power_of_2 x" using a x0 by (simp add: is_power_of_2_def unat_eq_0 [symmetric])
    then show ?thesis using True by (simp add: power_loop.simps [of x])
  next
    case False
    then have "\<not> is_power_of_2 x" using a by (auto simp: is_power_of_2_def)
    moreover have "2 ^ k \<le> unat (turn_off_least_1bit x)" "unat (turn_off_least_1bit x) < 2 ^ Suc k"
      using a False turn_off_less [OF x0] "1.prems"(2) by auto
    ultimately show ?thesis using "1.IH" x0 by (simp add: power_loop.simps [of x])
  qed
qed

lemma find_bucket_mod:
  assumes "h_bucket_cnt h = 2 ^ k" "k < 32"
  shows "find_bucket h e = unat (h_hash h e) mod 2 ^ k"
proof -
  have "word_of_nat (h_bucket_cnt h) - 1 = (mask k :: u32)" using assms(1) by (simp add: mask_eq_exp_minus_1)
  then have "find_bucket h e = unat (take_bit k (h_hash h e))" by (simp add: find_bucket_def take_bit_eq_mask)
  also have "\<dots> = take_bit k (unat (h_hash h e))" by (rule unsigned_take_bit_eq)
  finally show ?thesis by (simp only: take_bit_eq_mod)
qed

section \<open>Well-formed tables\<close>

definition same_key :: "('e \<Rightarrow> 'e \<Rightarrow> bool) \<Rightarrow> 'e \<Rightarrow> 'e \<Rightarrow> bool" where
  "same_key ls a b \<longleftrightarrow> \<not> ls a b \<and> \<not> ls b a"

definition entries :: "'e hash \<Rightarrow> 'e list" where
  "entries h = concat (h_buckets h)"

definition placed :: "'e hash \<Rightarrow> bool" where
  "placed h \<longleftrightarrow> length (h_buckets h) = h_bucket_cnt h \<and> (\<exists>k. 2 \<le> k \<and> k < 32 \<and> h_bucket_cnt h = 2 ^ k) \<and>
     (\<forall>i < h_bucket_cnt h. \<forall>e \<in> set (h_buckets h ! i). find_bucket h e = i)"

definition hash_ok :: "'e hash \<Rightarrow> bool" where
  "hash_ok h \<longleftrightarrow> placed h \<and> h_elem_cnt h = length (entries h) \<and> length (entries h) < 2 ^ 32 \<and> distinct (entries h) \<and>
     (\<forall>a \<in> set (entries h). \<forall>b \<in> set (entries h). same_key (h_less h) a b \<longrightarrow> a = b)"

lemma find_bucket_less: "placed h \<Longrightarrow> find_bucket h e < length (h_buckets h)"
  using find_bucket_mod [of h] by (auto simp: placed_def)

lemma find_bucket_cong: "h_hash h' = h_hash h \<Longrightarrow> h_bucket_cnt h' = h_bucket_cnt h \<Longrightarrow> find_bucket h' e = find_bucket h e"
  by (simp add: find_bucket_def)

lemma mset_concat_update: "i < length bs \<Longrightarrow> mset (concat (bs[i := e # bs ! i])) = add_mset e (mset (concat bs))"
proof (induction bs arbitrary: i)
  case (Cons b bs)
  then show ?case by (cases i) auto
qed simp

lemma placed_push:
  assumes "placed h" "b = find_bucket h e"
  shows "placed (h\<lparr>h_buckets := (h_buckets h)[b := e # h_buckets h ! b]\<rparr>)"
proof -
  let ?h = "h\<lparr>h_buckets := (h_buckets h)[b := e # h_buckets h ! b]\<rparr>"
  have f: "find_bucket ?h x = find_bucket h x" for x by (rule find_bucket_cong) simp_all
  have "find_bucket h x = i" if "i < h_bucket_cnt h" "x \<in> set ((h_buckets h)[b := e # h_buckets h ! b] ! i)" for i x
    using assms that by (cases "i = b") (auto simp: placed_def)
  then show ?thesis using assms(1) unfolding placed_def f by simp
qed

lemma move_bucket_ok:
  "placed h \<Longrightarrow> \<exists>bs. move_bucket h es = Some (h\<lparr>h_buckets := bs\<rparr>) \<and> placed (h\<lparr>h_buckets := bs\<rparr>) \<and>
     mset (concat bs) = mset es + mset (entries h)"
proof (induction es arbitrary: h)
  case Nil
  then show ?case by (intro exI [of _ "h_buckets h"]) (simp add: entries_def)
next
  case (Cons e es)
  let ?b = "find_bucket h e" and ?h = "h\<lparr>h_buckets := (h_buckets h)[find_bucket h e := e # h_buckets h ! find_bucket h e]\<rparr>"
  have b: "?b < length (h_buckets h)" using Cons.prems by (rule find_bucket_less)
  obtain bs where "move_bucket ?h es = Some (?h\<lparr>h_buckets := bs\<rparr>)" "placed (?h\<lparr>h_buckets := bs\<rparr>)"
    "mset (concat bs) = mset es + mset (entries ?h)"
    using Cons.IH [OF placed_push [OF Cons.prems refl]] by blast
  then show ?case using b mset_concat_update [OF b, of e] by (intro exI [of _ bs]) (simp add: entries_def)
qed

lemma move_buckets_ok:
  "placed h \<Longrightarrow> \<exists>cs. move_buckets h bs = Some (h\<lparr>h_buckets := cs\<rparr>) \<and> placed (h\<lparr>h_buckets := cs\<rparr>) \<and>
     mset (concat cs) = mset (concat bs) + mset (entries h)"
proof (induction bs arbitrary: h)
  case Nil
  then show ?case by (intro exI [of _ "h_buckets h"]) (simp add: entries_def)
next
  case (Cons b bs)
  obtain ds where d: "move_bucket h b = Some (h\<lparr>h_buckets := ds\<rparr>)" "placed (h\<lparr>h_buckets := ds\<rparr>)"
    "mset (concat ds) = mset b + mset (entries h)"
    using move_bucket_ok [OF Cons.prems, of b] by blast
  obtain cs where "move_buckets (h\<lparr>h_buckets := ds\<rparr>) bs = Some (h\<lparr>h_buckets := cs\<rparr>)" "placed (h\<lparr>h_buckets := cs\<rparr>)"
    "mset (concat cs) = mset (concat bs) + mset (concat ds)"
    using Cons.IH [OF d(2)] by (auto simp: entries_def)
  then show ?case using d by (intro exI [of _ cs]) simp
qed

text \<open>The number of buckets that suits the number of elements.\<close>

definition fitting :: "'e hash \<Rightarrow> bool" where
  "fitting h \<longleftrightarrow> h_bucket_cnt h \<le> max 4 (h_elem_cnt h div 2) \<and> max 4 (h_elem_cnt h div 2) < 2 * h_bucket_cnt h"

lemma rehash_ok:
  assumes p: "placed h" and n: "h_elem_cnt h < 2 ^ 32"
  obtains h' where "rehash ok h = Some h'" "placed h'" "mset (entries h') = mset (entries h)" "h_hash h' = h_hash h"
    "h_less h' = h_less h" "h_elem_cnt h' = h_elem_cnt h" "ok \<longrightarrow> fitting h'"
proof -
  define m where "m = max 4 (h_elem_cnt h div 2)"
  have m: "(if h_elem_cnt h div 2 < 4 then 4 else h_elem_cnt h div 2) = m" "4 \<le> m" "m < 2 ^ 31" using n by (auto simp: m_def)
  then have u: "unat (word_of_nat m :: u32) = m" by (simp add: unat_of_nat)
  obtain k where k: "2 ^ k \<le> m" "m < 2 ^ Suc k" using floor_log_exists [of m] m(2) by auto
  have "2 ^ k < (2 :: nat) ^ 31" using k(1) m(3) by linarith
  then have k31: "k < 31" by (rule power_less_imp_less_exp [rotated]) simp
  have "(2 :: nat) ^ 2 < 2 ^ Suc k" using k(2) m(2) by simp
  then have k2: "2 \<le> k" using power_less_imp_less_exp [of "2 :: nat" 2 "Suc k"] by simp
  obtain y where y: "power_loop (word_of_nat m) = Some y" "unat y = 2 ^ k"
    using power_loop_ok [of k "word_of_nat m"] k u by auto
  let ?e = "h\<lparr>h_buckets := replicate (2 ^ k) [], h_bucket_cnt := 2 ^ k\<rparr>"
  have "placed ?e" using k2 k31 by (auto simp: placed_def)
  from move_buckets_ok [OF this, of "h_buckets h"]
  obtain cs where cs: "move_buckets ?e (h_buckets h) = Some (?e\<lparr>h_buckets := cs\<rparr>)" "placed (?e\<lparr>h_buckets := cs\<rparr>)"
    "mset (concat cs) = mset (entries h)" by (auto simp: entries_def)
  have fit: "h_elem_cnt g = h_elem_cnt h \<Longrightarrow> h_bucket_cnt g = 2 ^ k \<Longrightarrow> fitting g" for g :: "'a hash"
    using k by (simp add: fitting_def m_def)
  have r: "rehash ok h = (if 2 ^ k = h_bucket_cnt h \<or> \<not> ok then Some h else Some (?e\<lparr>h_buckets := cs\<rparr>))"
    using y cs(1) by (simp add: rehash_def Let_def m(1))
  show ?thesis
  proof (cases "2 ^ k = h_bucket_cnt h \<or> \<not> ok")
    case True
    then show ?thesis using that [of h] p r fit [of h] by auto
  next
    case False
    then show ?thesis using that [of "?e\<lparr>h_buckets := cs\<rparr>"] r cs fit [of "?e\<lparr>h_buckets := cs\<rparr>"] by (simp add: entries_def)
  qed
qed

lemma find_elem_Some: "find_elem h xs e = Some x \<Longrightarrow> x \<in> set xs \<and> same_key (h_less h) x e"
  by (induction xs) (auto simp: same_key_def split: if_splits)

lemma find_elem_None: "find_elem h xs e = None \<Longrightarrow> x \<in> set xs \<Longrightarrow> \<not> same_key (h_less h) x e"
  by (induction xs) (auto simp: same_key_def split: if_splits)

lemma bucket_entries: "placed h \<Longrightarrow> x \<in> set (entries h) \<longleftrightarrow> x \<in> set (h_buckets h ! find_bucket h x)"
proof
  assume p: "placed h"
  show "x \<in> set (h_buckets h ! find_bucket h x)" if x: "x \<in> set (entries h)"
  proof -
    obtain i where "i < length (h_buckets h)" "x \<in> set (h_buckets h ! i)"
      using x unfolding entries_def set_concat UN_iff by (metis in_set_conv_nth)
    moreover from this have "find_bucket h x = i" using p by (auto simp: placed_def)
    ultimately show ?thesis by simp
  qed
  show "x \<in> set (entries h)" if "x \<in> set (h_buckets h ! find_bucket h x)"
    using that nth_mem [OF find_bucket_less [OF p, of x]] by (auto simp: entries_def)
qed

lemma concat_remove1: "distinct (concat bs) \<Longrightarrow> concat (map (remove1 e) bs) = remove1 e (concat bs)"
proof (induction bs)
  case (Cons b bs)
  have "e \<in> set b \<Longrightarrow> e \<notin> set (concat bs)" using Cons.prems by auto
  then show ?case using Cons by (auto simp: remove1_append remove1_idem)
qed simp

lemma remove_elem_ok:
  assumes h: "hash_ok h" and e: "e \<in> set (entries h)"
  shows "hash_ok (remove_elem h e)" "entries (remove_elem h e) = remove1 e (entries h)"
proof -
  let ?h = "remove_elem h e"
  show en: "entries ?h = remove1 e (entries h)"
    using h concat_remove1 by (auto simp: remove_elem_def entries_def hash_ok_def)
  have f: "find_bucket ?h x = find_bucket h x" for x by (rule find_bucket_cong) (simp_all add: remove_elem_def)
  have p: "placed ?h"
    using h unfolding placed_def hash_ok_def f
    by (auto simp: remove_elem_def dest: set_remove1_subset [THEN subsetD])
  have "h_elem_cnt ?h = length (entries ?h)"
  proof -
    define n where "n = length (entries h)"
    have "0 < n" "n < 2 ^ 32" "h_elem_cnt h = n" using h length_pos_if_in_set [OF e] by (auto simp: n_def hash_ok_def)
    then have "sz (h_elem_cnt h + 2 ^ 32 - 1) = n - 1" by (simp add: sz_def mod_if)
    then show ?thesis unfolding en using e by (simp add: remove_elem_def length_remove1 n_def)
  qed
  then show "hash_ok ?h"
    using h p unfolding hash_ok_def en
    by (auto simp: remove_elem_def length_remove1 dest: set_remove1_subset [THEN subsetD])
qed

lemma insert_elem_ok:
  assumes h: "hash_ok h" and l: "length (entries h) + 1 < 2 ^ 32" and b: "b = find_bucket h e"
    and n: "\<And>x. x \<in> set (entries h) \<Longrightarrow> \<not> same_key (h_less h) x e" and i: "\<not> h_less h e e"
  obtains h' where "insert_elem h b e = Some h'" "hash_ok h'" "mset (entries h') = add_mset e (mset (entries h))"
    "h_hash h' = h_hash h" "h_less h' = h_less h" "h_bucket_cnt h' = h_bucket_cnt h"
proof -
  let ?p = "h\<lparr>h_buckets := (h_buckets h)[b := e # h_buckets h ! b]\<rparr>"
  let ?h = "?p\<lparr>h_elem_cnt := sz (h_elem_cnt h + 1)\<rparr>"
  have p: "placed h" using h by (simp add: hash_ok_def)
  have bl: "b < length (h_buckets h)" using find_bucket_less [OF p] by (simp add: b)
  have m: "mset (entries ?h) = add_mset e (mset (entries h))" using mset_concat_update [OF bl] by (simp add: entries_def)
  have s: "set (entries ?h) = insert e (set (entries h))" using m by (metis set_mset_mset set_mset_add_mset_insert)
  have z: "length (entries ?h) = length (entries h) + 1" using m by (metis size_add_mset size_mset Suc_eq_plus1)
  have "placed ?p" using placed_push [OF p b] .
  then have "placed ?h" by (simp add: placed_def find_bucket_def)
  moreover have "e \<notin> set (entries h)" using n i by (auto simp: same_key_def)
  then have "distinct (entries ?h)" using m h by (metis (no_types) distinct.simps(2) hash_ok_def mset.simps(2) mset_eq_imp_distinct_iff)
  ultimately have "hash_ok ?h"
    using h l z n unfolding hash_ok_def s by (auto simp: same_key_def)
  then show ?thesis using that [of ?h] bl m by (simp add: insert_elem_def)
qed

lemma hash_ok_mset:
  assumes "hash_ok h" "placed h'" "mset (entries h') = mset (entries h)" "h_less h' = h_less h" "h_elem_cnt h' = h_elem_cnt h"
  shows "hash_ok h'"
proof -
  have "set (entries h') = set (entries h)" "length (entries h') = length (entries h)" "distinct (entries h') = distinct (entries h)"
    using assms(3) by (auto dest: mset_eq_setD mset_eq_length mset_eq_imp_distinct_iff)
  then show ?thesis using assms unfolding hash_ok_def by simp
qed

lemma rehash_hash_ok:
  assumes "hash_ok h"
  obtains h' where "rehash ok h = Some h'" "hash_ok h'" "set (entries h') = set (entries h)" "h_hash h' = h_hash h"
    "h_less h' = h_less h" "ok \<longrightarrow> fitting h'"
proof -
  have "placed h" "h_elem_cnt h < 2 ^ 32" using assms by (auto simp: hash_ok_def)
  then obtain h' where h': "rehash ok h = Some h'" "placed h'" "mset (entries h') = mset (entries h)" "h_hash h' = h_hash h"
    "h_less h' = h_less h" "h_elem_cnt h' = h_elem_cnt h" "ok \<longrightarrow> fitting h'" by (rule rehash_ok [of h ok])
  then show ?thesis using that hash_ok_mset [OF assms h'(2,3,5,6)] mset_eq_setD [OF h'(3)] by blast
qed

section \<open>The table as a set\<close>

text \<open>What a client's functions have to satisfy, and what it then gets.\<close>

locale hash_keys =
  fixes hf :: "'e \<Rightarrow> u32" and ls :: "'e \<Rightarrow> 'e \<Rightarrow> bool"
  assumes irrefl: "\<not> ls a a"
    and same_trans: "same_key ls a b \<Longrightarrow> same_key ls b c \<Longrightarrow> same_key ls a c"
    and same_hash: "same_key ls a b \<Longrightarrow> hf a = hf b"

definition table_of :: "('e \<Rightarrow> u32) \<Rightarrow> ('e \<Rightarrow> 'e \<Rightarrow> bool) \<Rightarrow> 'e hash \<Rightarrow> bool" where
  "table_of hf ls h \<longleftrightarrow> hash_ok h \<and> h_hash h = hf \<and> h_less h = ls"

context hash_keys
begin

lemma find_returns: "table_of hf ls h \<Longrightarrow> \<exists>r. hash_find h e = Some r"
  using find_bucket_less [of h e] by (simp add: table_of_def hash_ok_def hash_find_def)

lemma find_spec:
  assumes t: "table_of hf ls h" and r: "hash_find h e = Some r"
  shows "idx_get (h_buckets h) (find_bucket h e) = Some (h_buckets h ! find_bucket h e)"
    "find_elem h (h_buckets h ! find_bucket h e) e = r"
    "r = None \<Longrightarrow> \<forall>x \<in> set (entries h). \<not> same_key ls x e" "r = Some x \<Longrightarrow> x \<in> set (entries h) \<and> same_key ls x e"
proof -
  have p: "placed h" and f: "h_hash h = hf" "h_less h = ls" using t by (auto simp: table_of_def hash_ok_def)
  let ?b = "h_buckets h ! find_bucket h e"
  show i: "idx_get (h_buckets h) (find_bucket h e) = Some ?b" using find_bucket_less [OF p] by simp
  then show fe: "find_elem h ?b e = r" using r by (simp add: hash_find_def)
  have b: "x \<in> set (entries h) \<Longrightarrow> same_key ls x e \<Longrightarrow> x \<in> set ?b" for x
    using bucket_entries [OF p, of x] same_hash [of x e] f(1) by (simp add: find_bucket_def)
  have "set ?b \<subseteq> set (entries h)" using nth_mem [OF find_bucket_less [OF p, of e]] by (auto simp: entries_def)
  then show "r = Some x \<Longrightarrow> x \<in> set (entries h) \<and> same_key ls x e" using find_elem_Some [of h ?b e x] fe f(2) by auto
  show "r = None \<Longrightarrow> \<forall>x \<in> set (entries h). \<not> same_key ls x e" using find_elem_None [of h ?b e] fe f(2) b by auto
qed

lemma insert_spec:
  assumes t: "table_of hf ls h" and l: "length (entries h) + 1 < 2 ^ 32" and r: "hash_find h e = Some r"
  shows "\<exists>h'. hash_insert ok h e = Some (r, h') \<and> table_of hf ls h' \<and>
    set (entries h') = (if r = None then insert e (set (entries h)) else set (entries h)) \<and> (ok \<longrightarrow> fitting h')"
proof -
  have k: "hash_ok h" "h_hash h = hf" "h_less h = ls" using t by (auto simp: table_of_def)
  note i = find_spec(1,2) [OF t r] and n = find_spec(3) [OF t r]
  obtain m where m: "(if r = None then insert_elem h (find_bucket h e) e else Some h) = Some m" "hash_ok m"
    "h_hash m = hf" "h_less m = ls" "set (entries m) = (if r = None then insert e (set (entries h)) else set (entries h))"
  proof (cases "r = None")
    case True
    then have "\<not> same_key (h_less h) x e" if "x \<in> set (entries h)" for x using n that k by blast
    from insert_elem_ok [OF k(1) l refl this] obtain m where "insert_elem h (find_bucket h e) e = Some m" "hash_ok m"
      "mset (entries m) = add_mset e (mset (entries h))" "h_hash m = hf" "h_less m = ls" using k irrefl by metis
    moreover from this(3) have "set (entries m) = insert e (set (entries h))" by (metis set_mset_mset set_mset_add_mset_insert)
    ultimately show ?thesis using that [of m] True by simp
  qed (use that [of h] k in auto)
  obtain h' where "rehash ok m = Some h'" "hash_ok h'" "set (entries h') = set (entries m)" "h_hash h' = h_hash m"
    "h_less h' = h_less m" "ok \<longrightarrow> fitting h'" using rehash_hash_ok [OF m(2)] by metis
  then show ?thesis using m i by (auto simp: hash_insert_def Let_def table_of_def)
qed

lemma delete_spec:
  assumes t: "table_of hf ls h" and r: "hash_find h e = Some r"
  shows "\<exists>h'. hash_delete ok h e = Some (r, h') \<and> table_of hf ls h' \<and> set (entries h') = set (entries h) - set_option r"
proof (cases r)
  case None
  then show ?thesis using t r by (simp add: hash_delete_def)
next
  case (Some x)
  have k: "hash_ok h" "h_hash h = hf" "h_less h = ls" using t by (auto simp: table_of_def)
  have x: "x \<in> set (entries h)" using find_spec(4) [OF t r] Some by simp
  note m = remove_elem_ok [OF k(1) x]
  obtain h' where h': "rehash ok (remove_elem h x) = Some h'" "hash_ok h'" "set (entries h') = set (entries (remove_elem h x))"
    "h_hash h' = h_hash (remove_elem h x)" "h_less h' = h_less (remove_elem h x)" using rehash_hash_ok [OF m(1)] by metis
  have "set (remove1 x (entries h)) = set (entries h) - {x}" using k(1) by (simp add: hash_ok_def)
  then show ?thesis using h' r Some m(2) k by (simp add: hash_delete_def table_of_def remove_elem_def)
qed

lemma replace_spec:
  assumes t: "table_of hf ls h" and l: "length (entries h) + 1 < 2 ^ 32" and r: "hash_find h e = Some r"
  shows "\<exists>h'. hash_replace ok h e = Some (r, h') \<and> table_of hf ls h' \<and>
    set (entries h') = insert e (set (entries h) - set_option r) \<and> (ok \<longrightarrow> fitting h')"
proof -
  have k: "hash_ok h" "h_hash h = hf" "h_less h = ls" using t by (auto simp: table_of_def)
  note i = find_spec [OF t r]
  define m where "m = (case r of None \<Rightarrow> h | Some x \<Rightarrow> remove_elem h x)"
  have m: "hash_ok m" "set (entries m) = set (entries h) - set_option r" "length (entries m) + 1 < 2 ^ 32"
    "h_hash m = hf" "h_less m = ls" "h_bucket_cnt m = h_bucket_cnt h"
    using k l i(4) remove_elem_ok [OF k(1)]
    by (auto simp: m_def hash_ok_def remove_elem_def length_remove1 split: option.split)
  have u: "x \<in> set (entries h) \<Longrightarrow> y \<in> set (entries h) \<Longrightarrow> same_key ls x y \<Longrightarrow> x = y" for x y
    using k(1,3) unfolding hash_ok_def by blast
  have "\<not> same_key (h_less m) x e" if x: "x \<in> set (entries m)" for x
  proof (cases r)
    case None
    then show ?thesis using i(3) x m(2,5) by simp
  next
    case (Some y)
    note y = i(4) [OF Some]
    have "same_key ls e y" using y by (auto simp: same_key_def)
    then show ?thesis using u [of x y] x y m(2,5) Some same_trans [of x e y] by auto
  qed
  moreover have "find_bucket h e = find_bucket m e" using m k by (simp add: find_bucket_def)
  ultimately obtain n where n: "insert_elem m (find_bucket h e) e = Some n" "hash_ok n"
    "mset (entries n) = add_mset e (mset (entries m))" "h_hash n = hf" "h_less n = ls"
    using insert_elem_ok [OF m(1,3), of "find_bucket h e" e] m irrefl by metis
  have "set (entries n) = insert e (set (entries h) - set_option r)"
    using n(3) m(2) by (metis set_mset_mset set_mset_add_mset_insert)
  moreover obtain h' where "rehash ok n = Some h'" "hash_ok h'" "set (entries h') = set (entries n)" "h_hash h' = h_hash n"
    "h_less h' = h_less n" "ok \<longrightarrow> fitting h'" using rehash_hash_ok [OF n(2)] by metis
  ultimately show ?thesis using n i by (auto simp: hash_replace_def Let_def table_of_def m_def)
qed

end

text \<open>Integer keys with the hash function of the source.\<close>

interpretation int_keys: hash_keys "\<lambda>(i, v). the (hash_int i)" "\<lambda>(i :: int, v) (j, w). i < j"
  by unfold_locales (auto simp: same_key_def)

section \<open>Iteration\<close>

text \<open>The iteration idiom of the source: call \<open>hash_next\<close> until it returns a null pointer. The fuel bounds the
  number of calls.\<close>

fun iterate :: "nat \<Rightarrow> 'e hash \<Rightarrow> hash_iterator \<Rightarrow> 'e list option" where
  "iterate 0 h i = None"
| "iterate (Suc n) h i = do {
     (e, i) \<leftarrow> hash_next h i;
     case e of None \<Rightarrow> Some [] | Some x \<Rightarrow> do { xs \<leftarrow> iterate n h i; Some (x # xs) } }"

definition rest :: "'e hash \<Rightarrow> nat \<Rightarrow> nat \<Rightarrow> 'e list" where
  "rest h b p = drop (p - 1) (h_buckets h ! b) @ concat (drop (Suc b) (h_buckets h))"

lemma next_loop_ok:
  assumes "length (h_buckets h) = h_bucket_cnt h" "b < h_bucket_cnt h" "1 \<le> p" "p \<le> length (h_buckets h ! b) + 1"
  shows "case rest h b p of
      [] \<Rightarrow> (\<exists>i. next_loop h b p = Some (None, i))
    | x # xs \<Rightarrow> \<exists>c q. next_loop h b p = Some (Some x, \<lparr>i_bucket = c, i_pos = q\<rparr>) \<and> c < h_bucket_cnt h \<and>
        1 \<le> q \<and> q \<le> length (h_buckets h ! c) \<and> rest h c (q + 1) = xs \<and> h_buckets h ! c ! (q - 1) = x"
  using assms
proof (induction h b p rule: next_loop.induct)
  case (1 h b p)
  let ?bk = "h_buckets h ! b"
  have g: "idx_get (h_buckets h) b = Some ?bk" using "1.prems" by simp
  show ?case
  proof (cases "p = length ?bk + 1")
    case True
    show ?thesis
    proof (cases "h_bucket_cnt h \<le> b + 1")
      case over: True
      then have "rest h b p = []" using True "1.prems" by (simp add: rest_def)
      moreover have "\<exists>i. next_loop h b p = Some (None, i)" using g over by (subst next_loop.simps) (simp add: True)
      ultimately show ?thesis by simp
    next
      case False
      then have b: "Suc b < length (h_buckets h)" using "1.prems" by simp
      have "rest h b p = rest h (b + 1) 1" using True Cons_nth_drop_Suc [OF b] by (simp add: rest_def) (metis concat.simps(2))
      moreover have "next_loop h b p = next_loop h (b + 1) 1" using g False by (subst next_loop.simps) (simp add: True)
      moreover have "b + 1 < h_bucket_cnt h" "1 \<le> (1 :: nat)" "1 \<le> length (h_buckets h ! (b + 1)) + 1" using False by auto
      note "1.IH" [OF g True False "1.prems"(1) this]
      ultimately show ?thesis by (simp only:)
    qed
  next
    case False
    then have p: "p - 1 < length ?bk" "p \<le> length ?bk" using "1.prems" by auto
    then have "rest h b p = ?bk ! (p - 1) # rest h b (p + 1)"
      using Cons_nth_drop_Suc [OF p(1)] "1.prems"(3) by (simp add: rest_def)
    moreover have "next_loop h b p = Some (Some (?bk ! (p - 1)), \<lparr>i_bucket = b, i_pos = p\<rparr>)"
      using g False p by (simp add: next_loop.simps [of h b p])
    ultimately show ?thesis using "1.prems" p by simp
  qed
qed

lemma iterate_ok:
  assumes "length (h_buckets h) = h_bucket_cnt h" "i_bucket i < h_bucket_cnt h" "i_pos i \<le> length (h_buckets h ! i_bucket i)"
    "rest h (i_bucket i) (i_pos i + 1) = xs" "length xs < n"
  shows "iterate n h i = Some xs"
  using assms
proof (induction n arbitrary: i xs)
  case (Suc n)
  have n: "case xs of [] \<Rightarrow> (\<exists>j. hash_next h i = Some (None, j))
    | x # ys \<Rightarrow> \<exists>c q. hash_next h i = Some (Some x, \<lparr>i_bucket = c, i_pos = q\<rparr>) \<and> c < h_bucket_cnt h \<and>
        1 \<le> q \<and> q \<le> length (h_buckets h ! c) \<and> rest h c (q + 1) = ys \<and> h_buckets h ! c ! (q - 1) = x"
    using next_loop_ok [of h "i_bucket i" "i_pos i + 1"] Suc.prems unfolding hash_next_def by simp
  show ?case
  proof (cases xs)
    case Nil
    then show ?thesis using n by auto
  next
    case (Cons x ys)
    then obtain c q where "hash_next h i = Some (Some x, \<lparr>i_bucket = c, i_pos = q\<rparr>)" "c < h_bucket_cnt h"
      "q \<le> length (h_buckets h ! c)" "rest h c (q + 1) = ys" using n by auto
    moreover from this have "iterate n h \<lparr>i_bucket = c, i_pos = q\<rparr> = Some ys" using Suc Cons by simp
    ultimately show ?thesis using Cons by simp
  qed
qed simp

lemma clear_bucket_fold: "clear_bucket f es s = fold f es s"
  by (induction es arbitrary: s) auto

lemma apply_loop_fold: "apply_loop f bs s = fold f (concat bs) s"
  by (induction bs arbitrary: s) (auto simp: clear_bucket_fold)

lemma clear_loop_eq: "clear_loop d bs s = (replicate (length bs) [], case d of None \<Rightarrow> s | Some f \<Rightarrow> fold f (concat bs) s)"
  by (induction bs arbitrary: s) (auto simp: clear_bucket_fold split: option.split)

section \<open>Properties\<close>

text \<open>A table with two entries, for the witnesses.\<close>

definition example_table :: "(int \<times> nat) hash" where
  "example_table = \<lparr>h_elem_cnt = 1, h_bucket_cnt = 4, h_buckets = map (\<lambda>i. if i = unat (the (hash_int 7)) mod 4 then [(7, 1)] else []) [0, 1, 2, 3],
     h_hash = \<lambda>(i, v). the (hash_int i), h_less = \<lambda>(i, v) (j, w). i < j\<rparr>"

lemma example_table_ok: "table_of (\<lambda>(i, v). the (hash_int i)) (\<lambda>(i, v) (j, w). i < j) example_table"
  "set (entries example_table) = {(7, 1)}" "length (entries example_table) = 1"
proof -
  let ?m = "unat (the (hash_int 7)) mod 4"
  have "?m < 4" by simp
  then have m: "?m \<in> {0, 1, 2, 3}" by auto
  then have e: "entries example_table = [(7, 1)]" by (auto simp: entries_def example_table_def)
  then show "set (entries example_table) = {(7, 1)}" "length (entries example_table) = 1" by auto
  have f: "find_bucket example_table x = unat (the (hash_int (fst x))) mod 4" for x
    using find_bucket_mod [of example_table 2 x] by (simp add: example_table_def split: prod.split)
  have "find_bucket example_table x = i" if i: "i < 4" and x: "x \<in> set (h_buckets example_table ! i)" for i x
  proof -
    have "i \<in> {0, 1, 2, 3}" using i by auto
    then have "i = ?m \<and> x = (7, 1)" using x by (auto simp: example_table_def split: if_splits)
    then show ?thesis by (simp add: f)
  qed
  moreover have "h_bucket_cnt example_table = 4" "length (h_buckets example_table) = 4" by (simp_all add: example_table_def)
  ultimately have "placed example_table" unfolding placed_def by (auto intro!: exI [of _ 2])
  then show "table_of (\<lambda>(i, v). the (hash_int i)) (\<lambda>(i, v) (j, w). i < j) example_table"
    using e by (auto simp: table_of_def hash_ok_def example_table_def same_key_def)
qed

text \<open>C8: A hash table is a set of elements with distinct keys, whatever the number of buckets and whether or not
  \<^verbatim>\<open>malloc\<close> finds memory for a resize. Given functions that give equal keys equal hashes, \<open>hash_find\<close> returns the
  element with the key or null; \<open>hash_insert\<close> adds an element only if its key is new; \<open>hash_replace\<close> exchanges the
  element with its key; \<open>hash_delete\<close> removes it; each returns the element found.\<close>

theorem hash_table_set:
  assumes "hash_keys hf ls" "table_of hf ls h" "length (entries h) + 1 < 2 ^ 32"
  shows "\<exists>r h1 h2 h3. hash_find h e = Some r \<and>
    (case r of None \<Rightarrow> \<forall>x \<in> set (entries h). \<not> same_key ls x e | Some x \<Rightarrow> x \<in> set (entries h) \<and> same_key ls x e) \<and>
    hash_insert ok h e = Some (r, h1) \<and> table_of hf ls h1 \<and>
      set (entries h1) = (if r = None then insert e (set (entries h)) else set (entries h)) \<and>
    hash_replace ok h e = Some (r, h2) \<and> table_of hf ls h2 \<and> set (entries h2) = insert e (set (entries h) - set_option r) \<and>
    hash_delete ok h e = Some (r, h3) \<and> table_of hf ls h3 \<and> set (entries h3) = set (entries h) - set_option r"
proof -
  note k = assms(1)
  obtain r where r: "hash_find h e = Some r" using hash_keys.find_returns [OF k assms(2)] by blast
  have "case r of None \<Rightarrow> \<forall>x \<in> set (entries h). \<not> same_key ls x e | Some x \<Rightarrow> x \<in> set (entries h) \<and> same_key ls x e"
    using hash_keys.find_spec(3,4) [OF k assms(2) r] by (auto split: option.split)
  moreover obtain h1 where "hash_insert ok h e = Some (r, h1)" "table_of hf ls h1"
    "set (entries h1) = (if r = None then insert e (set (entries h)) else set (entries h))"
    using hash_keys.insert_spec [OF k assms(2,3) r, of ok] by auto
  moreover obtain h2 where "hash_replace ok h e = Some (r, h2)" "table_of hf ls h2"
    "set (entries h2) = insert e (set (entries h) - set_option r)"
    using hash_keys.replace_spec [OF k assms(2,3) r, of ok] by auto
  moreover obtain h3 where "hash_delete ok h e = Some (r, h3)" "table_of hf ls h3"
    "set (entries h3) = set (entries h) - set_option r"
    using hash_keys.delete_spec [OF k assms(2) r, of ok] by auto
  ultimately show ?thesis using r by (intro exI [of _ r] exI [of _ h1] exI [of _ h2] exI [of _ h3] conjI)
qed

theorem hash_table_set_witness: "\<exists>r h1. hash_find example_table (7, 5) = Some r \<and>
  hash_insert False example_table (7, 5) = Some (r, h1) \<and> (r = None \<longrightarrow> (7, 5) \<in> set (entries h1))"
proof -
  have l: "length (entries example_table) + 1 < 2 ^ 32" using example_table_ok(3) by simp
  note hash_table_set [OF int_keys.hash_keys_axioms example_table_ok(1) l, of "(7, 5)" False]
  then show ?thesis by (elim exE conjE) (intro exI conjI impI, assumption, assumption, simp)
qed

text \<open>C34: The number of buckets follows the number of elements: when \<^verbatim>\<open>malloc\<close> finds memory, after an insertion or a
  replacement it is the greatest power of two that is at most half the number of elements, but at least four.\<close>

theorem hash_buckets_fit:
  assumes "hash_keys hf ls" "table_of hf ls h" "length (entries h) + 1 < 2 ^ 32"
    "hash_insert True h e = Some (r, h') \<or> hash_replace True h e = Some (r, h')"
  shows "(\<exists>k. h_bucket_cnt h' = 2 ^ k) \<and> length (h_buckets h') = h_bucket_cnt h' \<and>
    h_bucket_cnt h' \<le> max 4 (hash_size h' div 2) \<and> max 4 (hash_size h' div 2) < 2 * h_bucket_cnt h'"
proof -
  obtain q where q: "hash_find h e = Some q" using hash_keys.find_returns [OF assms(1,2)] by blast
  have "table_of hf ls h' \<and> fitting h'"
    using hash_keys.insert_spec [OF assms(1,2,3) q, of True] hash_keys.replace_spec [OF assms(1,2,3) q, of True] assms(4) by auto
  then show ?thesis by (auto simp: table_of_def hash_ok_def placed_def fitting_def hash_size_def)
qed

theorem hash_buckets_fit_witness: "\<exists>r h'. hash_insert True example_table (8, 2) = Some (r, h') \<and> h_bucket_cnt h' \<le> 4 \<and> 2 < h_bucket_cnt h'"
proof -
  obtain q where q: "hash_find example_table (8, 2) = Some q" using int_keys.find_returns [OF example_table_ok(1)] by blast
  obtain h' where h: "hash_insert True example_table (8, 2) = Some (q, h')" "table_of (\<lambda>(i, v). the (hash_int i)) (\<lambda>(i, v) (j, w). i < j) h'"
    "set (entries h') = (if q = None then insert (8, 2) {(7, 1)} else {(7, 1)})"
    using int_keys.insert_spec [OF example_table_ok(1) _ q, of True] example_table_ok(2,3) by auto
  then have "distinct (entries h')" "hash_size h' = length (entries h')" by (simp_all add: table_of_def hash_ok_def hash_size_def)
  then have "hash_size h' = card (set (entries h'))" using distinct_card [of "entries h'"] by simp
  also have "\<dots> \<le> 2" using h(3) by (auto simp: card_insert_if)
  finally show ?thesis
    using hash_buckets_fit [OF int_keys.hash_keys_axioms example_table_ok(1) _ disjI1 [OF h(1)]] example_table_ok(3) h(1)
    by (auto intro!: exI)
qed

text \<open>C35: Iterating from \<open>hash_first\<close> with \<open>hash_next\<close> ends, after as many calls as there are elements and one more,
  and yields the elements in the order of the buckets; \<open>hash_apply\<close> and \<open>hash_clear\<close> act on them in that order, and
  \<open>hash_clear\<close> leaves an empty table.\<close>

theorem hash_iteration:
  assumes "hash_ok h"
  shows "iterate (Suc (hash_size h)) h hash_first = Some (entries h) \<and> hash_apply h f s = fold f (entries h) s \<and>
    (\<exists>h'. hash_clear h (Some f) s = (h', fold f (entries h) s) \<and> hash_ok h' \<and> entries h' = [] \<and> hash_empty h')"
proof -
  have p: "placed h" "h_elem_cnt h = length (entries h)" "length (h_buckets h) = h_bucket_cnt h" "0 < h_bucket_cnt h"
    using assms by (auto simp: hash_ok_def placed_def)
  obtain b bs where bs: "h_buckets h = b # bs" using p(3,4) by (cases "h_buckets h") auto
  have "iterate (Suc (hash_size h)) h hash_first = Some (entries h)"
    using p(3,4) by (intro iterate_ok) (simp_all add: hash_first_def hash_size_def p(2) rest_def entries_def bs)
  moreover have "hash_apply h f s = fold f (entries h) s" by (simp add: hash_apply_def apply_loop_fold entries_def)
  moreover have "placed (h\<lparr>h_buckets := replicate (length (h_buckets h)) [], h_elem_cnt := 0\<rparr>)" using p(1) by (auto simp: placed_def)
  ultimately show ?thesis by (simp add: hash_clear_def clear_loop_eq hash_ok_def entries_def hash_empty_def)
qed

theorem hash_iteration_witness: "iterate 2 example_table hash_first = Some (entries example_table)"
proof -
  have "hash_ok example_table" "hash_size example_table = 1" using example_table_ok(1) by (auto simp: table_of_def hash_size_def example_table_def)
  then show ?thesis using hash_iteration [of example_table "\<lambda>x. id" "()"] by (simp only: numeral_2_eq_2 One_nat_def)
qed

end
