(* ===== verification/Arith.thy ===== *)
theory Arith
  imports Bytes
begin

text \<open>
  The 64-bit division routines, lib/arithmetic.c. Signed 64-bit integers are words read with \<^const>\<open>sint\<close>;
  signed negation and multiplication wrap as on the processor. A trap of the processor does not return.
\<close>

unbundle bit_operations_syntax

section \<open>The routines\<close>

text \<open>The instruction DIVL traps when the divisor is zero or the quotient does not fit in 32 bits.\<close>

definition divl :: "u64 \<Rightarrow> u32 \<Rightarrow> u32 option" where
  "divl n d = (
     if d = 0 \<or> 2 ^ 32 \<le> unat n div unat d then None else Some (word_of_nat (unat n div unat d)))"

definition nlz :: "u32 \<Rightarrow> nat" where
  "nlz x = (
     let n = (0 :: nat);
         (n, x) = (if x \<le> 0x0000FFFF then (n + 16, push_bit 16 x) else (n, x));
         (n, x) = (if x \<le> 0x00FFFFFF then (n + 8, push_bit 8 x) else (n, x));
         (n, x) = (if x \<le> 0x0FFFFFFF then (n + 4, push_bit 4 x) else (n, x));
         (n, x) = (if x \<le> 0x3FFFFFFF then (n + 2, push_bit 2 x) else (n, x)) in
     if x \<le> 0x7FFFFFFF then n + 1 else n)"

definition udiv64 :: "u64 \<Rightarrow> u64 \<Rightarrow> u64 option" where
  "udiv64 n d = (
     if drop_bit 32 d = 0 then do {
       let b = (push_bit 32 1 :: u64);
       let n1 = (ucast (drop_bit 32 n) :: u32);
       let n0 = (ucast n :: u32);
       let d0 = (ucast d :: u32);
       assertO (d0 \<noteq> 0);
       q \<leftarrow> divl (b * ucast (n1 mod d0) + ucast n0) d0;
       Some (ucast q + b * ucast (n1 div d0)) }
     else if n < d then Some 0
     else do {
       let d1 = (ucast (drop_bit 32 d) :: u32);
       let s = nlz d1;
       q \<leftarrow> divl (drop_bit 1 n) (ucast (drop_bit 32 (push_bit s d)));
       let q = (ucast (drop_bit (31 - s) q) :: u64);
       Some (if n - (q - 1) * d < d then q - 1 else q) })"

definition umod64 :: "u64 \<Rightarrow> u64 \<Rightarrow> u32 option" where
  "umod64 n d = do { q \<leftarrow> udiv64 n d; Some (ucast (n - d * q)) }"

definition sdiv64 :: "u64 \<Rightarrow> u64 \<Rightarrow> u64 option" where
  "sdiv64 n d = do {
     let n_abs = (if 0 \<le> sint n then n else - n);
     let d_abs = (if 0 \<le> sint d then d else - d);
     q_abs \<leftarrow> udiv64 n_abs d_abs;
     Some (if (sint n < 0) = (sint d < 0) then q_abs else - q_abs) }"

definition smod64 :: "u64 \<Rightarrow> u64 \<Rightarrow> u32 option" where
  "smod64 n d = do { q \<leftarrow> sdiv64 n d; Some (ucast (n - d * q)) }"

definition divdi3 :: "u64 \<Rightarrow> u64 \<Rightarrow> u64 option" where
  "divdi3 n d = sdiv64 n d"

definition moddi3 :: "u64 \<Rightarrow> u64 \<Rightarrow> u64 option" where
  "moddi3 n d = do { r \<leftarrow> smod64 n d; Some (scast r) }"

definition udivdi3 :: "u64 \<Rightarrow> u64 \<Rightarrow> u64 option" where
  "udivdi3 n d = udiv64 n d"

definition umoddi3 :: "u64 \<Rightarrow> u64 \<Rightarrow> u64 option" where
  "umoddi3 n d = do { r \<leftarrow> umod64 n d; Some (ucast r) }"

section \<open>Leading zeros\<close>

lemma unat_push_bit:
  fixes x :: "'a :: len word"
  shows "2 ^ k * unat x < 2 ^ LENGTH('a) \<Longrightarrow> unat (push_bit k x) = 2 ^ k * unat x"
  by (subst unsigned_push_bit_eq) (simp add: push_bit_eq_mult take_bit_nat_eq_self mult.commute)

lemma nlz_stage:
  fixes x :: u32
  assumes "2 ^ (32 - 2 * k) \<le> unat x" "k \<le> 16"
    and "(n', x') = (if unat x < 2 ^ (32 - k) then (n + k, push_bit k x) else (n, x))"
  shows "2 ^ (32 - k) \<le> unat x' \<and> (unat x = 2 ^ n * m \<longrightarrow> unat x' = 2 ^ n' * m)"
proof (cases "unat x < 2 ^ (32 - k)")
  case True
  have e: "2 ^ k * 2 ^ (32 - k) = (2 :: nat) ^ 32" "2 ^ k * 2 ^ (32 - 2 * k) = (2 :: nat) ^ (32 - k)"
    using assms(2) by (simp_all add: power_add [symmetric])
  have "2 ^ k * unat x < 2 ^ 32" using True unfolding e(1) [symmetric] by simp
  then have x: "unat x' = 2 ^ k * unat x" using True assms(3) unat_push_bit [of k x] by simp
  have "2 ^ k * 2 ^ (32 - 2 * k) \<le> 2 ^ k * unat x" using assms(1) by simp
  with x e(2) True assms(3) show ?thesis by (simp add: power_add)
qed (use assms in auto)

lemma nlz_ok:
  assumes "x \<noteq> 0"
  shows "2 ^ 31 \<le> 2 ^ nlz x * unat x" "2 ^ nlz x * unat x < 2 ^ 32" "nlz x < 32"
proof -
  obtain n1 x1 where 1: "(n1, x1) = (if x \<le> 0x0000FFFF then (0 + 16 :: nat, push_bit 16 x) else (0, x))" by (metis surj_pair)
  obtain n2 x2 where 2: "(n2, x2) = (if x1 \<le> 0x00FFFFFF then (n1 + 8, push_bit 8 x1) else (n1, x1))" by (metis surj_pair)
  obtain n3 x3 where 3: "(n3, x3) = (if x2 \<le> 0x0FFFFFFF then (n2 + 4, push_bit 4 x2) else (n2, x2))" by (metis surj_pair)
  obtain n4 x4 where 4: "(n4, x4) = (if x3 \<le> 0x3FFFFFFF then (n3 + 2, push_bit 2 x3) else (n3, x3))" by (metis surj_pair)
  have le: "(y \<le> 0x0000FFFF) = (unat y < 2 ^ (32 - 16))" "(y \<le> 0x00FFFFFF) = (unat y < 2 ^ (32 - 8))"
    "(y \<le> 0x0FFFFFFF) = (unat y < 2 ^ (32 - 4))" "(y \<le> 0x3FFFFFFF) = (unat y < 2 ^ (32 - 2))"
    "(y \<le> 0x7FFFFFFF) = (unat y < 2 ^ 31)" for y :: u32
    by (auto simp: word_le_nat_alt)
  have n: "nlz x = (if unat x4 < 2 ^ 31 then n4 + 1 else n4)"
    unfolding nlz_def Let_def 1 [symmetric] prod.case 2 [symmetric] 3 [symmetric] 4 [symmetric] le(5) by simp
  have "2 ^ (32 - 2 * 16) \<le> unat x" using assms by (simp add: Suc_leI unat_gt_0)
  from nlz_stage [OF this, of n1 x1 0 "unat x"] 1 have a: "2 ^ 16 \<le> unat x1" "unat x1 = 2 ^ n1 * unat x" by (simp_all add: le)
  from nlz_stage [of 8 x1 n2 x2 n1 "unat x"] 2 a have b: "2 ^ 24 \<le> unat x2" "unat x2 = 2 ^ n2 * unat x" by (simp_all add: le)
  from nlz_stage [of 4 x2 n3 x3 n2 "unat x"] 3 b have c: "2 ^ 28 \<le> unat x3" "unat x3 = 2 ^ n3 * unat x" by (simp_all add: le)
  from nlz_stage [of 2 x3 n4 x4 n3 "unat x"] 4 c have d: "2 ^ 30 \<le> unat x4" "unat x4 = 2 ^ n4 * unat x" by (simp_all add: le)
  have "unat x4 < 2 ^ 32" using unsigned_less [of x4, where 'a = nat] by simp
  with d n show "2 ^ 31 \<le> 2 ^ nlz x * unat x" and l: "2 ^ nlz x * unat x < 2 ^ 32"
    by (simp_all add: mult.commute split: if_splits)
  have "(2 :: nat) ^ nlz x * 1 \<le> 2 ^ nlz x * unat x" using assms by (simp add: Suc_leI unat_gt_0)
  with l have "(2 :: nat) ^ nlz x < 2 ^ 32" by linarith
  then show "nlz x < 32" by (rule power_less_imp_less_exp [rotated]) simp
qed

section \<open>Unsigned division\<close>

lemma divl_ok: "d \<noteq> 0 \<Longrightarrow> unat n div unat d < 2 ^ 32 \<Longrightarrow> \<exists>q. divl n d = Some q \<and> unat q = unat n div unat d"
  by (simp add: divl_def unat_of_nat)

text \<open>The estimate of the quotient by the leading 32 bits of the divisor: dividing by \<open>e \<le> d\<close> instead of \<open>d\<close>
  is off by at most one.\<close>

lemma estimate:
  fixes n d e :: nat
  assumes "0 < e" "e \<le> d" "n * (d - e) < e * d"
  shows "n div d \<le> n div e" "n div e \<le> n div d + 1"
proof -
  show "n div d \<le> n div e" using assms(1,2) by (rule div_le_mono2)
  obtain k where k: "d = e + k" using assms(2) le_Suc_ex by blast
  let ?Q = "n div d" and ?r = "n mod d"
  have d: "0 < d" "?r < d" "n = ?Q * d + ?r" using assms(1,2) by simp_all
  have "n * k + ?r * e = (?Q * d + ?r) * k + ?r * e" using d(3) by simp
  also have "\<dots> = ?Q * d * k + ?r * (e + k)" by (simp only: distrib_right distrib_left)
  also have "\<dots> = d * (?Q * k + ?r)" unfolding k [symmetric] by (simp add: distrib_left mult.commute mult.left_commute)
  finally have "d * (?Q * k + ?r) = n * k + ?r * e" by (rule sym)
  moreover have "n * k < e * d" using assms(3) k by simp
  moreover have "?r * e < e * d" using assms(1) d(2) by (simp add: mult.commute)
  moreover have "d * (2 * e) = e * d + e * d" by (simp only: mult_2 distrib_left mult.commute)
  ultimately have "d * (?Q * k + ?r) < d * (2 * e)" by linarith
  then have "?Q * k + ?r < 2 * e" by (simp only: mult_less_cancel1)
  moreover have "n = ?Q * e + (?Q * k + ?r)" using d(3) by (subst (asm) (2) k) (simp add: distrib_left)
  ultimately have "n < (?Q + 2) * e" by (simp only: distrib_right)
  then have "n div e < ?Q + 2" by (rule less_mult_imp_div_less)
  then show "n div e \<le> ?Q + 1" by simp
qed

lemma udiv_small:
  fixes n d :: nat
  assumes "0 < d"
  shows "(2 ^ 32 * (n div 2 ^ 32 mod d) + n mod 2 ^ 32) div d < 2 ^ 32"
    and "(2 ^ 32 * (n div 2 ^ 32 mod d) + n mod 2 ^ 32) div d + 2 ^ 32 * (n div 2 ^ 32 div d) = n div d"
proof -
  let ?m = "n div 2 ^ 32"
  have "?m mod d + 1 \<le> d" using assms by (simp add: Suc_leI)
  then have "2 ^ 32 * (?m mod d) + 2 ^ 32 \<le> 2 ^ 32 * d" by (metis add_mult_distrib2 mult_le_mono2 nat_mult_1_right)
  moreover have "n mod 2 ^ 32 < 2 ^ 32" by simp
  ultimately have "2 ^ 32 * (?m mod d) + n mod 2 ^ 32 < 2 ^ 32 * d" by linarith
  then show "(2 ^ 32 * (?m mod d) + n mod 2 ^ 32) div d < 2 ^ 32" by (simp only: less_mult_imp_div_less)
  have "n = 2 ^ 32 * (?m mod d) + n mod 2 ^ 32 + d * (2 ^ 32 * (?m div d))"
  proof -
    have "2 ^ 32 * ?m = 2 ^ 32 * (d * (?m div d) + ?m mod d)" by simp
    then have "2 ^ 32 * ?m = d * (2 ^ 32 * (?m div d)) + 2 ^ 32 * (?m mod d)"
      by (simp only: distrib_left mult.left_commute)
    moreover have "n = 2 ^ 32 * ?m + n mod 2 ^ 32" by simp
    ultimately show ?thesis by linarith
  qed
  then show "(2 ^ 32 * (?m mod d) + n mod 2 ^ 32) div d + 2 ^ 32 * (?m div d) = n div d"
    using assms by (metis add.commute div_mult_self2 less_numeral_extra(3))
qed

lemma unat_halves:
  fixes n :: u64
  shows "unat (ucast (drop_bit 32 n) :: u32) = unat n div 2 ^ 32" "unat (ucast n :: u32) = unat n mod 2 ^ 32"
    "unat n div 2 ^ 32 < 2 ^ 32"
proof -
  have "unat n < 2 ^ 64" using unsigned_less [of n, where 'a = nat] by simp
  then show 3: "unat n div 2 ^ 32 < 2 ^ 32" by (simp add: div_less_iff_less_mult)
  then show "unat (ucast (drop_bit 32 n) :: u32) = unat n div 2 ^ 32"
    by (simp add: unsigned_ucast_eq drop_bit_eq_div unat_div take_bit_nat_eq_self)
  show "unat (ucast n :: u32) = unat n mod 2 ^ 32" by (simp add: unsigned_ucast_eq take_bit_eq_mod)
qed

lemma unat_drop_bit: "unat (drop_bit k x) = unat x div 2 ^ k"
  for x :: "'a :: len word"
  by (subst unsigned_drop_bit_eq) (simp add: drop_bit_eq_div take_bit_nat_eq_self unsigned_less)

lemma unat_widen: "unat (ucast z :: u64) = unat z"
  for z :: u32
  using unsigned_less [of z, where 'a = nat] by (simp add: unsigned_ucast_eq take_bit_nat_eq_self)

lemma unat_join:
  fixes x y :: u32
  shows "unat (push_bit 32 1 * ucast x + ucast y :: u64) = 2 ^ 32 * unat x + unat y"
proof -
  have w: "unat (ucast z :: u64) = unat z" "unat z < 2 ^ 32" for z :: u32
    using unsigned_less [of z, where 'a = nat] unat_widen by simp_all
  have "unat (push_bit 32 1 :: u64) = 2 ^ 32" by (simp add: unat_push_bit)
  moreover have "2 ^ 32 * unat x + unat y < 2 ^ 64" using w(2) [of x] w(2) [of y] by simp
  ultimately show ?thesis by (simp add: unat_word_ariths w)
qed

lemma udiv64_short:
  assumes "drop_bit 32 d = 0" "d \<noteq> 0"
  shows "udiv64 n d = Some (n div d)"
proof -
  define n1 n0 d0 where v: "n1 = (ucast (drop_bit 32 n) :: u32)" "n0 = (ucast n :: u32)" "d0 = (ucast d :: u32)"
  have "unat d < 2 ^ 32" using arg_cong [OF assms(1), of unat] by (simp add: drop_bit_eq_div unat_div div_eq_0_iff)
  then have d0: "unat d0 = unat d" using unat_halves(2) [of d] by (simp add: v)
  have dpos: "0 < unat d" "d0 \<noteq> 0" using assms(2) d0 by (auto simp: unat_gt_0 unat_eq_zero)
  have n: "unat n1 = unat n div 2 ^ 32" "unat n0 = unat n mod 2 ^ 32" using unat_halves [of n] by (simp_all add: v)
  let ?a = "push_bit 32 1 * ucast (n1 mod d0) + ucast n0 :: u64"
  note s = udiv_small [OF dpos(1), of "unat n"]
  have a: "unat ?a = 2 ^ 32 * (unat n div 2 ^ 32 mod unat d) + unat n mod 2 ^ 32"
    unfolding unat_join unat_mod n d0 ..
  obtain q where q: "divl ?a d0 = Some q" "unat q = unat ?a div unat d" using divl_ok [of d0 ?a] s(1) dpos(2) unfolding a d0 by blast
  have "unat (ucast q + push_bit 32 1 * ucast (n1 div d0) :: u64) = unat n div unat d"
    unfolding add.commute [of "ucast q"] unat_join unat_div unat_mod n d0 q(2) using s(2) by (simp only: add.commute)
  then have "ucast q + push_bit 32 1 * ucast (n1 div d0) = n div d" by (simp only: word_unat_eq_iff unat_div)
  then show ?thesis unfolding udiv64_def if_P [OF assms(1)] Let_def v [symmetric] using q(1) dpos(2) by simp
qed

text \<open>The divisor \<open>d\<close> has at least 33 bits; \<open>s\<close> leading zeros are shifted out, and \<open>e\<close> is the divisor without the bits
  that the division by its leading 32 bits ignores.\<close>

lemma truncated_divisor:
  fixes n d s :: nat
  assumes "2 ^ 63 \<le> 2 ^ s * d" "s < 32" "n < 2 ^ 64" "e = (2 ^ s * d div 2 ^ 32) * 2 ^ (32 - s)"
  shows "0 < e" "e \<le> d" "n * (d - e) < e * d"
proof -
  define t where "t = 31 - s"
  have t: "32 - s = Suc t" using assms(2) by (simp add: t_def)
  have st: "2 ^ 32 = (2 :: nat) ^ s * 2 ^ (32 - s)" using assms(2) by (simp add: power_add [symmetric])
  then have "2 ^ s * d div 2 ^ 32 = d div 2 ^ (32 - s)" by (simp only: div_mult2_eq nonzero_mult_div_cancel_left) simp
  then have e: "e = d div 2 ^ (32 - s) * 2 ^ (32 - s)" using assms(4) by simp
  show "e \<le> d" unfolding e by (rule div_times_less_eq_dividend)
  have "d - e = d mod 2 ^ (32 - s)" unfolding e by (simp add: minus_div_mult_eq_mod)
  then have "d - e < 2 * 2 ^ t" using t by simp
  then have de: "d - e \<le> 2 * 2 ^ t - 1" by linarith
  have e63: "(2 :: nat) ^ 63 = 2 ^ s * 2 ^ (32 + t)" using assms(2) by (simp add: t_def power_add [symmetric])
  then have d: "2 ^ (32 + t) \<le> d" using assms(1) by (simp only: mult_le_cancel1) simp
  have "(2 :: nat) ^ (32 + t) = 2 ^ 31 * 2 ^ (32 - s)" unfolding t by (simp add: power_add)
  with d have "2 ^ 31 \<le> d div 2 ^ (32 - s)" by (simp add: less_eq_div_iff_mult_less_eq)
  then have ge: "2 ^ (32 + t) \<le> e" unfolding e \<open>2 ^ (32 + t) = 2 ^ 31 * 2 ^ (32 - s)\<close> by (rule mult_le_mono1)
  then show "0 < e" by (rule less_le_trans [rotated]) simp
  have "n * (d - e) \<le> n * (2 * 2 ^ t - 1)" using de by simp
  also have "\<dots> < 2 ^ 64 * (2 * 2 ^ t - 1)"
  proof (rule mult_less_mono1 [OF assms(3)])
    show "0 < 2 * 2 ^ t - (1 :: nat)" using one_le_power [of "2 :: nat" t] by linarith
  qed
  also have "\<dots> \<le> 2 ^ 64 * (2 ^ t * 2 ^ t)"
  proof -
    have "2 * x - 1 \<le> x * x" for x :: nat by (induction x) simp_all
    then show ?thesis by simp
  qed
  also have "\<dots> = 2 ^ (32 + t) * 2 ^ (32 + t)" by (simp add: power_add)
  also have "\<dots> \<le> e * d" using ge d by (rule mult_le_mono)
  finally show "n * (d - e) < e * d" .
qed

lemma unat_remainder:
  fixes n d k :: u64
  assumes "unat k * unat d \<le> unat n"
  shows "unat (n - k * d) = unat n - unat k * unat d"
proof -
  have "unat (k * d) = unat k * unat d"
    using assms unsigned_less [of n, where 'a = nat] by (simp add: unat_word_ariths le_less_trans)
  with assms show ?thesis by (simp add: unat_sub word_le_nat_alt)
qed

lemma correct_estimate:
  fixes n d q :: u64
  assumes "d \<noteq> 0" "d \<le> n" "unat n div unat d \<le> unat q" "unat q \<le> unat n div unat d + 1"
  shows "(if n - (q - 1) * d < d then q - 1 else q) = n div d"
proof -
  let ?Q = "unat n div unat d"
  have dm: "unat n = ?Q * unat d + unat n mod unat d" "unat n mod unat d < unat d"
    using assms(1) by (simp_all add: unat_gt_0)
  have Q: "1 \<le> ?Q" using assms(1,2) by (simp add: word_le_nat_alt unat_gt_0 div_greater_zero_iff Suc_leI)
  then have q: "q \<noteq> 0" using assms(3) by auto
  then have p: "unat (q - 1) = unat q - 1" by (rule unat_minus_one)
  then have le: "unat (q - 1) * unat d \<le> unat n" using assms(4) dm(1)
    by (metis add_diff_cancel_right' diff_le_mono div_times_less_eq_dividend le_trans mult_le_mono1)
  consider "unat q = ?Q" | "unat q = ?Q + 1" using assms(3,4) by linarith
  then show ?thesis
  proof cases
    case 1
    have "?Q * unat d = (?Q - 1) * unat d + unat d" using Q by (metis add.commute le_add_diff_inverse2 mult_Suc plus_1_eq_Suc)
    then have "unat n - (?Q - 1) * unat d = unat n mod unat d + unat d" using dm(1) by linarith
    then have "\<not> n - (q - 1) * d < d" using unat_remainder [OF le] p 1 by (simp add: word_less_nat_alt)
    then show ?thesis using 1 by (simp add: word_unat_eq_iff unat_div)
  next
    case 2
    then have u: "unat (q - 1) = ?Q" using p by simp
    then have "unat (n - (q - 1) * d) = unat n mod unat d" using unat_remainder [OF le] by (simp add: minus_div_mult_eq_mod)
    then have "n - (q - 1) * d < d" using dm(2) by (simp add: word_less_nat_alt)
    then show ?thesis using u by (simp add: word_unat_eq_iff unat_div)
  qed
qed

lemma shifted_divisor:
  fixes d s :: nat
  assumes "2 ^ 31 \<le> 2 ^ s * (d div 2 ^ 32)" "2 ^ s * (d div 2 ^ 32) < 2 ^ 32" "s < 32"
  shows "2 ^ 63 \<le> 2 ^ s * d" "2 ^ s * d < 2 ^ 64"
proof -
  have "(2 :: nat) ^ 63 = 2 ^ 31 * 2 ^ 32" by simp
  also have "\<dots> \<le> 2 ^ s * (d div 2 ^ 32) * 2 ^ 32" using assms(1) by (rule mult_le_mono1)
  also have "\<dots> = 2 ^ s * (d div 2 ^ 32 * 2 ^ 32)" by (rule mult.assoc)
  also have "\<dots> \<le> 2 ^ s * d" by (intro mult_le_mono2 div_times_less_eq_dividend)
  finally show "2 ^ 63 \<le> 2 ^ s * d" .
  have e: "2 ^ 32 = (2 :: nat) ^ s * 2 ^ (32 - s)" using assms(3) by (simp add: power_add [symmetric])
  have "2 ^ s * (d div 2 ^ 32) < 2 ^ s * 2 ^ (32 - s)" using assms(2) unfolding e [symmetric] .
  then have "d div 2 ^ 32 < 2 ^ (32 - s)" by (simp only: mult_less_cancel1)
  then have "d < 2 ^ (32 - s) * 2 ^ 32" by (simp add: div_less_iff_less_mult)
  then have "2 ^ s * d < 2 ^ s * (2 ^ (32 - s) * 2 ^ 32)" by simp
  also have "\<dots> = 2 ^ 32 * 2 ^ 32" unfolding mult.assoc [symmetric] e [symmetric] ..
  finally show "2 ^ s * d < 2 ^ 64" by simp
qed

lemma udiv64_long:
  assumes "drop_bit 32 d \<noteq> 0" "d \<le> n"
  shows "udiv64 n d = Some (n div d)"
proof -
  define d1 where "d1 = (ucast (drop_bit 32 d) :: u32)"
  define s where "s = nlz d1"
  define f where "f = (ucast (drop_bit 32 (push_bit s d)) :: u32)"
  have N: "unat n < 2 ^ 64" using unsigned_less [of n, where 'a = nat] by simp
  have d1: "unat d1 = unat d div 2 ^ 32" using unat_halves(1) [of d] by (simp add: d1_def)
  have "unat d1 \<noteq> 0" using assms(1) unfolding d1 by (simp add: drop_bit_eq_div word_unat_eq_iff unat_div)
  then have "d1 \<noteq> 0" by auto
  note z = nlz_ok [OF this, folded s_def, unfolded d1]
  note sd = shifted_divisor [OF z]
  have f: "unat f = 2 ^ s * unat d div 2 ^ 32" unfolding f_def using unat_halves(1) [of "push_bit s d"] unat_push_bit [of s d] sd(2) by simp
  have f31: "2 ^ 31 \<le> unat f" using sd(1) unfolding f by (simp add: less_eq_div_iff_mult_less_eq)
  have n2: "unat (drop_bit 1 n) = unat n div 2" by (simp add: drop_bit_eq_div unat_div)
  have "unat n div 2 < 2 ^ 32 * unat f" using N f31 by simp
  then have "unat n div 2 div unat f < 2 ^ 32" by (rule less_mult_imp_div_less)
  then obtain q where q: "divl (drop_bit 1 n) f = Some q" "unat q = unat n div 2 div unat f"
    using divl_ok [of f "drop_bit 1 n"] f31 unfolding n2 by fastforce
  define r where "r = (ucast (drop_bit (31 - s) q) :: u64)"
  define e where "e = (2 ^ s * unat d div 2 ^ 32) * 2 ^ (32 - s)"
  have s32: "32 - s = Suc (31 - s)" using z(3) by simp
  note t = truncated_divisor [OF sd(1) z(3) N e_def]
  have "unat r = unat q div 2 ^ (31 - s)" unfolding r_def unat_widen unat_drop_bit ..
  also have "\<dots> = unat n div e" unfolding q(2) e_def f [symmetric] div_mult2_eq [symmetric] s32
    by (simp add: mult.assoc mult.left_commute)
  finally have r: "unat r = unat n div e" .
  have "d \<noteq> 0" using assms(1) by auto
  from correct_estimate [OF this assms(2)] estimate [OF t] r
  have "(if n - (r - 1) * d < d then r - 1 else r) = n div d" by simp
  moreover have "\<not> n < d" using assms(2) by simp
  ultimately show ?thesis using assms(1) q(1) unfolding udiv64_def Let_def d1_def [symmetric] s_def [symmetric] f_def [symmetric]
    by (simp add: r_def [symmetric] split: if_splits)
qed

lemma udiv64_ok: "d \<noteq> 0 \<Longrightarrow> udiv64 n d = Some (n div d)"
proof -
  assume d: "d \<noteq> 0"
  consider "drop_bit 32 d = 0" | "drop_bit 32 d \<noteq> 0" "d \<le> n" | "drop_bit 32 d \<noteq> 0" "n < d" by fastforce
  then show ?thesis
  proof cases
    case 3
    then have "n div d = 0" by (simp add: word_unat_eq_iff unat_div word_less_nat_alt)
    with 3 show ?thesis by (simp add: udiv64_def)
  qed (use udiv64_short udiv64_long d in auto)
qed

section \<open>Signed division\<close>

lemma sint_abs:
  fixes n :: u64
  shows "int (unat (if 0 \<le> sint n then n else - n)) = \<bar>sint n\<bar>" "\<bar>sint n\<bar> \<le> 2 ^ 63"
proof -
  have r: "- (2 ^ 63) \<le> sint n" "sint n < 2 ^ 63" using sint_range_size [of n] by (simp_all add: word_size)
  then show "\<bar>sint n\<bar> \<le> 2 ^ 63" by linarith
  show "int (unat (if 0 \<le> sint n then n else - n)) = \<bar>sint n\<bar>"
  proof (cases "0 \<le> sint n")
    case True
    have "uint n = sint n mod 2 ^ 64" using uint_word_of_int [of "sint n", where 'a = 64] by simp
    also have "\<dots> = sint n" using True r by (simp add: mod_pos_pos_trivial)
    finally show ?thesis using True by simp
  next
    case False
    have "uint (- n) = (- sint n) mod 2 ^ 64" using uint_word_of_int [of "- sint n", where 'a = 64] by simp
    also have "\<dots> = - sint n" using False r by (simp add: mod_pos_pos_trivial)
    finally show ?thesis using False by simp
  qed
qed

lemma sdiv64_ok: "d \<noteq> 0 \<Longrightarrow> sdiv64 n d = Some (word_of_int (cdiv (sint n) (sint d)))"
proof -
  assume d: "d \<noteq> 0"
  define a b where ab: "a = (if 0 \<le> sint n then n else - n)" "b = (if 0 \<le> sint d then d else - d)"
  have u: "int (unat a) = \<bar>sint n\<bar>" "int (unat b) = \<bar>sint d\<bar>" using sint_abs by (simp_all add: ab)
  have "b \<noteq> 0" using d by (simp add: ab)
  then have q: "udiv64 a b = Some (a div b)" by (rule udiv64_ok)
  have "a div b = word_of_int (int (unat (a div b)))" by simp
  also have "int (unat (a div b)) = \<bar>sint n\<bar> div \<bar>sint d\<bar>" unfolding unat_div zdiv_int u ..
  finally show ?thesis unfolding sdiv64_def Let_def ab [symmetric] q by (simp add: cdiv_def)
qed

lemma ucast_of_int: "ucast (word_of_int i :: u64) = (word_of_int i :: u32)"
  by (rule bit_word_eqI) (simp add: bit_simps)

lemma smod64_ok: "d \<noteq> 0 \<Longrightarrow> smod64 n d = Some (word_of_int (cmod (sint n) (sint d)))"
proof -
  assume "d \<noteq> 0"
  let ?q = "cdiv (sint n) (sint d)"
  have "n - d * word_of_int ?q = word_of_int (sint n - sint d * ?q)" by simp
  then have "ucast (n - d * word_of_int ?q) = (word_of_int (sint n - sint d * ?q) :: u32)"
    by (simp only: ucast_of_int)
  with sdiv64_ok [OF \<open>d \<noteq> 0\<close>] show ?thesis by (simp add: smod64_def cmod_def mult.commute)
qed

lemma cmod_eq: "cmod a b = (if a < 0 then - (\<bar>a\<bar> mod \<bar>b\<bar>) else \<bar>a\<bar> mod \<bar>b\<bar>)"
  using minus_div_mult_eq_mod [of "\<bar>a\<bar>" "\<bar>b\<bar>"] by (auto simp: cmod_def cdiv_def)

lemma narrow_remainder:
  fixes n d :: u64
  assumes "d \<noteq> 0"
  shows "d \<le> 2 ^ 32 \<Longrightarrow> ucast (ucast (n mod d) :: u32) = n mod d"
    and "\<bar>sint d\<bar> \<le> 2 ^ 31 \<Longrightarrow> scast (word_of_int (cmod (sint n) (sint d)) :: u32) = (word_of_int (cmod (sint n) (sint d)) :: u64)"
proof -
  assume "d \<le> 2 ^ 32"
  then have "unat (n mod d) < 2 ^ 32" using assms mod_less_divisor [of "unat d" "unat n"]
    by (simp add: unat_mod word_le_nat_alt unat_gt_0 del: mod_less_divisor)
  then have "unat (ucast (ucast (n mod d) :: u32) :: u64) = unat (n mod d)"
    unfolding unat_widen by (simp add: unsigned_ucast_eq take_bit_nat_eq_self)
  then show "ucast (ucast (n mod d) :: u32) = n mod d" by (simp only: word_unat_eq_iff)
next
  let ?r = "cmod (sint n) (sint d)"
  assume d: "\<bar>sint d\<bar> \<le> 2 ^ 31"
  have "sint d \<noteq> 0" using assms by (simp add: signed_eq_0_iff)
  then have "0 < \<bar>sint d\<bar>" by simp
  then have "\<bar>sint n\<bar> mod \<bar>sint d\<bar> < \<bar>sint d\<bar>" "0 \<le> \<bar>sint n\<bar> mod \<bar>sint d\<bar>" by simp_all
  with d have "- (2 ^ 31) \<le> ?r" "?r < 2 ^ 31" unfolding cmod_eq by (simp_all only: split: if_split) linarith+
  then show "scast (word_of_int ?r :: u32) = (word_of_int ?r :: u64)" by (simp add: signed_of_int signed_take_bit_int_eq_self)
qed

section \<open>Properties\<close>

text \<open>C27: 64-bit division. For every divisor but zero the routines that the compiler calls for division return, without a trap
  of the processor, the unsigned quotient and the signed quotient truncated towards zero (which wraps
  for the one quotient \<open>2 ^ 63\<close> that does not fit). The remainders pass through a 32-bit integer: they
  are exact for divisors up to \<open>2 ^ 32\<close> and \<open>2 ^ 31\<close>, but in general only their low 32 bits are returned.
  Division by zero traps.\<close>

theorem division_correct:
  assumes "d \<noteq> 0"
  shows "udivdi3 n d = Some (n div d) \<and> divdi3 n d = Some (word_of_int (cdiv (sint n) (sint d))) \<and>
    umoddi3 n d = Some (ucast (ucast (n mod d) :: u32)) \<and> (d \<le> 2 ^ 32 \<longrightarrow> umoddi3 n d = Some (n mod d)) \<and>
    moddi3 n d = Some (scast (word_of_int (cmod (sint n) (sint d)) :: u32)) \<and>
    (\<bar>sint d\<bar> \<le> 2 ^ 31 \<longrightarrow> moddi3 n d = Some (word_of_int (cmod (sint n) (sint d)))) \<and>
    udivdi3 n 0 = None \<and> divdi3 n 0 = None"
proof -
  have m: "umoddi3 n d = Some (ucast (ucast (n mod d) :: u32))"
    using udiv64_ok [OF assms] by (simp add: umoddi3_def umod64_def minus_mult_div_eq_mod)
  have z: "udivdi3 n 0 = None" "divdi3 n 0 = None" by (simp_all add: udivdi3_def divdi3_def sdiv64_def udiv64_def)
  have s: "moddi3 n d = Some (scast (word_of_int (cmod (sint n) (sint d)) :: u32))"
    using smod64_ok [OF assms] by (simp add: moddi3_def)
  have q: "udivdi3 n d = Some (n div d)" "divdi3 n d = Some (word_of_int (cdiv (sint n) (sint d)))"
    using udiv64_ok [OF assms] sdiv64_ok [OF assms] by (simp_all add: udivdi3_def divdi3_def)
  show ?thesis using m z s q narrow_remainder [OF assms] by simp
qed

theorem division_correct_witness:
  "umoddi3 (2 ^ 32) (2 ^ 33) = Some 0 \<and> udivdi3 (2 ^ 63 + 7) (2 ^ 33 + 1) = Some ((2 ^ 63 + 7) div (2 ^ 33 + 1)) \<and>
    divdi3 (- 7) 2 = Some (word_of_int (cdiv (sint (- 7 :: u64)) (sint (2 :: u64))))"
  using division_correct [of "2 ^ 33" "2 ^ 32"] division_correct [of "2 ^ 33 + 1" "2 ^ 63 + 7"] division_correct [of 2 "- 7"]
  by simp

end
