(* ===== verification/Cstring.thy ===== *)
theory Cstring
  imports Prelude
begin

text \<open>
  The string library, lib/string.c. Memory is an array of bytes and a pointer is an index into it, so
  that overlapping blocks and the bytes behind a string are visible; an access outside the memory does
  not return. A null pointer is the index 0, which no block passed to these routines contains.
\<close>

type_synonym memory = "u8 list"

section \<open>Blocks\<close>

fun copy_up :: "memory \<Rightarrow> addr \<Rightarrow> addr \<Rightarrow> nat \<Rightarrow> memory option" where
  "copy_up mem dst src 0 = Some mem"
| "copy_up mem dst src (Suc n) = do {
     b \<leftarrow> idx_get mem src;
     mem \<leftarrow> idx_set mem dst b;
     copy_up mem (dst + 1) (src + 1) n }"

fun copy_down :: "memory \<Rightarrow> addr \<Rightarrow> addr \<Rightarrow> nat \<Rightarrow> memory option" where
  "copy_down mem dst src 0 = Some mem"
| "copy_down mem dst src (Suc n) = do {
     b \<leftarrow> idx_get mem (src - 1);
     mem \<leftarrow> idx_set mem (dst - 1) b;
     copy_down mem (dst - 1) (src - 1) n }"

definition memcpy :: "memory \<Rightarrow> addr \<Rightarrow> addr \<Rightarrow> nat \<Rightarrow> (addr \<times> memory) option" where
  "memcpy mem dst src n = do {
     assertO (dst \<noteq> NULL \<or> n = 0);
     assertO (src \<noteq> NULL \<or> n = 0);
     mem \<leftarrow> copy_up mem dst src n;
     Some (dst, mem) }"

text \<open>\<^verbatim>\<open>memmove\<close> returns its moving pointer \<^verbatim>\<open>dst\<close>, which a copy upwards leaves behind the block.\<close>

definition memmove :: "memory \<Rightarrow> addr \<Rightarrow> addr \<Rightarrow> nat \<Rightarrow> (addr \<times> memory) option" where
  "memmove mem dst src n = do {
     assertO (dst \<noteq> NULL \<or> n = 0);
     assertO (src \<noteq> NULL \<or> n = 0);
     if dst < src then do { mem \<leftarrow> copy_up mem dst src n; Some (dst + n, mem) }
     else do { mem \<leftarrow> copy_down mem (dst + n) (src + n) n; Some (dst, mem) } }"

fun cmp_loop :: "memory \<Rightarrow> addr \<Rightarrow> addr \<Rightarrow> nat \<Rightarrow> int option" where
  "cmp_loop mem a b 0 = Some 0"
| "cmp_loop mem a b (Suc n) = do {
     x \<leftarrow> idx_get mem a;
     y \<leftarrow> idx_get mem b;
     if x \<noteq> y then Some (if y < x then 1 else -1) else cmp_loop mem (a + 1) (b + 1) n }"

definition memcmp :: "memory \<Rightarrow> addr \<Rightarrow> addr \<Rightarrow> nat \<Rightarrow> int option" where
  "memcmp mem a b n = do {
     assertO (a \<noteq> NULL \<or> n = 0);
     assertO (b \<noteq> NULL \<or> n = 0);
     cmp_loop mem a b n }"

fun chr_loop :: "memory \<Rightarrow> addr \<Rightarrow> u8 \<Rightarrow> nat \<Rightarrow> addr option" where
  "chr_loop mem block ch 0 = Some NULL"
| "chr_loop mem block ch (Suc n) = do {
     x \<leftarrow> idx_get mem block;
     if x = ch then Some block else chr_loop mem (block + 1) ch n }"

definition memchr :: "memory \<Rightarrow> addr \<Rightarrow> u8 \<Rightarrow> nat \<Rightarrow> addr option" where
  "memchr mem block ch n = do {
     assertO (block \<noteq> NULL \<or> n = 0);
     chr_loop mem block ch n }"

fun set_bytes :: "memory \<Rightarrow> addr \<Rightarrow> u8 \<Rightarrow> nat \<Rightarrow> memory option" where
  "set_bytes mem dst value 0 = Some mem"
| "set_bytes mem dst value (Suc n) = do {
     mem \<leftarrow> idx_set mem dst value;
     set_bytes mem (dst + 1) value n }"

definition memset :: "memory \<Rightarrow> addr \<Rightarrow> u8 \<Rightarrow> nat \<Rightarrow> (addr \<times> memory) option" where
  "memset mem dst value n = do {
     assertO (dst \<noteq> NULL \<or> n = 0);
     mem \<leftarrow> set_bytes mem dst value n;
     Some (dst, mem) }"

section \<open>Strings\<close>

function strcmp_loop :: "memory \<Rightarrow> addr \<Rightarrow> addr \<Rightarrow> (u8 \<times> u8) option" where
  "strcmp_loop mem a b =
     (if a < length mem \<and> b < length mem then
        if mem ! a \<noteq> 0 \<and> mem ! a = mem ! b then strcmp_loop mem (a + 1) (b + 1) else Some (mem ! a, mem ! b)
      else None)"
  by pat_completeness auto
termination by (relation "measure (\<lambda>(mem, a, b). length mem - a)") auto

definition strcmp :: "memory \<Rightarrow> addr \<Rightarrow> addr \<Rightarrow> int option" where
  "strcmp mem a b = do {
     assertO (a \<noteq> NULL);
     assertO (b \<noteq> NULL);
     (x, y) \<leftarrow> strcmp_loop mem a b;
     Some (if x < y then -1 else if y < x then 1 else 0) }"

function strchr_loop :: "memory \<Rightarrow> addr \<Rightarrow> u8 \<Rightarrow> addr option" where
  "strchr_loop mem string c =
     (if string < length mem then
        if mem ! string = c then Some string
        else if mem ! string = 0 then Some NULL
        else strchr_loop mem (string + 1) c
      else None)"
  by pat_completeness auto
termination by (relation "measure (\<lambda>(mem, s, c). length mem - s)") auto

definition strchr :: "memory \<Rightarrow> addr \<Rightarrow> u8 \<Rightarrow> addr option" where
  "strchr mem string c = do { assertO (string \<noteq> NULL); strchr_loop mem string c }"

text \<open>The loops of \<^verbatim>\<open>strcspn\<close> and \<^verbatim>\<open>strspn\<close> differ in the test that ends them.\<close>

function span_loop :: "memory \<Rightarrow> addr \<Rightarrow> addr \<Rightarrow> bool \<Rightarrow> nat \<Rightarrow> nat option" where
  "span_loop mem string stop found len =
     (if string + len < length mem then
        if mem ! (string + len) \<noteq> 0 then do {
          r \<leftarrow> strchr mem stop (mem ! (string + len));
          if (r \<noteq> NULL) = found then Some len else span_loop mem string stop found (len + 1) }
        else Some len
      else None)"
  by pat_completeness auto
termination by (relation "measure (\<lambda>(mem, s, p, f, n). length mem - (s + n))") auto

definition strcspn :: "memory \<Rightarrow> addr \<Rightarrow> addr \<Rightarrow> nat option" where
  "strcspn mem string stop = span_loop mem string stop True 0"

definition strspn :: "memory \<Rightarrow> addr \<Rightarrow> addr \<Rightarrow> nat option" where
  "strspn mem string skip = span_loop mem string skip False 0"

function strpbrk :: "memory \<Rightarrow> addr \<Rightarrow> addr \<Rightarrow> addr option" where
  "strpbrk mem string stop =
     (if string < length mem then
        if mem ! string \<noteq> 0 then do {
          r \<leftarrow> strchr mem stop (mem ! string);
          if r \<noteq> NULL then Some string else strpbrk mem (string + 1) stop }
        else Some NULL
      else None)"
  by pat_completeness auto
termination by (relation "measure (\<lambda>(mem, s, p). length mem - s)") auto

function strrchr_loop :: "memory \<Rightarrow> addr \<Rightarrow> u8 \<Rightarrow> addr \<Rightarrow> addr option" where
  "strrchr_loop mem string c p =
     (if string < length mem then
        if mem ! string \<noteq> 0 then strrchr_loop mem (string + 1) c (if mem ! string = c then string else p)
        else Some p
      else None)"
  by pat_completeness auto
termination by (relation "measure (\<lambda>(mem, s, c, p). length mem - s)") auto

definition strrchr :: "memory \<Rightarrow> addr \<Rightarrow> u8 \<Rightarrow> addr option" where
  "strrchr mem string c = strrchr_loop mem string c NULL"

function strlen_loop :: "memory \<Rightarrow> addr \<Rightarrow> addr option" where
  "strlen_loop mem p = (if p < length mem then if mem ! p \<noteq> 0 then strlen_loop mem (p + 1) else Some p else None)"
  by pat_completeness auto
termination by (relation "measure (\<lambda>(mem, p). length mem - p)") auto

definition strlen :: "memory \<Rightarrow> addr \<Rightarrow> nat option" where
  "strlen mem string = do { assertO (string \<noteq> NULL); p \<leftarrow> strlen_loop mem string; Some (p - string) }"

function strnlen_loop :: "memory \<Rightarrow> addr \<Rightarrow> nat \<Rightarrow> nat \<Rightarrow> nat option" where
  "strnlen_loop mem string maxlen len =
     (if string + len < length mem then
        if mem ! (string + len) \<noteq> 0 \<and> len < maxlen then strnlen_loop mem string maxlen (len + 1) else Some len
      else None)"
  by pat_completeness auto
termination by (relation "measure (\<lambda>(mem, s, m, n). length mem - (s + n))") auto

definition strnlen :: "memory \<Rightarrow> addr \<Rightarrow> nat \<Rightarrow> nat option" where
  "strnlen mem string maxlen = strnlen_loop mem string maxlen 0"

function strstr_loop :: "memory \<Rightarrow> addr \<Rightarrow> addr \<Rightarrow> nat \<Rightarrow> nat \<Rightarrow> nat \<Rightarrow> addr option" where
  "strstr_loop mem haystack needle needle_len i bound =
     (if i \<le> bound then do {
        c \<leftarrow> memcmp mem (haystack + i) needle needle_len;
        if c = 0 then Some (haystack + i) else strstr_loop mem haystack needle needle_len (i + 1) bound }
      else Some NULL)"
  by pat_completeness auto
termination by (relation "measure (\<lambda>(mem, h, n, l, i, b). b + 1 - i)") auto

definition strstr :: "memory \<Rightarrow> addr \<Rightarrow> addr \<Rightarrow> addr option" where
  "strstr mem haystack needle = do {
     haystack_len \<leftarrow> strlen mem haystack;
     needle_len \<leftarrow> strlen mem needle;
     if needle_len \<le> haystack_len then strstr_loop mem haystack needle needle_len 0 (haystack_len - needle_len)
     else Some NULL }"

text \<open>The two loops of \<^verbatim>\<open>strtok_r\<close>. The first ends at a character that is no delimiter or, with \<open>True\<close>, at
  the end of the string.\<close>

function tok_skip :: "memory \<Rightarrow> addr \<Rightarrow> addr \<Rightarrow> (addr \<times> bool) option" where
  "tok_skip mem delimiters s =
     (if s < length mem then do {
        r \<leftarrow> strchr mem delimiters (mem ! s);
        if r \<noteq> NULL then if mem ! s = 0 then Some (s, True) else tok_skip mem delimiters (s + 1)
        else Some (s, False) }
      else None)"
  by pat_completeness auto
termination by (relation "measure (\<lambda>(mem, d, s). length mem - s)") auto

function tok_end :: "memory \<Rightarrow> addr \<Rightarrow> addr \<Rightarrow> addr option" where
  "tok_end mem delimiters s =
     (if s < length mem then do {
        r \<leftarrow> strchr mem delimiters (mem ! s);
        if r = NULL then tok_end mem delimiters (s + 1) else Some s }
      else None)"
  by pat_completeness auto
termination by (relation "measure (\<lambda>(mem, d, s). length mem - s)") auto

definition strtok_r :: "memory \<Rightarrow> addr \<Rightarrow> addr \<Rightarrow> addr \<Rightarrow> (addr \<times> addr \<times> memory) option" where
  "strtok_r mem s delimiters save_ptr = do {
     assertO (delimiters \<noteq> NULL);
     let s = (if s = NULL then save_ptr else s);
     assertO (s \<noteq> NULL);
     (s, finished) \<leftarrow> tok_skip mem delimiters s;
     if finished then Some (NULL, s, mem)
     else do {
       let token = s;
       s \<leftarrow> tok_end mem delimiters s;
       c \<leftarrow> idx_get mem s;
       if c \<noteq> 0 then do { mem \<leftarrow> idx_set mem s 0; Some (token, s + 1, mem) }
       else Some (token, s, mem) } }"

definition strlcpy :: "memory \<Rightarrow> addr \<Rightarrow> addr \<Rightarrow> nat \<Rightarrow> (nat \<times> memory) option" where
  "strlcpy mem dst src n = do {
     assertO (dst \<noteq> NULL);
     assertO (src \<noteq> NULL);
     src_len \<leftarrow> strlen mem src;
     if 0 < n then do {
       let dst_len = (if src_len < n - 1 then src_len else n - 1);
       (_, mem) \<leftarrow> memcpy mem dst src dst_len;
       mem \<leftarrow> idx_set mem (dst + dst_len) 0;
       Some (src_len, mem) }
     else Some (src_len, mem) }"

definition strlcat :: "memory \<Rightarrow> addr \<Rightarrow> addr \<Rightarrow> nat \<Rightarrow> (nat \<times> memory) option" where
  "strlcat mem dst src n = do {
     assertO (dst \<noteq> NULL);
     assertO (src \<noteq> NULL);
     src_len \<leftarrow> strlen mem src;
     dst_len \<leftarrow> strlen mem dst;
     if 0 < n \<and> dst_len < n then do {
       let copy_cnt = (if src_len < n - dst_len - 1 then src_len else n - dst_len - 1);
       (_, mem) \<leftarrow> memcpy mem (dst + dst_len) src copy_cnt;
       mem \<leftarrow> idx_set mem (dst + dst_len + copy_cnt) 0;
       Some (src_len + dst_len, mem) }
     else Some (src_len + dst_len, mem) }"

declare strcmp_loop.simps [simp del] strchr_loop.simps [simp del] span_loop.simps [simp del] strpbrk.simps [simp del]
  strrchr_loop.simps [simp del] strlen_loop.simps [simp del] strnlen_loop.simps [simp del] strstr_loop.simps [simp del]
  tok_skip.simps [simp del] tok_end.simps [simp del]

section \<open>Copying blocks\<close>

lemma splice_cons:
  assumes "a < length mem" "Suc a + length xs \<le> length mem"
  shows "splice_bytes (mem[a := x]) (Suc a) xs = splice_bytes mem a (x # xs)"
  using assms by (simp add: splice_bytes_def take_Suc_conv_app_nth)

lemma splice_snoc:
  assumes "a + length xs < length mem"
  shows "splice_bytes (mem[a + length xs := x]) a xs = splice_bytes mem a (xs @ [x])"
  using assms by (intro nth_equalityI) (auto simp: splice_nth nth_list_update nth_append)

lemma segment_update: "a + n \<le> i \<or> i < a \<Longrightarrow> take n (drop a (mem[i := x])) = take n (drop a mem)"
  by (auto simp: drop_update_swap take_update_swap list_update_beyond)

lemma copy_up_ok:
  assumes "dst \<le> src \<or> src + n \<le> dst" "src + n \<le> length mem" "dst + n \<le> length mem"
  shows "copy_up mem dst src n = Some (splice_bytes mem dst (take n (drop src mem)))"
  using assms
proof (induction n arbitrary: mem dst src)
  case (Suc n)
  let ?m = "mem[dst := mem ! src]"
  have "take n (drop (Suc src) ?m) = take n (drop (Suc src) mem)" using Suc.prems(1) by (intro segment_update) auto
  moreover have "take (Suc n) (drop src mem) = mem ! src # take n (drop (Suc src) mem)"
    using Suc.prems(2) by (metis Cons_nth_drop_Suc Suc_le_lessD add_Suc_right le_add1 order_le_less_trans take_Suc_Cons)
  ultimately show ?case
    using Suc.IH [of "Suc dst" "Suc src" ?m] Suc.prems splice_cons [of dst mem "take n (drop (Suc src) mem)" "mem ! src"] by auto
qed simp

lemma copy_down_ok:
  assumes "src \<le> dst" "src + n \<le> length mem" "dst + n \<le> length mem"
  shows "copy_down mem (dst + n) (src + n) n = Some (splice_bytes mem dst (take n (drop src mem)))"
  using assms
proof (induction n arbitrary: mem)
  case (Suc n)
  let ?m = "mem[dst + n := mem ! (src + n)]"
  have "take n (drop src ?m) = take n (drop src mem)" using Suc.prems(1) by (intro segment_update) auto
  moreover have "take (Suc n) (drop src mem) = take n (drop src mem) @ [mem ! (src + n)]"
    using Suc.prems(2) by (simp add: take_Suc_conv_app_nth)
  moreover have "length (take n (drop src mem)) = n" using Suc.prems(2) by simp
  ultimately show ?case
    using Suc.IH [of ?m] Suc.prems splice_snoc [of dst "take n (drop src mem)" mem "mem ! (src + n)"] by simp
qed simp

section \<open>Strings in memory\<close>

definition cstr :: "memory \<Rightarrow> addr \<Rightarrow> u8 list" where
  "cstr mem p = takeWhile (\<lambda>c. c \<noteq> 0) (drop p mem)"

definition str_at :: "memory \<Rightarrow> addr \<Rightarrow> bool" where
  "str_at mem p \<longleftrightarrow> p \<noteq> NULL \<and> p + length (cstr mem p) < length mem"

lemma str_at_less: "str_at mem p \<Longrightarrow> p < length mem"
  by (simp add: str_at_def)

lemma cstr_step: "p < length mem \<Longrightarrow> cstr mem p = (if mem ! p = 0 then [] else mem ! p # cstr mem (p + 1))"
  by (simp add: cstr_def Cons_nth_drop_Suc [symmetric])

lemma str_at_step: "str_at mem p \<Longrightarrow> mem ! p \<noteq> 0 \<Longrightarrow> str_at mem (p + 1)"
  using cstr_step [of p mem] by (simp add: str_at_def)

text \<open>Induction along a string.\<close>

lemma str_at_induct [consumes 1, case_names stop step]:
  assumes "str_at mem p" "\<And>p. str_at mem p \<Longrightarrow> mem ! p = 0 \<Longrightarrow> P p"
    "\<And>p. str_at mem p \<Longrightarrow> mem ! p \<noteq> 0 \<Longrightarrow> str_at mem (p + 1) \<Longrightarrow> P (p + 1) \<Longrightarrow> P p"
  shows "P p"
  using assms(1)
proof (induction "length mem - p" arbitrary: p rule: less_induct)
  case less
  show ?case
  proof (cases "mem ! p = 0")
    case False
    note s = str_at_step [OF less.prems False]
    have "length mem - (p + 1) < length mem - p" using str_at_less [OF less.prems] by simp
    from assms(3) [OF less.prems False s less.hyps [OF this s]] show ?thesis .
  qed (rule assms(2) [OF less.prems])
qed

lemma cstr_stop [simp]: "str_at mem p \<Longrightarrow> mem ! p = 0 \<Longrightarrow> cstr mem p = []"
  and cstr_more: "str_at mem p \<Longrightarrow> mem ! p \<noteq> 0 \<Longrightarrow> cstr mem p = mem ! p # cstr mem (p + 1)"
  using cstr_step str_at_less by simp_all

lemma cstr_nonzero: "c \<in> set (cstr mem p) \<Longrightarrow> c \<noteq> 0"
  unfolding cstr_def by (auto dest: set_takeWhileD)

lemma strlen_loop_ok: "str_at mem p \<Longrightarrow> strlen_loop mem p = Some (p + length (cstr mem p))"
  by (induction rule: str_at_induct) (simp_all add: strlen_loop.simps [of mem] str_at_less cstr_more)

lemma strlen_ok: "str_at mem p \<Longrightarrow> strlen mem p = Some (length (cstr mem p))"
  using strlen_loop_ok [of mem p] by (simp add: strlen_def str_at_def)

lemma strchr_ok:
  assumes "str_at mem p"
  shows "\<exists>q. strchr mem p c = Some q \<and> (q = NULL \<longleftrightarrow> c \<notin> insert 0 (set (cstr mem p)))"
proof -
  have "\<exists>q. strchr_loop mem p c = Some q \<and> (q = NULL \<longleftrightarrow> c \<notin> insert 0 (set (cstr mem p)))"
    using assms
  proof (induction rule: str_at_induct)
    case (stop p)
    then show ?case by (simp add: strchr_loop.simps [of mem p] str_at_less) (simp add: str_at_def)
  next
    case (step p)
    then show ?case by (cases "mem ! p = c") (simp_all add: strchr_loop.simps [of mem p] str_at_less cstr_more, simp add: str_at_def)
  qed
  then show ?thesis using assms by (simp add: strchr_def str_at_def)
qed

section \<open>Tokens\<close>

text \<open>The maximal pieces of a string without delimiters.\<close>

function split_tokens :: "u8 set \<Rightarrow> u8 list \<Rightarrow> u8 list list" where
  "split_tokens D w = (
     let u = dropWhile (\<lambda>c. c \<in> D) w; t = takeWhile (\<lambda>c. c \<notin> D) u in
     if u = [] then [] else t # split_tokens D (drop (length t + 1) u))"
  by pat_completeness auto
termination
proof (relation "measure (\<lambda>(D, w). length w)", goal_cases)
  case (2 D w u t)
  then have "length u - (length t + 1) < length u" "length u \<le> length w" using length_dropWhile_le by auto
  then show ?case by simp
qed simp

declare split_tokens.simps [simp del]

lemma tok_skip_ok:
  assumes "str_at mem s" "str_at mem d" "D = set (cstr mem d)"
  shows "tok_skip mem d s = Some (s + length (takeWhile (\<lambda>c. c \<in> D) (cstr mem s)), dropWhile (\<lambda>c. c \<in> D) (cstr mem s) = [])"
  using assms(1)
proof (induction rule: str_at_induct)
  case (stop s)
  then show ?case using strchr_ok [OF assms(2), of 0] by (auto simp: tok_skip.simps [of mem] str_at_less)
next
  case (step s)
  obtain q where q: "strchr mem d (mem ! s) = Some q" "q = NULL \<longleftrightarrow> mem ! s \<notin> insert 0 D"
    using strchr_ok [OF assms(2)] assms(3) by blast
  then show ?case using step by (cases "mem ! s \<in> D") (simp_all add: tok_skip.simps [of mem s] tok_skip.simps [of mem d s] str_at_less cstr_more)
qed

lemma tok_end_ok:
  assumes "str_at mem s" "str_at mem d" "D = set (cstr mem d)"
  shows "tok_end mem d s = Some (s + length (takeWhile (\<lambda>c. c \<notin> D) (cstr mem s)))"
  using assms(1)
proof (induction rule: str_at_induct)
  case (stop s)
  then show ?case using strchr_ok [OF assms(2), of 0] by (auto simp: tok_end.simps [of mem] str_at_less)
next
  case (step s)
  obtain q where q: "strchr mem d (mem ! s) = Some q" "q = NULL \<longleftrightarrow> mem ! s \<notin> insert 0 D"
    using strchr_ok [OF assms(2)] assms(3) by blast
  then show ?case using step by (cases "mem ! s \<in> D") (simp_all add: tok_end.simps [of mem d s] str_at_less cstr_more)
qed

text \<open>A pointer into a string, and a string that is cut.\<close>

lemma cstr_advance:
  assumes "str_at mem p" "k \<le> length (cstr mem p)"
  shows "str_at mem (p + k)" "cstr mem (p + k) = drop k (cstr mem p)"
proof -
  have "str_at mem (p + k) \<and> cstr mem (p + k) = drop k (cstr mem p)" using assms(2)
  proof (induction k)
    case (Suc k)
    then have IH: "str_at mem (p + k)" "cstr mem (p + k) = drop k (cstr mem p)" by simp_all
    have "mem ! (p + k) \<noteq> 0" using IH(2) Suc.prems cstr_stop [OF IH(1)] by auto
    from str_at_step [OF IH(1) this] cstr_more [OF IH(1) this] IH(2) show ?case by (simp add: drop_Suc drop_tl)
  qed (use assms(1) in simp)
  then show "str_at mem (p + k)" "cstr mem (p + k) = drop k (cstr mem p)" by simp_all
qed

lemma cstr_bytes: "cstr mem p = take (length (cstr mem p)) (drop p mem)" "str_at mem p \<Longrightarrow> mem ! (p + length (cstr mem p)) = 0"
proof -
  show "cstr mem p = take (length (cstr mem p)) (drop p mem)" unfolding cstr_def by (rule takeWhile_eq_take)
  show "str_at mem p \<Longrightarrow> mem ! (p + length (cstr mem p)) = 0"
    by (induction rule: str_at_induct) (simp_all add: cstr_more)
qed

lemma cstrI:
  assumes "take (length w) (drop p mem) = w" "0 \<notin> set w" "p + length w < length mem" "mem ! (p + length w) = 0" "p \<noteq> NULL"
  shows "cstr mem p = w" "str_at mem p"
proof -
  have "drop p mem = w @ 0 # drop (p + length w + 1) mem"
    using assms(1,3,4) by (metis Cons_nth_drop_Suc Suc_eq_plus1 add.commute append_take_drop_id drop_drop)
  then show *: "cstr mem p = w" using assms(2) by (simp add: cstr_def takeWhile_append)
  show "str_at mem p" using assms(3,5) by (simp add: str_at_def *)
qed

lemma cstr_drop: "drop p mem' = drop p mem \<Longrightarrow> length mem' = length mem \<Longrightarrow> cstr mem' p = cstr mem p \<and> str_at mem' p = str_at mem p"
  by (simp add: cstr_def str_at_def)

lemma cstr_frame:
  assumes "str_at mem p" "i < p \<or> p + length (cstr mem p) < i"
  shows "cstr (mem[i := x]) p = cstr mem p" "str_at (mem[i := x]) p"
proof -
  have "take (length (cstr mem p)) (drop p (mem[i := x])) = take (length (cstr mem p)) (drop p mem)"
    using assms(2) by (intro segment_update) auto
  then have "take (length (cstr mem p)) (drop p (mem[i := x])) = cstr mem p" by (simp only: cstr_bytes(1) [symmetric])
  moreover have "0 \<notin> set (cstr mem p)" using cstr_nonzero by blast
  moreover have "mem[i := x] ! (p + length (cstr mem p)) = 0"
  proof -
    have "i \<noteq> p + length (cstr mem p)" using assms(2) by linarith
    from nth_list_update_neq [OF this] show ?thesis using cstr_bytes(2) [OF assms(1)] by (rule trans)
  qed
  ultimately show "cstr (mem[i := x]) p = cstr mem p" "str_at (mem[i := x]) p"
    using cstrI [of "cstr mem p" p "mem[i := x]"] assms(1) unfolding str_at_def by simp_all
qed

lemma cstr_nth: "str_at mem p \<Longrightarrow> k < length (cstr mem p) \<Longrightarrow> mem ! (p + k) = cstr mem p ! k"
  using cstr_bytes(1) [of mem p] by (metis add_leD1 length_drop length_take min.strict_boundedE nth_drop nth_take less_diff_conv less_or_eq_imp_le add.commute str_at_def)

lemma cut_token:
  assumes a: "str_at mem a" "cstr mem a = u" and k: "k < length u" and m: "m = mem[a + k := 0]"
  shows "cstr m a = take k u" "str_at m a" "cstr m (a + k + 1) = drop (k + 1) u" "str_at m (a + k + 1)" "mem ! (a + k) \<noteq> 0"
proof -
  have l: "a \<noteq> NULL" "a + length u < length mem" using a by (auto simp: str_at_def)
  have "take k (drop a m) = take k (drop a mem)" unfolding m by (rule segment_update) simp
  also have "\<dots> = take k (take (length u) (drop a mem))" using k by simp
  also have "\<dots> = take k u" using cstr_bytes(1) [of mem a] a(2) by simp
  finally have "take (length (take k u)) (drop a m) = take k u" using k by simp
  moreover have "0 \<notin> set (take k u)" using cstr_nonzero [of 0 mem a] a(2) by (metis in_set_takeD)
  ultimately show "cstr m a = take k u" "str_at m a" using cstrI [of "take k u" a m] l k by (simp_all add: m)
  have "drop (a + k + 1) m = drop (a + k + 1) mem" by (simp add: m)
  from cstr_drop [OF this] cstr_advance [OF a(1), of "k + 1"] k a(2)
  show "cstr m (a + k + 1) = drop (k + 1) u" "str_at m (a + k + 1)" by (simp_all add: m add.assoc)
  show "mem ! (a + k) \<noteq> 0" using cstr_nth [OF a(1), of k] cstr_nonzero [of "u ! k" mem a] a(2) k by simp
qed

text \<open>What the next call of \<^verbatim>\<open>strtok_r\<close> finds: the saved position, the delimiters and their distance.\<close>

definition tok_state :: "memory \<Rightarrow> addr \<Rightarrow> addr \<Rightarrow> bool" where
  "tok_state mem s d \<longleftrightarrow> str_at mem s \<and> str_at mem d \<and> (d + length (cstr mem d) < s \<or> s + length (cstr mem s) < d)"

lemma strtok_r_end:
  assumes "tok_state mem s d" "split_tokens (set (cstr mem d)) (cstr mem s) = []" "(if p = NULL then save else p) = s"
  shows "\<exists>e. strtok_r mem p d save = Some (NULL, e, mem)"
proof -
  have s: "str_at mem s" "str_at mem d" "s \<noteq> NULL" "d \<noteq> NULL" using assms(1) by (auto simp: tok_state_def str_at_def)
  have "dropWhile (\<lambda>c. c \<in> set (cstr mem d)) (cstr mem s) = []"
    using assms(2) by (subst (asm) split_tokens.simps) (auto simp: Let_def split: if_splits)
  then show ?thesis unfolding strtok_r_def assms(3) Let_def using tok_skip_ok [OF s(1,2) refl] s(3,4) by simp
qed

lemma strtok_r_token:
  assumes ts: "tok_state mem s d" "split_tokens (set (cstr mem d)) (cstr mem s) = t # ts" "(if p = NULL then save else p) = s"
  shows "\<exists>a e mem'. strtok_r mem p d save = Some (a, e, mem') \<and> a \<noteq> NULL \<and> str_at mem' a \<and> cstr mem' a = t \<and>
    tok_state mem' e d \<and> cstr mem' d = cstr mem d \<and> split_tokens (set (cstr mem' d)) (cstr mem' e) = ts \<and>
    s \<le> a \<and> a + length t \<le> e \<and> e \<le> s + length (cstr mem s) \<and> e + length (cstr mem' e) = s + length (cstr mem s) \<and>
    length mem' = length mem \<and> (\<forall>i. i < s \<or> s + length (cstr mem s) \<le> i \<longrightarrow> mem' ! i = mem ! i)"
proof -
  let ?D = "set (cstr mem d)" and ?w = "cstr mem s"
  define u where "u = dropWhile (\<lambda>c. c \<in> ?D) ?w"
  define a where "a = s + length (takeWhile (\<lambda>c. c \<in> ?D) ?w)"
  have s: "str_at mem s" "str_at mem d" "s \<noteq> NULL" "d \<noteq> NULL" and ap: "d + length (cstr mem d) < s \<or> s + length ?w < d"
    using ts(1) by (auto simp: tok_state_def str_at_def)
  have u: "u \<noteq> []" "t = takeWhile (\<lambda>c. c \<notin> ?D) u" "ts = split_tokens ?D (drop (length t + 1) u)"
    using ts(2) by (subst (asm) split_tokens.simps, auto simp: Let_def u_def split: if_splits)+
  have wu: "?w = takeWhile (\<lambda>c. c \<in> ?D) ?w @ u" by (simp add: u_def)
  have aw: "a + length u = s + length ?w" using arg_cong [OF wu, of length] unfolding a_def length_append by linarith
  have "length (takeWhile (\<lambda>c. c \<in> ?D) ?w) \<le> length ?w" by (rule length_takeWhile_le)
  note ca = cstr_advance [OF s(1) this, folded a_def]
  have cu: "cstr mem a = u" using ca(2) by (simp add: u_def dropWhile_eq_drop)
  have tu: "length t \<le> length u" "t = take (length t) u" unfolding u(2) by (simp_all add: length_takeWhile_le takeWhile_eq_take [symmetric])
  have te: "tok_end mem d a = Some (a + length t)" using tok_end_ok [OF ca(1) s(2) refl] by (simp add: cu u(2))
  have sk: "tok_skip mem d s = Some (a, False)" using tok_skip_ok [OF s(1,2) refl] u(1) by (simp add: a_def u_def)
  have a0: "a \<noteq> NULL" "a + length u < length mem" "s \<le> a" using s(3) ca(1) unfolding str_at_def cu by (simp_all add: a_def)
  have run: "strtok_r mem p d save = (if mem ! (a + length t) \<noteq> 0 then Some (a, a + length t + 1, mem[a + length t := 0]) else Some (a, a + length t, mem))"
    unfolding strtok_r_def assms(3) Let_def using sk te s(3,4) a0 tu(1) by simp
  show ?thesis
  proof (cases "length t < length u")
    case True
    let ?e = "a + length t" and ?m = "mem[a + length t := 0]"
    note c = cut_token [OF ca(1) cu True refl]
    have "?e < d \<or> d + length (cstr mem d) < ?e" using ap a0(3) aw True by linarith
    note cd = cstr_frame [OF s(2) this, of 0]
    have "cstr ?m a = t" using c(1) tu(2) by simp
    moreover have "tok_state ?m (?e + 1) d" using c(3,4) cd ap aw a0(3) True by (auto simp: tok_state_def)
    ultimately show ?thesis using run c cd u(3) a0 aw True
      by (intro exI [of _ a] exI [of _ "?e + 1"] exI [of _ ?m]) (auto simp: nth_list_update)
  next
    case False
    then have lt: "length t = length u" "t = u" using tu by simp_all
    have "mem ! (a + length t) = 0" using cstr_bytes(2) [OF ca(1)] cu lt by simp
    moreover have "cstr mem (a + length t) = []" "str_at mem (a + length t)" using cstr_advance [OF ca(1), of "length t"] cu lt by simp_all
    moreover from this have "tok_state mem (a + length t) d" using s(2) ap a0(3) aw lt by (auto simp: tok_state_def)
    ultimately show ?thesis using run ca(1) cu u(3) lt a0 aw by (intro exI [of _ a] exI [of _ "a + length t"] exI [of _ mem]) simp
  qed
qed

section \<open>Properties\<close>

text \<open>C39: \<^verbatim>\<open>memmove\<close> of blocks that lie in memory, overlapping or not, puts the bytes that the source block
  held before the call into the destination block and changes nothing else; \<^verbatim>\<open>memcpy\<close> does the same
  when the blocks do not overlap or the destination lies below the source. \<^verbatim>\<open>memcpy\<close> returns the
  destination, but \<^verbatim>\<open>memmove\<close> returns the end of the destination when it copies upwards.\<close>

theorem memmove_copies:
  assumes "dst \<noteq> NULL" and "src \<noteq> NULL" and "src + n \<le> length mem" and "dst + n \<le> length mem"
  shows "memmove mem dst src n = Some (if dst < src then dst + n else dst, splice_bytes mem dst (take n (drop src mem))) \<and>
    (dst \<le> src \<or> src + n \<le> dst \<longrightarrow> memcpy mem dst src n = Some (dst, splice_bytes mem dst (take n (drop src mem))))"
  using copy_up_ok [of dst src n mem] copy_down_ok [of src dst n mem] assms by (auto simp: memmove_def memcpy_def)

theorem memmove_copies_witness:
  "memmove [0, 1, 2, 3, 4, 5] 2 1 3 = Some (if (2 :: nat) < 1 then 2 + 3 else 2, splice_bytes [0, 1, 2, 3, 4, 5] 2 (take 3 (drop 1 [0, 1, 2, 3, 4, 5]))) \<and>
    memmove [0, 1, 2, 3, 4, 5] 1 2 3 = Some (if (1 :: nat) < 2 then 1 + 3 else 1, splice_bytes [0, 1, 2, 3, 4, 5] 1 (take 3 (drop 2 [0, 1, 2, 3, 4, 5])))"
  using memmove_copies [of 2 1 3 "[0, 1, 2, 3, 4, 5]"] memmove_copies [of 1 2 3 "[0, 1, 2, 3, 4, 5]"] by simp

text \<open>C40: \<^verbatim>\<open>strtok_r\<close> delivers the tokens of a string. Called on a string or on its saved position, with the
  delimiters elsewhere in memory, it returns a null pointer if no token is left; otherwise a pointer to
  the first token, cut off by a null byte, and a saved position from which the remaining tokens follow.
  It changes no byte outside the string.\<close>

theorem strtok_r_tokens:
  assumes "tok_state mem s d" and "(if p = NULL then save else p) = s"
  shows "case split_tokens (set (cstr mem d)) (cstr mem s) of
      [] \<Rightarrow> \<exists>e. strtok_r mem p d save = Some (NULL, e, mem)
    | t # ts \<Rightarrow> \<exists>a e mem'. strtok_r mem p d save = Some (a, e, mem') \<and> a \<noteq> NULL \<and> cstr mem' a = t \<and>
        tok_state mem' e d \<and> cstr mem' d = cstr mem d \<and> split_tokens (set (cstr mem' d)) (cstr mem' e) = ts \<and>
        length mem' = length mem \<and> (\<forall>i. i < s \<or> s + length (cstr mem s) \<le> i \<longrightarrow> mem' ! i = mem ! i)"
proof (cases "split_tokens (set (cstr mem d)) (cstr mem s)")
  case Nil
  then show ?thesis using strtok_r_end [OF assms(1) Nil assms(2)] by simp
next
  case (Cons t ts)
  from strtok_r_token [OF assms(1) Cons assms(2)] show ?thesis unfolding Cons list.case by blast
qed

definition sample_text :: memory where
  "sample_text = [0, 32, 0, 32, 97, 98, 32, 32, 99, 0, 7]"

theorem strtok_r_tokens_witness:
  "case split_tokens (set (cstr sample_text 1)) (cstr sample_text 3) of
      [] \<Rightarrow> \<exists>e. strtok_r sample_text 3 1 NULL = Some (NULL, e, sample_text)
    | t # ts \<Rightarrow> \<exists>a e mem'. strtok_r sample_text 3 1 NULL = Some (a, e, mem') \<and> a \<noteq> NULL \<and> cstr mem' a = t \<and>
        tok_state mem' e 1 \<and> cstr mem' 1 = cstr sample_text 1 \<and> split_tokens (set (cstr mem' 1)) (cstr mem' e) = ts \<and>
        length mem' = length sample_text \<and> (\<forall>i. i < 3 \<or> 3 + length (cstr sample_text 3) \<le> i \<longrightarrow> mem' ! i = sample_text ! i)"
  by (rule strtok_r_tokens) (simp_all add: tok_state_def str_at_def cstr_def sample_text_def)

end
