(* ===== verification/Stdlib.thy ===== *)
theory Stdlib
  imports Cstring Bytes "HOL-Library.Multiset"
begin

text \<open>
  lib/ctype.h and lib/stdlib.c: character classes, \<^verbatim>\<open>atoi\<close>, heap sort and binary search. An array that is
  sorted or searched is a list of bytes that holds elements of a given size, as in the code; the
  comparison function is a parameter that sees the bytes of two elements.
\<close>

section \<open>Characters\<close>

definition islower :: "int \<Rightarrow> bool" where
  "islower c \<longleftrightarrow> 97 \<le> c \<and> c \<le> 122"

definition isupper :: "int \<Rightarrow> bool" where
  "isupper c \<longleftrightarrow> 65 \<le> c \<and> c \<le> 90"

definition isalpha :: "int \<Rightarrow> bool" where
  "isalpha c \<longleftrightarrow> islower c \<or> isupper c"

definition isdigit :: "int \<Rightarrow> bool" where
  "isdigit c \<longleftrightarrow> 48 \<le> c \<and> c \<le> 57"

definition isalnum :: "int \<Rightarrow> bool" where
  "isalnum c \<longleftrightarrow> isalpha c \<or> isdigit c"

definition isxdigit :: "int \<Rightarrow> bool" where
  "isxdigit c \<longleftrightarrow> isdigit c \<or> 97 \<le> c \<and> c \<le> 102 \<or> 65 \<le> c \<and> c \<le> 70"

definition isspace :: "int \<Rightarrow> bool" where
  "isspace c \<longleftrightarrow> c = 32 \<or> c = 12 \<or> c = 10 \<or> c = 13 \<or> c = 9 \<or> c = 11"

definition isblank :: "int \<Rightarrow> bool" where
  "isblank c \<longleftrightarrow> c = 32 \<or> c = 9"

definition isgraph :: "int \<Rightarrow> bool" where
  "isgraph c \<longleftrightarrow> 32 < c \<and> c < 127"

definition isprint :: "int \<Rightarrow> bool" where
  "isprint c \<longleftrightarrow> 32 \<le> c \<and> c < 127"

definition iscntrl :: "int \<Rightarrow> bool" where
  "iscntrl c \<longleftrightarrow> 0 \<le> c \<and> c < 32 \<or> c = 127"

definition isascii :: "int \<Rightarrow> bool" where
  "isascii c \<longleftrightarrow> 0 \<le> c \<and> c < 128"

definition ispunct :: "int \<Rightarrow> bool" where
  "ispunct c \<longleftrightarrow> isprint c \<and> \<not> isalnum c \<and> \<not> isspace c"

definition tolower :: "int \<Rightarrow> int" where
  "tolower c = (if isupper c then c - 65 + 97 else c)"

definition toupper :: "int \<Rightarrow> int" where
  "toupper c = (if islower c then c - 97 + 65 else c)"

section \<open>Numbers\<close>

text \<open>A \<^verbatim>\<open>char\<close> is signed; the code casts to \<^verbatim>\<open>unsigned char\<close> for \<^verbatim>\<open>isspace\<close> only.\<close>

definition schar :: "u8 \<Rightarrow> int" where
  "schar c = sint c"

function skip_space :: "memory \<Rightarrow> addr \<Rightarrow> addr option" where
  "skip_space mem s = (if s < length mem then if isspace (uint (mem ! s)) then skip_space mem (s + 1) else Some s else None)"
  by pat_completeness auto
termination by (relation "measure (\<lambda>(mem, s). length mem - s)") auto

function digits_loop :: "memory \<Rightarrow> addr \<Rightarrow> int \<Rightarrow> int option" where
  "digits_loop mem s value =
     (if s < length mem then
        if isdigit (schar (mem ! s)) then digits_loop mem (s + 1) (s32 (s32 (value * 10) - (schar (mem ! s) - 48))) else Some value
      else None)"
  by pat_completeness auto
termination by (relation "measure (\<lambda>(mem, s, v). length mem - s)") auto

definition atoi :: "memory \<Rightarrow> addr \<Rightarrow> int option" where
  "atoi mem s = do {
     assertO (s \<noteq> NULL);
     s \<leftarrow> skip_space mem s;
     c \<leftarrow> idx_get mem s;
     let negative = (c = 45);
     let s = (if c = 43 \<or> c = 45 then s + 1 else s);
     value \<leftarrow> digits_loop mem s 0;
     Some (if \<not> negative then s32 (- value) else value) }"

section \<open>Sorting\<close>

type_synonym 'x comparison = "u8 list \<Rightarrow> u8 list \<Rightarrow> 'x \<Rightarrow> int"

definition compare_thunk :: "(u8 list \<Rightarrow> u8 list \<Rightarrow> int) comparison" where
  "compare_thunk a b aux = aux a b"

function swap_loop :: "u8 list \<Rightarrow> nat \<Rightarrow> nat \<Rightarrow> nat \<Rightarrow> nat \<Rightarrow> u8 list option" where
  "swap_loop array a b i esize =
     (if i < esize then do {
        t \<leftarrow> idx_get array (a + i);
        x \<leftarrow> idx_get array (b + i);
        array \<leftarrow> idx_set array (a + i) x;
        array \<leftarrow> idx_set array (b + i) t;
        swap_loop array a b (i + 1) esize }
      else Some array)"
  by pat_completeness auto
termination by (relation "measure (\<lambda>(arr, a, b, i, n). n - i)") auto

definition do_swap :: "u8 list \<Rightarrow> nat \<Rightarrow> nat \<Rightarrow> nat \<Rightarrow> u8 list option" where
  "do_swap array a_idx b_idx esize = do {
     assertO (0 < a_idx \<and> 0 < b_idx);
     swap_loop array ((a_idx - 1) * esize) ((b_idx - 1) * esize) 0 esize }"

definition elem_at :: "u8 list \<Rightarrow> nat \<Rightarrow> nat \<Rightarrow> u8 list option" where
  "elem_at array ofs esize = (if ofs + esize \<le> length array then Some (take esize (drop ofs array)) else None)"

definition do_compare :: "u8 list \<Rightarrow> nat \<Rightarrow> nat \<Rightarrow> nat \<Rightarrow> 'x comparison \<Rightarrow> 'x \<Rightarrow> int option" where
  "do_compare array a_idx b_idx esize compare aux = do {
     assertO (0 < a_idx \<and> 0 < b_idx);
     a \<leftarrow> elem_at array ((a_idx - 1) * esize) esize;
     b \<leftarrow> elem_at array ((b_idx - 1) * esize) esize;
     Some (compare a b aux) }"

partial_function (option) heapify :: "u8 list \<Rightarrow> nat \<Rightarrow> nat \<Rightarrow> nat \<Rightarrow> 'x comparison \<Rightarrow> 'x \<Rightarrow> u8 list option" where
  "heapify array i cnt esize compare aux = do {
     let left = sz (2 * i);
     let right = sz (2 * i + 1);
     max \<leftarrow> (if left \<le> cnt then do { c \<leftarrow> do_compare array left i esize compare aux; Some (if 0 < c then left else i) } else Some i);
     max \<leftarrow> (if right \<le> cnt then do { c \<leftarrow> do_compare array right max esize compare aux; Some (if 0 < c then right else max) } else Some max);
     if max = i then Some array
     else do {
       array \<leftarrow> do_swap array i max esize;
       heapify array max cnt esize compare aux } }"

fun build_heap :: "u8 list \<Rightarrow> nat \<Rightarrow> nat \<Rightarrow> nat \<Rightarrow> 'x comparison \<Rightarrow> 'x \<Rightarrow> u8 list option" where
  "build_heap array 0 cnt esize compare aux = Some array"
| "build_heap array (Suc i) cnt esize compare aux = do {
     array \<leftarrow> heapify array (Suc i) cnt esize compare aux;
     build_heap array i cnt esize compare aux }"

fun sort_heap :: "u8 list \<Rightarrow> nat \<Rightarrow> nat \<Rightarrow> 'x comparison \<Rightarrow> 'x \<Rightarrow> u8 list option" where
  "sort_heap array i esize compare aux =
     (if 1 < i then do {
        array \<leftarrow> do_swap array 1 i esize;
        array \<leftarrow> heapify array 1 (i - 1) esize compare aux;
        sort_heap array (i - 1) esize compare aux }
      else Some array)"

text \<open>A null array is empty.\<close>

definition sort_array :: "u8 list \<Rightarrow> nat \<Rightarrow> nat \<Rightarrow> 'x comparison \<Rightarrow> 'x \<Rightarrow> u8 list option" where
  "sort_array array cnt esize compare aux = do {
     assertO (0 < esize);
     array \<leftarrow> build_heap array (cnt div 2) cnt esize compare aux;
     sort_heap array cnt esize compare aux }"

definition qsort :: "u8 list \<Rightarrow> nat \<Rightarrow> nat \<Rightarrow> (u8 list \<Rightarrow> u8 list \<Rightarrow> int) \<Rightarrow> u8 list option" where
  "qsort array cnt esize compare = sort_array array cnt esize compare_thunk compare"

section \<open>Searching\<close>

text \<open>Pointers into the array are offsets; \<open>Some (Some p)\<close> is a pointer to an element and \<open>Some None\<close> a null
  pointer.\<close>

lemma half_range: "0 < x \<Longrightarrow> x div e div 2 * e < (x :: nat)"
proof -
  assume "0 < x"
  have "x div e div 2 * e * 2 \<le> x div e * e" by simp
  also have "\<dots> \<le> x" by simp
  finally show ?thesis using \<open>0 < x\<close> by linarith
qed

function search_loop :: "'k \<Rightarrow> u8 list \<Rightarrow> nat \<Rightarrow> nat \<Rightarrow> nat \<Rightarrow> ('k \<Rightarrow> u8 list \<Rightarrow> 'x \<Rightarrow> int) \<Rightarrow> 'x \<Rightarrow> nat option option" where
  "search_loop key array first lst esize compare aux =
     (if first < lst \<and> 0 < esize then do {
        let range = (lst - first) div esize;
        let middle = first + (range div 2) * esize;
        m \<leftarrow> elem_at array middle esize;
        let cmp = compare key m aux;
        if cmp < 0 then search_loop key array first middle esize compare aux
        else if 0 < cmp then search_loop key array (middle + esize) lst esize compare aux
        else Some (Some middle) }
      else if first < lst then None else Some None)"
  by pat_completeness auto
termination
  by (relation "measure (\<lambda>(key, arr, first, lst, n, c, a). lst - first)") (auto simp: half_range)

definition binary_search :: "'k \<Rightarrow> u8 list \<Rightarrow> nat \<Rightarrow> nat \<Rightarrow> ('k \<Rightarrow> u8 list \<Rightarrow> 'x \<Rightarrow> int) \<Rightarrow> 'x \<Rightarrow> nat option option" where
  "binary_search key array cnt esize compare aux = search_loop key array 0 (esize * cnt) esize compare aux"

definition bsearch :: "u8 list \<Rightarrow> u8 list \<Rightarrow> nat \<Rightarrow> nat \<Rightarrow> (u8 list \<Rightarrow> u8 list \<Rightarrow> int) \<Rightarrow> nat option option" where
  "bsearch key array cnt esize compare = binary_search key array cnt esize compare_thunk compare"

declare skip_space.simps [simp del] digits_loop.simps [simp del] swap_loop.simps [simp del] sort_heap.simps [simp del]
  search_loop.simps [simp del]

text \<open>The comparison of the self test, tests/internal/stdlib.c.\<close>

definition compare_ints :: "u8 list \<Rightarrow> u8 list \<Rightarrow> int" where
  "compare_ints a b = (let x = s32 (int (dec32 a)); y = s32 (int (dec32 b)) in if x < y then -1 else if y < x then 1 else 0)"

section \<open>Arrays of elements\<close>

definition elems :: "nat \<Rightarrow> u8 list \<Rightarrow> u8 list list" where
  "elems s arr = map (\<lambda>k. take s (drop (k * s) arr)) [0..<length arr div s]"

lemma elems_length [simp]: "0 < s \<Longrightarrow> length arr = n * s \<Longrightarrow> length (elems s arr) = n"
  by (simp add: elems_def)

lemma elem_bound: "k < n \<Longrightarrow> k * s + s \<le> n * (s :: nat)"
  by (metis Suc_leI add.commute mult_Suc mult_le_mono1)

lemma elems_nth: "0 < s \<Longrightarrow> length arr = n * s \<Longrightarrow> k < n \<Longrightarrow> elems s arr ! k = take s (drop (k * s) arr)"
  by (simp add: elems_def)

lemma elem_at_ok: "0 < s \<Longrightarrow> length arr = n * s \<Longrightarrow> k < n \<Longrightarrow> elem_at arr (k * s) s = Some (elems s arr ! k)"
  using elem_bound [of k n s] by (simp add: elem_at_def elems_nth)

lemma do_compare_ok:
  assumes "0 < s" "length arr = n * s" "0 < a" "a \<le> n" "0 < b" "b \<le> n"
  shows "do_compare arr a b s compare aux = Some (compare (elems s arr ! (a - 1)) (elems s arr ! (b - 1)) aux)"
  using elem_at_ok [OF assms(1,2), of "a - 1"] elem_at_ok [OF assms(1,2), of "b - 1"] assms by (simp add: do_compare_def)

lemma swap_loop_ok:
  assumes "a + s \<le> length arr" "b + s \<le> length arr" "a + s \<le> b \<or> b + s \<le> a \<or> a = b" "i \<le> s"
  shows "\<exists>arr'. swap_loop arr a b i s = Some arr' \<and> length arr' = length arr \<and>
    (\<forall>j<length arr. arr' ! j = (if a + i \<le> j \<and> j < a + s then arr ! (b + (j - a)) else if b + i \<le> j \<and> j < b + s then arr ! (a + (j - b)) else arr ! j))"
  using assms
proof (induction "s - i" arbitrary: arr i)
  case 0
  then show ?case by (auto simp: swap_loop.simps)
next
  case (Suc k)
  let ?arr = "arr[a + i := arr ! (b + i), b + i := arr ! (a + i)]"
  have "\<exists>arr'. swap_loop ?arr a b (i + 1) s = Some arr' \<and> length arr' = length ?arr \<and>
    (\<forall>j<length ?arr. arr' ! j = (if a + (i + 1) \<le> j \<and> j < a + s then ?arr ! (b + (j - a)) else if b + (i + 1) \<le> j \<and> j < b + s then ?arr ! (a + (j - b)) else ?arr ! j))"
    using Suc by (intro Suc.hyps(1)) auto
  then obtain arr' where arr': "swap_loop ?arr a b (i + 1) s = Some arr'" "length arr' = length arr"
    "\<And>j. j < length arr \<Longrightarrow> arr' ! j = (if a + (i + 1) \<le> j \<and> j < a + s then ?arr ! (b + (j - a)) else if b + (i + 1) \<le> j \<and> j < b + s then ?arr ! (a + (j - b)) else ?arr ! j)"
    by auto
  have i: "i < s" "a + i < length arr" "b + i < length arr" using Suc.hyps(2) Suc.prems(1,2) by linarith+
  have "swap_loop arr a b i s = Some arr'" using arr'(1) i by (subst swap_loop.simps) simp
  moreover have "arr' ! j = (if a + i \<le> j \<and> j < a + s then arr ! (b + (j - a)) else if b + i \<le> j \<and> j < b + s then arr ! (a + (j - b)) else arr ! j)"
    if "j < length arr" for j
  proof -
    have g: "?arr ! k = (if k = b + i then arr ! (a + i) else if k = a + i then arr ! (b + i) else arr ! k)" for k
      using i by (simp add: nth_list_update)
    note r = arr'(3) [OF that, unfolded g]
    consider "j = a + i" | "j = b + i" "a \<noteq> b" | "a + i < j" "j < a + s" | "b + i < j" "j < b + s" "\<not> (a + i < j \<and> j < a + s)"
      | "\<not> (a + i \<le> j \<and> j < a + s)" "\<not> (b + i \<le> j \<and> j < b + s)" by linarith
    then show ?thesis
    proof cases
      case 1
      have c: "(a + (i + 1) \<le> j \<and> j < a + s) = False" "(a + i \<le> j \<and> j < a + s) = True"
        "(b + (i + 1) \<le> j \<and> j < b + s) = False" using 1 Suc.prems(3) i(1) by (simp_all, linarith+)
      show ?thesis unfolding r c if_True if_False using 1 by simp
    next
      case 2
      have c: "(a + (i + 1) \<le> j \<and> j < a + s) = False" "(a + i \<le> j \<and> j < a + s) = False"
        "(b + (i + 1) \<le> j \<and> j < b + s) = False" "(b + i \<le> j \<and> j < b + s) = True" using 2 Suc.prems(3) i(1) by (simp_all, linarith+)
      show ?thesis unfolding r c if_True if_False using 2 by simp
    next
      case 3
      then have n: "b + (j - a) \<noteq> b + i" "b + (j - a) \<noteq> a + i" using Suc.prems(3) i(1) by linarith+
      have c: "(a + (i + 1) \<le> j \<and> j < a + s) = True" "(a + i \<le> j \<and> j < a + s) = True" using 3 by simp_all
      show ?thesis unfolding r c if_True using n by simp
    next
      case 4
      then have n: "a + (j - b) \<noteq> b + i" "a + (j - b) \<noteq> a + i" using Suc.prems(3) i(1) by linarith+
      have c: "(a + (i + 1) \<le> j \<and> j < a + s) = False" "(a + i \<le> j \<and> j < a + s) = False"
        "(b + (i + 1) \<le> j \<and> j < b + s) = True" "(b + i \<le> j \<and> j < b + s) = True" using 4 Suc.prems(3) i(1) by (simp_all, linarith+)
      show ?thesis unfolding r c if_True if_False using n by simp
    next
      case 5
      have c: "(a + (i + 1) \<le> j \<and> j < a + s) = False" "(b + (i + 1) \<le> j \<and> j < b + s) = False" "j \<noteq> a + i" "j \<noteq> b + i"
        using 5 i(1) by (simp_all, linarith+)
      show ?thesis unfolding r if_not_P [OF 5(1)] if_not_P [OF 5(2)] c(1,2) if_False using c(3,4) by simp
    qed
  qed
  ultimately show ?case using arr'(2) by blast
qed

lemma elems_eqI:
  assumes "0 < s" "length arr = n * s" "length es = n" "\<And>k. k < n \<Longrightarrow> length (es ! k) = s"
    "\<And>k j. k < n \<Longrightarrow> j < s \<Longrightarrow> arr ! (k * s + j) = es ! k ! j"
  shows "elems s arr = es"
proof (rule nth_equalityI)
  fix k assume "k < length (elems s arr)"
  then have k: "k < n" using assms by simp
  note b = elem_bound [OF k, of s]
  show "elems s arr ! k = es ! k" using assms k b by (intro nth_equalityI) (simp_all add: elems_nth)
qed (use assms in simp)

lemma elem_disjoint: "a < b \<Longrightarrow> a * s + s \<le> b * (s :: nat)"
  by (rule elem_bound)

lemma in_elem: "j < s \<Longrightarrow> c * s \<le> k * s + j \<and> k * s + j < c * s + s \<longleftrightarrow> k = (c :: nat)"
  using elem_disjoint [of k c s] elem_disjoint [of c k s] by (cases k c rule: linorder_cases) auto

lemma do_swap_ok:
  assumes s: "0 < s" "length arr = n * s" and a: "0 < a" "a \<le> n" "0 < b" "b \<le> n"
  shows "\<exists>arr'. do_swap arr a b s = Some arr' \<and> length arr' = n * s \<and>
    elems s arr' = (elems s arr)[a - 1 := elems s arr ! (b - 1), b - 1 := elems s arr ! (a - 1)]"
proof -
  let ?p = "(a - 1) * s" and ?q = "(b - 1) * s"
  have l: "a - 1 < n" "b - 1 < n" using a by simp_all
  have bd: "?p + s \<le> length arr" "?q + s \<le> length arr" using elem_bound [OF l(1), of s] elem_bound [OF l(2), of s] s by simp_all
  have "?p + s \<le> ?q \<or> ?q + s \<le> ?p \<or> ?p = ?q"
    by (cases "a - 1" "b - 1" rule: linorder_cases) (use elem_disjoint in \<open>simp_all add: elem_disjoint\<close>)
  from swap_loop_ok [OF bd this, of 0] obtain arr' where w: "swap_loop arr ?p ?q 0 s = Some arr'" "length arr' = length arr"
    "\<And>j. j < length arr \<Longrightarrow> arr' ! j = (if ?p \<le> j \<and> j < ?p + s then arr ! (?q + (j - ?p)) else if ?q \<le> j \<and> j < ?q + s then arr ! (?p + (j - ?q)) else arr ! j)"
    by auto
  have "elems s arr' = (elems s arr)[a - 1 := elems s arr ! (b - 1), b - 1 := elems s arr ! (a - 1)]"
  proof (rule elems_eqI [OF s(1)])
    show "length arr' = n * s" using w(2) s by simp
    fix k assume k: "k < n"
    show "length ((elems s arr)[a - 1 := elems s arr ! (b - 1), b - 1 := elems s arr ! (a - 1)] ! k) = s"
      using k l s bd elem_bound [OF k, of s] by (auto simp: nth_list_update elems_nth)
    fix j assume j: "j < s"
    have "k * s + j < length arr" using elem_bound [OF k, of s] j s by simp
    from w(3) [OF this] show "arr' ! (k * s + j) = (elems s arr)[a - 1 := elems s arr ! (b - 1), b - 1 := elems s arr ! (a - 1)] ! k ! j"
      unfolding in_elem [OF j] using k l j s bd elem_bound [OF k, of s] by (auto simp: nth_list_update elems_nth)
  qed (use s in simp)
  then show ?thesis using w(1,2) a s by (auto simp: do_swap_def)
qed

section \<open>Heaps\<close>

text \<open>What \<^verbatim>\<open>sort\<close> and \<^verbatim>\<open>binary_search\<close> expect of a comparison function.\<close>

locale comparator =
  fixes cmp :: "'a \<Rightarrow> 'a \<Rightarrow> int"
  assumes cmp_sym: "0 < cmp a b \<longleftrightarrow> cmp b a < 0"
    and cmp_trans: "cmp a b \<le> 0 \<Longrightarrow> cmp b c \<le> 0 \<Longrightarrow> cmp a c \<le> 0"
begin

abbreviation le :: "'a \<Rightarrow> 'a \<Rightarrow> bool" where
  "le a b \<equiv> cmp a b \<le> 0"

lemma le_refl: "le a a"
  using cmp_sym [of a a] by linarith

lemma le_total: "le a b \<or> le b a"
  using cmp_sym [of a b] by linarith

lemma not_le: "0 < cmp a b \<Longrightarrow> le b a"
  using cmp_sym [of a b] by linarith

text \<open>The parent \<open>j\<close> is no smaller than its children; a heap from \<open>lo\<close> on; and a heap but for the parent \<open>i\<close>.\<close>

definition parent_ok :: "'a list \<Rightarrow> nat \<Rightarrow> nat \<Rightarrow> bool" where
  "parent_ok es cnt j \<longleftrightarrow> (\<forall>c. (c = 2 * j \<or> c = 2 * j + 1) \<and> c \<le> cnt \<longrightarrow> le (es ! (c - 1)) (es ! (j - 1)))"

definition heap_from :: "'a list \<Rightarrow> nat \<Rightarrow> nat \<Rightarrow> bool" where
  "heap_from es cnt lo \<longleftrightarrow> (\<forall>j\<ge>lo. parent_ok es cnt j)"

definition sifting :: "'a list \<Rightarrow> nat \<Rightarrow> nat \<Rightarrow> nat \<Rightarrow> bool" where
  "sifting es cnt lo i \<longleftrightarrow> lo \<le> i \<and> (\<forall>j\<ge>lo. j \<noteq> i \<longrightarrow> parent_ok es cnt j) \<and>
     (\<forall>p\<ge>lo. (i = 2 * p \<or> i = 2 * p + 1) \<longrightarrow> (\<forall>c. (c = 2 * i \<or> c = 2 * i + 1) \<and> c \<le> cnt \<longrightarrow> le (es ! (c - 1)) (es ! (p - 1))))"

lemma sifting_stop: "sifting es cnt lo i \<Longrightarrow> parent_ok es cnt i \<Longrightarrow> heap_from es cnt lo"
  by (auto simp: sifting_def heap_from_def)

lemma heap_sifting: "heap_from es cnt (Suc i) \<Longrightarrow> 0 < i \<Longrightarrow> sifting es cnt i i"
  unfolding sifting_def heap_from_def by (auto simp: Suc_le_eq)

lemma sifting_swap:
  assumes si: "sifting es cnt lo i" and lo: "0 < lo" and cn: "cnt \<le> length es"
    and m: "m = 2 * i \<or> m = 2 * i + 1" "m \<le> cnt" "le (es ! (i - 1)) (es ! (m - 1))"
    and big: "\<And>c. c = 2 * i \<or> c = 2 * i + 1 \<Longrightarrow> c \<le> cnt \<Longrightarrow> le (es ! (c - 1)) (es ! (m - 1))"
    and es': "es' = es[i - 1 := es ! (m - 1), m - 1 := es ! (i - 1)]"
  shows "sifting es' cnt lo m"
proof -
  have i: "0 < i" "lo \<le> i" using si lo by (auto simp: sifting_def)
  have g: "es' ! (k - 1) = (if k = m then es ! (i - 1) else if k = i then es ! (m - 1) else es ! (k - 1))" if "0 < k" for k
    using that i(1) m(1,2) cn unfolding es' by (auto simp: nth_list_update)
  have ok: "parent_ok es cnt j" if "lo \<le> j" "j \<noteq> i" for j using si that by (simp add: sifting_def)
  have "parent_ok es' cnt j" if j: "lo \<le> j" "j \<noteq> m" for j
    unfolding parent_ok_def
  proof (intro allI impI, elim conjE)
    fix c assume c: "c = 2 * j \<or> c = 2 * j + 1" "c \<le> cnt"
    have c0: "0 < c" "0 < j" "c \<noteq> j" using c j lo by auto
    show "le (es' ! (c - 1)) (es' ! (j - 1))"
    proof (cases "j = i")
      case True
      then show ?thesis using g [OF c0(1)] g [OF c0(2)] j c c0 m big [of c] by auto
    next
      case False
      have cm: "c \<noteq> m" using c(1) m(1) False by auto
      show ?thesis
      proof (cases "c = i")
        case True
        have "le (es ! (m - 1)) (es ! (j - 1))" using si j(1) c(1) True m(1,2) unfolding sifting_def by blast
        then show ?thesis using g [OF c0(1)] g [OF c0(2)] True False j(2) cm by simp
      next
        case False
        then show ?thesis using ok [OF j(1) \<open>j \<noteq> i\<close>] c g [OF c0(1)] g [OF c0(2)] cm j(2) \<open>j \<noteq> i\<close> by (auto simp: parent_ok_def)
      qed
    qed
  qed
  moreover have "le (es' ! (c - 1)) (es' ! (p - 1))" if p: "lo \<le> p" "m = 2 * p \<or> m = 2 * p + 1" and c: "c = 2 * m \<or> c = 2 * m + 1" "c \<le> cnt" for p c
  proof -
    have "p = i" using p(2) m(1) by auto
    have c0: "0 < c" "c \<noteq> m" "c \<noteq> i" "m \<noteq> i" using c(1) m(1) i(1) by auto
    have "lo \<le> m" using m(1) i(2) by auto
    from ok [OF this c0(4)] c have "le (es ! (c - 1)) (es ! (m - 1))" by (auto simp: parent_ok_def)
    then show ?thesis using g [OF c0(1)] g [OF i(1)] \<open>p = i\<close> c0 by simp
  qed
  moreover have "lo \<le> m" using m(1) i(2) by auto
  ultimately show ?thesis unfolding sifting_def by blast
qed

text \<open>The root of a heap is a greatest element.\<close>

lemma heap_root:
  assumes "heap_from es cnt 1" "0 < k" "k \<le> cnt"
  shows "le (es ! (k - 1)) (es ! 0)"
  using assms(2,3)
proof (induction k rule: less_induct)
  case (less k)
  show ?case
  proof (cases "k = 1")
    case False
    let ?p = "k div 2"
    have p: "0 < ?p" "?p < k" "k = 2 * ?p \<or> k = 2 * ?p + 1" using less.prems(1) False by auto
    have "le (es ! (k - 1)) (es ! (?p - 1))" using assms(1) p less.prems unfolding heap_from_def parent_ok_def by auto
    moreover have "le (es ! (?p - 1)) (es ! 0)" using less.IH [OF p(2,1)] p(2) less.prems(2) by simp
    ultimately show ?thesis by (rule cmp_trans)
  qed (simp add: le_refl)
qed

end

locale elem_order =
  fixes compare :: "'x comparison" and aux :: 'x
  assumes order: "comparator (\<lambda>a b. compare a b aux)"

sublocale elem_order \<subseteq> comparator "\<lambda>a b. compare a b aux"
  by (rule order)

context elem_order
begin

text \<open>The greatest of an element and its children, as \<^verbatim>\<open>heapify\<close> finds it.\<close>

definition greatest :: "u8 list list \<Rightarrow> nat \<Rightarrow> nat \<Rightarrow> nat" where
  "greatest es cnt i = (
     let max = (if 2 * i \<le> cnt \<and> 0 < compare (es ! (2 * i - 1)) (es ! (i - 1)) aux then 2 * i else i) in
     if 2 * i + 1 \<le> cnt \<and> 0 < compare (es ! (2 * i + 1 - 1)) (es ! (max - 1)) aux then 2 * i + 1 else max)"

lemma greatest_child: "greatest es cnt i \<noteq> i \<Longrightarrow> (greatest es cnt i = 2 * i \<or> greatest es cnt i = 2 * i + 1) \<and> greatest es cnt i \<le> cnt"
  by (auto simp: greatest_def Let_def split: if_splits)

lemma greatest_le: "le (es ! (i - 1)) (es ! (greatest es cnt i - 1))"
  unfolding greatest_def Let_def using not_le cmp_trans le_refl by (auto split: if_splits intro: cmp_trans [OF not_le not_le])

lemma greatest_big: "c = 2 * i \<or> c = 2 * i + 1 \<Longrightarrow> c \<le> cnt \<Longrightarrow> le (es ! (c - 1)) (es ! (greatest es cnt i - 1))"
  unfolding greatest_def Let_def using le_refl by (auto split: if_splits simp: not_less intro: cmp_trans [OF _ not_le] not_le)

lemma heapify_step:
  assumes "0 < s" "length arr = n * s" "0 < i" "i \<le> cnt" "cnt \<le> n" "2 * cnt + 1 < 2 ^ 32" "m = greatest (elems s arr) cnt i"
  shows "heapify arr i cnt s compare aux =
    (if m = i then Some arr else do { arr \<leftarrow> do_swap arr i m s; heapify arr m cnt s compare aux })"
proof -
  have sz: "sz (2 * i) = 2 * i" "sz (2 * i + 1) = 2 * i + 1" using assms(4,6) by simp_all
  have c: "do_compare arr a b s compare aux = Some (compare (elems s arr ! (a - 1)) (elems s arr ! (b - 1)) aux)"
    if "0 < a" "a \<le> cnt" "0 < b" "b \<le> cnt" for a b
    by (rule do_compare_ok [OF assms(1,2)]) (use that assms(5) in simp_all)
  show ?thesis using assms(3,4) unfolding assms(7) greatest_def
    by (subst heapify.simps, simp only: sz Let_def) (auto simp: c)
qed

lemma heapify_ok:
  assumes "0 < s" "length arr = n * s" "0 < i" "i \<le> cnt" "cnt \<le> n" "2 * cnt + 1 < 2 ^ 32" "0 < lo" "sifting (elems s arr) cnt lo i"
  shows "\<exists>arr'. heapify arr i cnt s compare aux = Some arr' \<and> length arr' = n * s \<and> heap_from (elems s arr') cnt lo \<and>
    mset (elems s arr') = mset (elems s arr) \<and> drop cnt (elems s arr') = drop cnt (elems s arr)"
  using assms
proof (induction "cnt - i" arbitrary: arr i rule: less_induct)
  case less
  let ?es = "elems s arr" and ?m = "greatest (elems s arr) cnt i"
  note st = heapify_step [OF less.prems(1-6) refl]
  have l: "length ?es = n" using less.prems(1,2) by simp
  show ?case
  proof (cases "?m = i")
    case True
    have "parent_ok ?es cnt i" using greatest_big [of _ i cnt ?es] True by (auto simp: parent_ok_def)
    then show ?thesis using st True sifting_stop less.prems(2,8) by auto
  next
    case False
    note gc = greatest_child [OF False]
    have m: "0 < ?m" "?m \<le> n" "i < ?m" "i \<le> n" using gc less.prems(3-5) by auto
    obtain arr1 where a: "do_swap arr i ?m s = Some arr1" "length arr1 = n * s"
      "elems s arr1 = ?es[i - 1 := ?es ! (?m - 1), ?m - 1 := ?es ! (i - 1)]"
      using do_swap_ok [OF less.prems(1,2,3) m(4,1,2)] by blast
    have dec: "cnt - ?m < cnt - i" "?m \<le> cnt" using gc m(3) by linarith+
    have "sifting (elems s arr1) cnt lo ?m"
      using sifting_swap [OF less.prems(8,7) _ _ _ greatest_le greatest_big a(3)] gc l less.prems(5) by simp
    from less.hyps [OF dec(1) less.prems(1) a(2) m(1) dec(2) less.prems(5-7) this] obtain arr' where
      r: "heapify arr1 ?m cnt s compare aux = Some arr'" "length arr' = n * s" "heap_from (elems s arr') cnt lo"
      "mset (elems s arr') = mset (elems s arr1)" "drop cnt (elems s arr') = drop cnt (elems s arr1)" by blast
    have "mset (elems s arr1) = mset ?es" unfolding a(3) using mset_swap [of "?m - 1" ?es "i - 1"] l m less.prems(3) by simp
    moreover have "i - 1 < cnt" "?m - 1 < cnt" using dec(2) m(1) less.prems(3,4) by linarith+
    then have "drop cnt (elems s arr1) = drop cnt ?es" unfolding a(3) by (simp add: drop_update_cancel)
    ultimately show ?thesis using st False a(1) r by simp
  qed
qed

lemma build_heap_ok:
  assumes "0 < s" "length arr = n * s" "i \<le> n" "2 * n + 1 < 2 ^ 32" "heap_from (elems s arr) n (Suc i)"
  shows "\<exists>arr'. build_heap arr i n s compare aux = Some arr' \<and> length arr' = n * s \<and> heap_from (elems s arr') n 1 \<and>
    mset (elems s arr') = mset (elems s arr)"
  using assms
proof (induction i arbitrary: arr)
  case (Suc i)
  have "sifting (elems s arr) n (Suc i) (Suc i)" using heap_sifting [OF Suc.prems(5)] by simp
  from heapify_ok [OF Suc.prems(1,2) _ Suc.prems(3) order_refl Suc.prems(4) _ this] obtain arr1 where
    a: "heapify arr (Suc i) n s compare aux = Some arr1" "length arr1 = n * s" "heap_from (elems s arr1) n (Suc i)"
    "mset (elems s arr1) = mset (elems s arr)" by auto
  from Suc.IH [OF Suc.prems(1) a(2) _ Suc.prems(4) a(3)] Suc.prems(3) obtain arr' where
    "build_heap arr1 i n s compare aux = Some arr'" "length arr' = n * s" "heap_from (elems s arr') n 1" "mset (elems s arr') = mset (elems s arr1)" by auto
  then show ?case using a by auto
qed simp

text \<open>During the second phase the elements behind the heap are in order and no smaller than those in it.\<close>

definition tail_sorted :: "u8 list list \<Rightarrow> nat \<Rightarrow> bool" where
  "tail_sorted es i \<longleftrightarrow> sorted_wrt le (drop i es) \<and> (\<forall>x\<in>set (take i es). \<forall>y\<in>set (drop i es). le x y)"

lemma drop_split_mset: "mset xs = mset ys \<Longrightarrow> drop i xs = drop i ys \<Longrightarrow> mset (take i xs) = mset (take i ys)"
  by (metis add_right_cancel append_take_drop_id mset_append)

lemma tail_sorted_step:
  assumes ts: "tail_sorted es i" and h: "heap_from es i 1" and i: "1 < i" "i \<le> length es"
    and es: "es1 = es[0 := es ! (i - 1), i - 1 := es ! 0]" and m: "mset es' = mset es1" "drop (i - 1) es' = drop (i - 1) es1"
  shows "tail_sorted es' (i - 1)"
proof -
  let ?r = "es ! 0"
  have l: "length es1 = length es" "i - 1 < length es" using es i by simp_all
  have d: "drop (i - 1) es1 = ?r # drop i es"
    using l i unfolding es by (subst Cons_nth_drop_Suc [symmetric]) simp_all
  have mt: "mset (take (i - 1) es') = mset (take (i - 1) es1)" by (rule drop_split_mset [OF m])
  have root: "le x ?r" if "x \<in> set (take i es)" for x
    using that heap_root [OF h, of "Suc k" for k] i(2) by (auto simp: in_set_conv_nth)
  have r: "?r \<in> set (take i es)" using i by (cases es) (auto simp: take_Cons')
  have sub: "x \<in> set (take i es)" if "x \<in> set (take (i - 1) es1)" for x
  proof -
    have "mset es1 = mset es" unfolding es using mset_swap [of "i - 1" es 0] i by (cases es) (auto simp: l)
    moreover have "drop i es1 = drop i es" unfolding es using i by (simp add: drop_update_cancel)
    ultimately have "set (take i es1) = set (take i es)" by (metis drop_split_mset mset_eq_setD)
    moreover have "x \<in> set (take i es1)" using that by (metis set_take_subset_set_take diff_le_self subsetD)
    ultimately show ?thesis by simp
  qed
  have "\<forall>x\<in>set (take (i - 1) es'). \<forall>y\<in>set (?r # drop i es). le x y"
    using ts sub root mset_eq_setD [OF mt] by (auto simp: tail_sorted_def)
  moreover have "sorted_wrt le (?r # drop i es)" using ts r by (simp add: tail_sorted_def)
  ultimately show ?thesis unfolding tail_sorted_def m(2) d by simp
qed

lemma sort_heap_ok:
  assumes "0 < s" "length arr = n * s" "i \<le> n" "2 * n + 1 < 2 ^ 32" "heap_from (elems s arr) i 1" "tail_sorted (elems s arr) i"
  shows "\<exists>arr'. sort_heap arr i s compare aux = Some arr' \<and> length arr' = n * s \<and> sorted_wrt le (elems s arr') \<and>
    mset (elems s arr') = mset (elems s arr)"
  using assms
proof (induction i arbitrary: arr)
  case 0
  then show ?case by (auto simp: sort_heap.simps tail_sorted_def)
next
  case (Suc i)
  let ?es = "elems s arr"
  have l: "length ?es = n" using Suc.prems(1,2) by simp
  show ?case
  proof (cases "i = 0")
    case True
    then have "sorted_wrt le ?es" using Suc.prems(6) by (cases ?es) (auto simp: tail_sorted_def)
    then show ?thesis using True Suc.prems(2) by (auto simp: sort_heap.simps)
  next
    case False
    then have i: "1 < Suc i" "(0::nat) < 1" "1 \<le> n" "0 < Suc i" using Suc.prems(3) by simp_all
    obtain arr1 where a: "do_swap arr 1 (Suc i) s = Some arr1" "length arr1 = n * s"
      "elems s arr1 = ?es[0 := ?es ! (Suc i - 1), Suc i - 1 := ?es ! 0]"
      using do_swap_ok [OF Suc.prems(1,2) i(2-4) Suc.prems(3)] by auto
    have "parent_ok (elems s arr1) i j" if "1 < j" for j
      unfolding parent_ok_def
    proof (intro allI impI, elim conjE)
      fix c assume c: "c = 2 * j \<or> c = 2 * j + 1" "c \<le> i"
      then have "elems s arr1 ! (c - 1) = ?es ! (c - 1)" "elems s arr1 ! (j - 1) = ?es ! (j - 1)" using that unfolding a(3) by auto
      then show "le (elems s arr1 ! (c - 1)) (elems s arr1 ! (j - 1))"
        using Suc.prems(5) c that by (auto simp: heap_from_def parent_ok_def)
    qed
    then have "sifting (elems s arr1) i 1 1" by (auto simp: heap_from_def intro!: heap_sifting)
    from heapify_ok [OF Suc.prems(1) a(2) _ _ _ _ _ this] False Suc.prems(3,4) obtain arr2 where
      h: "heapify arr1 1 i s compare aux = Some arr2" "length arr2 = n * s" "heap_from (elems s arr2) i 1"
      "mset (elems s arr2) = mset (elems s arr1)" "drop i (elems s arr2) = drop i (elems s arr1)" by auto
    have "tail_sorted (elems s arr2) i" using tail_sorted_step [OF Suc.prems(6,5) i(1) _ a(3) h(4)] h(5) l Suc.prems(3) by simp
    from Suc.IH [OF Suc.prems(1) h(2) _ Suc.prems(4) h(3) this] Suc.prems(3) obtain arr' where
      r: "sort_heap arr2 i s compare aux = Some arr'" "length arr' = n * s" "sorted_wrt le (elems s arr')"
      "mset (elems s arr') = mset (elems s arr2)" by auto
    have "mset (elems s arr1) = mset ?es" unfolding a(3) using mset_swap [of i ?es 0] l Suc.prems(3) i by simp
    then show ?thesis using a(1) h(1,4) r i(1) by (subst sort_heap.simps) simp
  qed
qed

lemma sort_ok:
  assumes "0 < s" "length arr = n * s" "2 * n + 1 < 2 ^ 32"
  shows "\<exists>arr'. sort_array arr n s compare aux = Some arr' \<and> length arr' = length arr \<and> sorted_wrt le (elems s arr') \<and>
    mset (elems s arr') = mset (elems s arr)"
proof -
  have "heap_from (elems s arr) n (Suc (n div 2))" by (auto simp: heap_from_def parent_ok_def)
  from build_heap_ok [OF assms(1,2) _ assms(3) this] obtain arr1 where
    a: "build_heap arr (n div 2) n s compare aux = Some arr1" "length arr1 = n * s" "heap_from (elems s arr1) n 1"
    "mset (elems s arr1) = mset (elems s arr)" by auto
  have "tail_sorted (elems s arr1) n" using assms(1) a(2) by (simp add: tail_sorted_def)
  from sort_heap_ok [OF assms(1) a(2) order_refl assms(3) a(3) this] a assms(1,2) show ?thesis by (auto simp: sort_array_def)
qed

lemma search_loop_ok:
  assumes "0 < s" "length arr = n * s" "a \<le> b" "b \<le> n" "sorted_wrt le (elems s arr)"
    "\<forall>k<a. 0 < compare key (elems s arr ! k) aux" "\<forall>k. b \<le> k \<and> k < n \<longrightarrow> compare key (elems s arr ! k) aux < 0"
  shows "if \<exists>k<n. compare key (elems s arr ! k) aux = 0
    then \<exists>k<n. compare key (elems s arr ! k) aux = 0 \<and> search_loop key arr (a * s) (b * s) s compare aux = Some (Some (k * s))
    else search_loop key arr (a * s) (b * s) s compare aux = Some None"
  using assms
proof (induction "b - a" arbitrary: a b rule: less_induct)
  case less
  let ?es = "elems s arr"
  let ?c = "\<lambda>k. compare key (?es ! k) aux"
  show ?case
  proof (cases "a < b")
    case False
    then have "\<not> (\<exists>k<n. ?c k = 0)" using less.prems(3,6,7) by (metis less_irrefl linorder_not_less order_le_less_trans)
    moreover have "search_loop key arr (a * s) (b * s) s compare aux = Some None" using False by (subst search_loop.simps) simp
    ultimately show ?thesis by simp
  next
    case True
    define m where "m = a + (b - a) div 2"
    have m: "a \<le> m" "m < b" "m < n" using True less.prems(4) by (auto simp: m_def)
    have ps: "a * s < b * s" "(b * s - a * s) div s = b - a" "a * s + (b - a) div 2 * s = m * s"
      using True less.prems(1) by (simp_all add: m_def add_mult_distrib flip: diff_mult_distrib)
    have step: "search_loop key arr (a * s) (b * s) s compare aux = (
        if ?c m < 0 then search_loop key arr (a * s) (m * s) s compare aux
        else if 0 < ?c m then search_loop key arr (Suc m * s) (b * s) s compare aux else Some (Some (m * s)))"
      using ps less.prems(1) elem_at_ok [OF less.prems(1,2) m(3)] by (subst search_loop.simps) (simp add: Let_def add.commute)
    have srt: "le (?es ! i) (?es ! j)" if "i \<le> j" "j < n" for i j
      using that less.prems(1,2,5) le_refl by (cases "i = j") (auto simp: sorted_wrt_iff_nth_less)
    consider "?c m < 0" | "0 < ?c m" | "?c m = 0" by linarith
    then show ?thesis
    proof cases
      case 1
      have "?c k < 0" if "m \<le> k" "k < n" for k
      proof (rule ccontr)
        assume "\<not> ?c k < 0"
        then have "le (?es ! k) key" using cmp_sym [of "?es ! k" key] by linarith
        then have "le (?es ! m) key" using srt [OF that] cmp_trans by blast
        then show False using 1 cmp_sym [of "?es ! m" key] by linarith
      qed
      then have "\<forall>k. m \<le> k \<and> k < n \<longrightarrow> ?c k < 0" by blast
      from less.hyps [OF _ less.prems(1,2) m(1) _ less.prems(5,6) this] m show ?thesis unfolding step if_P [OF 1] by simp
    next
      case 2
      have "0 < ?c k" if "k < Suc m" for k
      proof (rule ccontr)
        assume "\<not> 0 < ?c k"
        then have "le key (?es ! m)" using srt [of k m] that m(3) cmp_trans [of key "?es ! k" "?es ! m"] by simp
        then show False using 2 by simp
      qed
      then have "\<forall>k<Suc m. 0 < ?c k" by blast
      moreover have "b - Suc m < b - a" "Suc m \<le> b" "\<not> ?c m < 0" using m(1,2) 2 by linarith+
      ultimately show ?thesis unfolding step if_P [OF 2] using less.hyps less.prems(1,2,4,5,7) by presburger
    next
      case 3
      then show ?thesis using step m(3) by auto
    qed
  qed
qed

end

interpretation ints: elem_order compare_thunk compare_ints
  by unfold_locales (auto simp: compare_thunk_def compare_ints_def Let_def split: if_splits)

section \<open>Properties\<close>

text \<open>C9: \<^verbatim>\<open>qsort\<close> sorts. For every comparison function that orders the elements, on an array of fewer
  than \<open>2 ^ 31\<close> elements of any positive size, the heap sort returns an array with the same elements,
  each as often as before, in order.\<close>

theorem qsort_sorts:
  assumes "comparator compare" and "0 < s" and "length arr = n * s" and "n < 2 ^ 31 - 1"
  shows "\<exists>arr'. qsort arr n s compare = Some arr' \<and> length arr' = length arr \<and>
    sorted_wrt (\<lambda>a b. compare a b \<le> 0) (elems s arr') \<and> mset (elems s arr') = mset (elems s arr)"
proof -
  have "comparator (\<lambda>a b. compare_thunk a b compare)" using assms(1) by (simp add: compare_thunk_def)
  then have "elem_order compare_thunk compare" by (simp add: elem_order_def)
  from elem_order.sort_ok [OF this assms(2,3)] assms(4) show ?thesis by (simp add: qsort_def compare_thunk_def)
qed

theorem qsort_sorts_witness:
  "\<exists>arr'. qsort (le32 7 @ le32 3 @ le32 5) 3 4 compare_ints = Some arr' \<and> length arr' = length (le32 7 @ le32 3 @ le32 5) \<and>
    sorted_wrt (\<lambda>a b. compare_ints a b \<le> 0) (elems 4 arr') \<and> mset (elems 4 arr') = mset (elems 4 (le32 7 @ le32 3 @ le32 5))"
  by (rule qsort_sorts) (use ints.comparator_axioms in \<open>simp_all add: compare_thunk_def\<close>)

text \<open>C38: \<^verbatim>\<open>bsearch\<close> finds. In an array that is in order, the search ends, and returns a pointer to an element that
  compares equal to the key if there is one, and a null pointer otherwise.\<close>

theorem bsearch_finds:
  assumes "comparator compare" and "0 < s" and "length arr = n * s" and "sorted_wrt (\<lambda>a b. compare a b \<le> 0) (elems s arr)"
  shows "if \<exists>k<n. compare key (elems s arr ! k) = 0
    then \<exists>k<n. compare key (elems s arr ! k) = 0 \<and> bsearch key arr n s compare = Some (Some (k * s))
    else bsearch key arr n s compare = Some None"
proof -
  have "comparator (\<lambda>a b. compare_thunk a b compare)" using assms(1) by (simp add: compare_thunk_def)
  then have eo: "elem_order compare_thunk compare" by (simp add: elem_order_def)
  have "sorted_wrt (\<lambda>a b. compare_thunk a b compare \<le> 0) (elems s arr)" using assms(4) by (simp add: compare_thunk_def)
  from elem_order.search_loop_ok [OF eo assms(2,3), of 0 n key] this
  show ?thesis unfolding bsearch_def binary_search_def mult.commute [of s n] by (auto simp add: compare_thunk_def split: if_splits)
qed

theorem bsearch_finds_witness:
  "if \<exists>k<3. compare_ints (le32 5) (elems 4 (le32 3 @ le32 5 @ le32 7) ! k) = 0
    then \<exists>k<3. compare_ints (le32 5) (elems 4 (le32 3 @ le32 5 @ le32 7) ! k) = 0 \<and> bsearch (le32 5) (le32 3 @ le32 5 @ le32 7) 3 4 compare_ints = Some (Some (k * 4))
    else bsearch (le32 5) (le32 3 @ le32 5 @ le32 7) 3 4 compare_ints = Some None"
proof (rule bsearch_finds)
  show "comparator compare_ints" using ints.comparator_axioms by (simp add: compare_thunk_def)
  have "elems 4 (le32 3 @ le32 5 @ le32 7) = [le32 3, le32 5, le32 7]"
    by (simp add: elems_def upt_rec take_Cons' drop_Cons')
  then show "sorted_wrt (\<lambda>a b. compare_ints a b \<le> 0) (elems 4 (le32 3 @ le32 5 @ le32 7))"
    by (simp add: compare_ints_def dec32_le32 s32_def)
qed simp_all

end
