(* ===== verification/Stdio.thy ===== *)
theory Stdio
  imports Stdlib
begin

text \<open>
  Formatted output, lib/stdio.c. The format string and the strings it prints lie in a memory that the output does not
  change; the arguments of a call are the 32-bit words that \<^verbatim>\<open>va_arg\<close> takes one after another from the
  stack, two for a 64-bit integer. An output function takes a character and its auxiliary data to new
  auxiliary data, and may stop. Characters are written with their ASCII codes.
\<close>

unbundle bit_operations_syntax

section \<open>Conversions\<close>

datatype flag = MINUS | PLUS | SPACE | POUND | ZERO | GROUP

datatype int_type = Char_t | Short_t | Int_t | Intmax_t | Long_t | Longlong_t | Ptrdiff_t | Size_t

record printf_conversion =
  flags :: "flag set"
  width :: int
  precision :: int
  ctype :: int_type

record integer_base =
  base :: nat
  digits :: "u8 list"
  xchar :: u8
  group :: nat

definition ascii :: "string \<Rightarrow> u8 list" where
  "ascii s = map of_char s"

definition base_d :: integer_base where
  "base_d = \<lparr>base = 10, digits = ascii ''0123456789'', xchar = 0, group = 3\<rparr>"

definition base_o :: integer_base where
  "base_o = \<lparr>base = 8, digits = ascii ''01234567'', xchar = 0, group = 3\<rparr>"

definition base_x :: integer_base where
  "base_x = \<lparr>base = 16, digits = ascii ''0123456789abcdef'', xchar = 120, group = 4\<rparr>"

definition base_X :: integer_base where
  "base_X = \<lparr>base = 16, digits = ascii ''0123456789ABCDEF'', xchar = 88, group = 4\<rparr>"

text \<open>A string literal is a memory of its own, with the string at address 1.\<close>

definition lit :: "string \<Rightarrow> memory" where
  "lit s = 0 # ascii s @ [0]"

section \<open>Arguments\<close>

definition va_int :: "u32 list \<Rightarrow> (u32 \<times> u32 list) option" where
  "va_int args = (case args of [] \<Rightarrow> None | a # as \<Rightarrow> Some (a, as))"

definition va_int64 :: "u32 list \<Rightarrow> (u64 \<times> u32 list) option" where
  "va_int64 args = do {
     (lo, args) \<leftarrow> va_int args;
     (hi, args) \<leftarrow> va_int args;
     Some (push_bit 32 (ucast hi) + ucast lo, args) }"

definition signed_arg :: "int_type \<Rightarrow> u32 list \<Rightarrow> (int \<times> u32 list) option" where
  "signed_arg t args = (case t of
       Char_t \<Rightarrow> do { (a, args) \<leftarrow> va_int args; Some (sint (ucast a :: u8), args) }
     | Short_t \<Rightarrow> do { (a, args) \<leftarrow> va_int args; Some (sint (ucast a :: 16 word), args) }
     | Int_t \<Rightarrow> do { (a, args) \<leftarrow> va_int args; Some (sint a, args) }
     | Intmax_t \<Rightarrow> do { (a, args) \<leftarrow> va_int64 args; Some (sint a, args) }
     | Long_t \<Rightarrow> do { (a, args) \<leftarrow> va_int args; Some (sint a, args) }
     | Longlong_t \<Rightarrow> do { (a, args) \<leftarrow> va_int64 args; Some (sint a, args) }
     | Ptrdiff_t \<Rightarrow> do { (a, args) \<leftarrow> va_int args; Some (sint a, args) }
     | Size_t \<Rightarrow> do {
         (a, args) \<leftarrow> va_int args;
         let value = uint a;
         Some (if (2 ^ 32 - 1) div 2 < value then value - (2 ^ 32 - 1) - 1 else value, args) })"

definition unsigned_arg :: "int_type \<Rightarrow> u32 list \<Rightarrow> (u64 \<times> u32 list) option" where
  "unsigned_arg t args = (case t of
       Char_t \<Rightarrow> do { (a, args) \<leftarrow> va_int args; Some (ucast (ucast a :: u8), args) }
     | Short_t \<Rightarrow> do { (a, args) \<leftarrow> va_int args; Some (ucast (ucast a :: 16 word), args) }
     | Int_t \<Rightarrow> do { (a, args) \<leftarrow> va_int args; Some (ucast a, args) }
     | Intmax_t \<Rightarrow> va_int64 args
     | Long_t \<Rightarrow> do { (a, args) \<leftarrow> va_int args; Some (ucast a, args) }
     | Longlong_t \<Rightarrow> va_int64 args
     | Ptrdiff_t \<Rightarrow> do { (a, args) \<leftarrow> va_int args; Some (scast a AND (push_bit 1 (2 ^ 31 - 1) OR 1), args) }
     | Size_t \<Rightarrow> do { (a, args) \<leftarrow> va_int args; Some (ucast a, args) })"

section \<open>Parsing conversions\<close>

function parse_flags :: "memory \<Rightarrow> addr \<Rightarrow> flag set \<Rightarrow> (addr \<times> flag set) option" where
  "parse_flags mem format fl =
     (if format < length mem then
        let ch = mem ! format in
        if ch = 45 then parse_flags mem (format + 1) (insert MINUS fl)
        else if ch = 43 then parse_flags mem (format + 1) (insert PLUS fl)
        else if ch = 32 then parse_flags mem (format + 1) (insert SPACE fl)
        else if ch = 35 then parse_flags mem (format + 1) (insert POUND fl)
        else if ch = 48 then parse_flags mem (format + 1) (insert ZERO fl)
        else if ch = 39 then parse_flags mem (format + 1) (insert GROUP fl)
        else Some (format, fl)
      else None)"
  by pat_completeness auto
termination by (relation "measure (\<lambda>(mem, f, fl). length mem - f)") auto

function parse_number :: "memory \<Rightarrow> addr \<Rightarrow> int \<Rightarrow> (addr \<times> int) option" where
  "parse_number mem format value =
     (if format < length mem then
        if isdigit (schar (mem ! format)) then parse_number mem (format + 1) (s32 (s32 (s32 (value * 10) + schar (mem ! format)) - 48))
        else Some (format, value)
      else None)"
  by pat_completeness auto
termination by (relation "measure (\<lambda>(mem, f, v). length mem - f)") auto

declare parse_flags.simps [simp del] parse_number.simps [simp del]

definition parse_width :: "memory \<Rightarrow> addr \<Rightarrow> flag set \<Rightarrow> u32 list \<Rightarrow> (addr \<times> int \<times> flag set \<times> u32 list) option" where
  "parse_width mem format fl args = do {
     ch \<leftarrow> idx_get mem format;
     (format, w, args) \<leftarrow>
       (if ch = 42 then do { (a, args) \<leftarrow> va_int args; Some (format + 1, sint a, args) }
        else do { (format, w) \<leftarrow> parse_number mem format 0; Some (format, w, args) });
     if w < 0 then Some (format, s32 (- w), insert MINUS fl, args) else Some (format, w, fl, args) }"

definition parse_precision :: "memory \<Rightarrow> addr \<Rightarrow> u32 list \<Rightarrow> (addr \<times> int \<times> u32 list) option" where
  "parse_precision mem format args = do {
     ch \<leftarrow> idx_get mem format;
     if ch = 46 then do {
       let format = format + 1;
       ch \<leftarrow> idx_get mem format;
       (format, p, args) \<leftarrow>
         (if ch = 42 then do { (a, args) \<leftarrow> va_int args; Some (format + 1, sint a, args) }
          else do { (format, p) \<leftarrow> parse_number mem format 0; Some (format, p, args) });
       Some (format, if p < 0 then - 1 else p, args) }
     else Some (format, - 1, args) }"

definition parse_type :: "memory \<Rightarrow> addr \<Rightarrow> (addr \<times> int_type) option" where
  "parse_type mem format = do {
     ch \<leftarrow> idx_get mem format;
     if ch = 104 then do {
       h \<leftarrow> idx_get mem (format + 1);
       Some (if h = 104 then (format + 2, Char_t) else (format + 1, Short_t)) }
     else if ch = 106 then Some (format + 1, Intmax_t)
     else if ch = 108 then do {
       l \<leftarrow> idx_get mem (format + 1);
       Some (if l = 108 then (format + 2, Longlong_t) else (format + 1, Long_t)) }
     else if ch = 116 then Some (format + 1, Ptrdiff_t)
     else if ch = 122 then Some (format + 1, Size_t)
     else Some (format, Int_t) }"

definition parse_conversion :: "memory \<Rightarrow> addr \<Rightarrow> u32 list \<Rightarrow> (addr \<times> printf_conversion \<times> u32 list) option" where
  "parse_conversion mem format args = do {
     (format, fl) \<leftarrow> parse_flags mem format {};
     let fl = (if MINUS \<in> fl then fl - {ZERO} else fl);
     let fl = (if PLUS \<in> fl then fl - {SPACE} else fl);
     (format, w, fl, args) \<leftarrow> parse_width mem format fl args;
     (format, p, args) \<leftarrow> parse_precision mem format args;
     let fl = (if 0 \<le> p then fl - {ZERO} else fl);
     (format, t) \<leftarrow> parse_type mem format;
     Some (format, \<lparr>flags = fl, width = w, precision = p, ctype = t\<rparr>, args) }"

section \<open>Output\<close>

type_synonym 'x sink = "u8 \<Rightarrow> 'x \<Rightarrow> 'x option"

fun output_dup :: "u8 \<Rightarrow> nat \<Rightarrow> 'x sink \<Rightarrow> 'x \<Rightarrow> 'x option" where
  "output_dup ch 0 output aux = Some aux"
| "output_dup ch (Suc cnt) output aux = do { aux \<leftarrow> output ch aux; output_dup ch cnt output aux }"

function int_digits :: "flag set \<Rightarrow> integer_base \<Rightarrow> u8 list \<Rightarrow> nat \<Rightarrow> nat \<Rightarrow> nat \<Rightarrow> (u8 list \<times> nat) option" where
  "int_digits fl b buf cp digit_cnt value =
     (if 0 < value then
        let comma = GROUP \<in> fl \<and> 0 < digit_cnt \<and> digit_cnt mod group b = 0;
            cp' = (if comma then cp + 1 else cp);
            buf' = (if comma then buf[cp := 44] else buf) in
        if cp' < length buf \<and> value mod base b < length (digits b)
        then int_digits fl b (buf'[cp' := digits b ! (value mod base b)]) (cp' + 1) (digit_cnt + 1) (value div base b)
        else None
      else Some (buf, cp))"
  by pat_completeness auto
termination by (relation "measure (\<lambda>(fl, b, buf, cp, n, v). length buf - cp)") (auto simp: Let_def)

function zero_digits :: "u8 list \<Rightarrow> nat \<Rightarrow> int \<Rightarrow> (u8 list \<times> nat)" where
  "zero_digits buf cp prec =
     (if int cp < prec \<and> cp < length buf - 1 then zero_digits (buf[cp := 48]) (cp + 1) prec else (buf, cp))"
  by pat_completeness auto
termination by (relation "measure (\<lambda>(buf, cp, p). length buf - cp)") auto

declare int_digits.simps [simp del] zero_digits.simps [simp del]

fun output_back :: "u8 list \<Rightarrow> nat \<Rightarrow> 'x sink \<Rightarrow> 'x \<Rightarrow> 'x option" where
  "output_back buf 0 output aux = Some aux"
| "output_back buf (Suc cp) output aux = do {
     ch \<leftarrow> idx_get buf cp;
     aux \<leftarrow> output ch aux;
     output_back buf cp output aux }"

definition sign_char :: "bool \<Rightarrow> bool \<Rightarrow> flag set \<Rightarrow> u8" where
  "sign_char is_signed negative fl = (
     if is_signed then
       if PLUS \<in> fl then if negative then 45 else 43
       else if SPACE \<in> fl then if negative then 45 else 32
       else if negative then 45 else 0
     else 0)"

definition format_integer :: "u64 \<Rightarrow> bool \<Rightarrow> bool \<Rightarrow> integer_base \<Rightarrow> printf_conversion \<Rightarrow> 'x sink \<Rightarrow> 'x \<Rightarrow> 'x option" where
  "format_integer value is_signed negative b c output aux = do {
     let sign = sign_char is_signed negative (flags c);
     let x = (if POUND \<in> flags c \<and> value \<noteq> 0 then xchar b else 0);
     (buf, cp) \<leftarrow> int_digits (flags c) b (replicate 64 0) 0 0 (unat value);
     let (buf, cp) = zero_digits buf cp (if precision c < 0 then 1 else precision c);
     (buf, cp) \<leftarrow>
       (if POUND \<in> flags c \<and> base b = 8 \<and> (cp = 0 \<or> buf ! (cp - 1) \<noteq> 48)
        then do { buf \<leftarrow> idx_set buf cp 48; Some (buf, cp + 1) } else Some (buf, cp));
     let pad_cnt = s32 (width c - int cp - (if x \<noteq> 0 then 2 else 0) - (if sign \<noteq> 0 then 1 else 0));
     let pad_cnt = nat pad_cnt;
     aux \<leftarrow> (if MINUS \<notin> flags c \<and> ZERO \<notin> flags c then output_dup 32 pad_cnt output aux else Some aux);
     aux \<leftarrow> (if sign \<noteq> 0 then output sign aux else Some aux);
     aux \<leftarrow> (if x \<noteq> 0 then do { aux \<leftarrow> output 48 aux; output x aux } else Some aux);
     aux \<leftarrow> (if ZERO \<in> flags c then output_dup 48 pad_cnt output aux else Some aux);
     aux \<leftarrow> output_back buf cp output aux;
     (if MINUS \<in> flags c then output_dup 32 pad_cnt output aux else Some aux) }"

fun output_chars :: "memory \<Rightarrow> addr \<Rightarrow> nat \<Rightarrow> 'x sink \<Rightarrow> 'x \<Rightarrow> 'x option" where
  "output_chars mem string 0 output aux = Some aux"
| "output_chars mem string (Suc n) output aux = do {
     ch \<leftarrow> idx_get mem string;
     aux \<leftarrow> output ch aux;
     output_chars mem (string + 1) n output aux }"

definition format_string :: "memory \<Rightarrow> addr \<Rightarrow> int \<Rightarrow> printf_conversion \<Rightarrow> 'x sink \<Rightarrow> 'x \<Rightarrow> 'x option" where
  "format_string mem string len c output aux = do {
     aux \<leftarrow> (if len < width c \<and> MINUS \<notin> flags c then output_dup 32 (nat (width c - len)) output aux else Some aux);
     aux \<leftarrow> output_chars mem string (nat len) output aux;
     (if len < width c \<and> MINUS \<in> flags c then output_dup 32 (nat (width c - len)) output aux else Some aux) }"

section \<open>The format string\<close>

text \<open>The conversions other than the unsupported ones.\<close>

definition convert :: "memory \<Rightarrow> u8 \<Rightarrow> printf_conversion \<Rightarrow> u32 list \<Rightarrow> 'x sink \<Rightarrow> 'x \<Rightarrow> ('x \<times> u32 list) option" where
  "convert mem ch c args output aux = (
     if ch = 100 \<or> ch = 105 then do {
       (value, args) \<leftarrow> signed_arg (ctype c) args;
       aux \<leftarrow> format_integer (word_of_int (if value < 0 then - value else value)) True (value < 0) base_d c output aux;
       Some (aux, args) }
     else if ch = 111 \<or> ch = 117 \<or> ch = 120 \<or> ch = 88 then do {
       (value, args) \<leftarrow> unsigned_arg (ctype c) args;
       let b = (if ch = 111 then base_o else if ch = 117 then base_d else if ch = 120 then base_x else base_X);
       aux \<leftarrow> format_integer value False False b c output aux;
       Some (aux, args) }
     else if ch = 99 then do {
       (a, args) \<leftarrow> va_int args;
       aux \<leftarrow> format_string [ucast a] 0 1 c output aux;
       Some (aux, args) }
     else if ch = 115 then do {
       (a, args) \<leftarrow> va_int args;
       let (mem, s) = (if unat a = NULL then (lit ''(null)'', 1) else (mem, unat a));
       n \<leftarrow> strnlen mem s (u32_of (precision c));
       aux \<leftarrow> format_string mem s (s32 (int n)) c output aux;
       Some (aux, args) }
     else do {
       (a, args) \<leftarrow> va_int args;
       aux \<leftarrow> format_integer (ucast a) False False base_x (c\<lparr>flags := {POUND}\<rparr>) output aux;
       Some (aux, args) })"

definition supported :: "u8 \<Rightarrow> bool" where
  "supported ch \<longleftrightarrow> ch \<in> {100, 105, 111, 117, 120, 88, 99, 115, 112}"

definition unsupported_text :: "u8 \<Rightarrow> string" where
  "unsupported_text ch = (if ch \<in> {102, 101, 69, 103, 71, 110} then ''<<no %%%c in kernel>>'' else ''<<no %%%c conversion>>'')"

text \<open>\<open>u_vprintf\<close> is \<^verbatim>\<open>__vprintf\<close>. For an unsupported conversion it calls itself, through \<^verbatim>\<open>__printf\<close>, on a format of
  its own.\<close>

partial_function (option) u_vprintf :: "memory \<Rightarrow> addr \<Rightarrow> u32 list \<Rightarrow> 'x sink \<Rightarrow> 'x \<Rightarrow> 'x option" where
  "u_vprintf mem format args output aux = do {
     ch \<leftarrow> idx_get mem format;
     if ch = 0 then Some aux
     else if ch \<noteq> 37 then do { aux \<leftarrow> output ch aux; u_vprintf mem (format + 1) args output aux }
     else do {
       let format = format + 1;
       ch \<leftarrow> idx_get mem format;
       if ch = 37 then do { aux \<leftarrow> output 37 aux; u_vprintf mem (format + 1) args output aux }
       else do {
         (format, c, args) \<leftarrow> parse_conversion mem format args;
         ch \<leftarrow> idx_get mem format;
         if supported ch then do {
           (aux, args) \<leftarrow> convert mem ch c args output aux;
           u_vprintf mem (format + 1) args output aux }
         else do {
           aux \<leftarrow> u_vprintf (lit (unsupported_text ch)) 1 [scast ch] output aux;
           u_vprintf mem (format + 1) args output aux } } } }"

definition u_printf :: "memory \<Rightarrow> addr \<Rightarrow> 'x sink \<Rightarrow> 'x \<Rightarrow> u32 list \<Rightarrow> 'x option" where
  "u_printf mem format output aux args = u_vprintf mem format args output aux"

section \<open>Output to a buffer\<close>

record vsnprintf_aux =
  ptr :: nat
  len :: int
  max_length :: int

definition vsnprintf_helper :: "(vsnprintf_aux \<times> u8 list) sink" where
  "vsnprintf_helper ch = (\<lambda>(aux, buffer).
     if len aux < max_length aux
     then do { buffer \<leftarrow> idx_set buffer (ptr aux) ch; Some (aux\<lparr>len := s32 (len aux + 1), ptr := ptr aux + 1\<rparr>, buffer) }
     else Some (aux\<lparr>len := s32 (len aux + 1)\<rparr>, buffer))"

definition vsnprintf :: "u8 list \<Rightarrow> nat \<Rightarrow> memory \<Rightarrow> addr \<Rightarrow> u32 list \<Rightarrow> (int \<times> u8 list) option" where
  "vsnprintf buffer buf_size mem format args = do {
     let aux = \<lparr>ptr = 0, len = 0, max_length = s32 (if 0 < buf_size then int buf_size - 1 else 0)\<rparr>;
     (aux, buffer) \<leftarrow> u_vprintf mem format args vsnprintf_helper (aux, buffer);
     buffer \<leftarrow> (if 0 < buf_size then idx_set buffer (ptr aux) 0 else Some buffer);
     Some (len aux, buffer) }"

definition snprintf :: "u8 list \<Rightarrow> nat \<Rightarrow> memory \<Rightarrow> addr \<Rightarrow> u32 list \<Rightarrow> (int \<times> u8 list) option" where
  "snprintf buffer buf_size mem format args = vsnprintf buffer buf_size mem format args"

section \<open>What is output\<close>

text \<open>Every routine above hands a sequence of characters to its output function, one after the other.\<close>

fun out_all :: "'x sink \<Rightarrow> u8 list \<Rightarrow> 'x \<Rightarrow> 'x option" where
  "out_all output [] aux = Some aux"
| "out_all output (c # cs) aux = do { aux \<leftarrow> output c aux; out_all output cs aux }"

definition collect :: "u8 list sink" where
  "collect c cs = Some (cs @ [c])"

lemma out_all_append: "out_all output (cs @ ds) aux = do { aux \<leftarrow> out_all output cs aux; out_all output ds aux }"
  by (induction cs arbitrary: aux) (auto split: bind_split)

lemma out_all_collect [simp]: "out_all collect cs acc = Some (acc @ cs)"
  by (induction cs arbitrary: acc) (simp_all add: collect_def)

lemma out_one [simp]: "out_all output [c] = output c"
  by (rule ext) (simp split: bind_split)

lemma output_dup_eq: "output_dup ch n output aux = out_all output (replicate n ch) aux"
  by (induction n arbitrary: aux) (auto split: bind_split)

lemma output_back_eq: "cp \<le> length buf \<Longrightarrow> output_back buf cp output aux = out_all output (rev (take cp buf)) aux"
  by (induction cp arbitrary: aux) (auto simp: take_Suc_conv_app_nth split: bind_split)

lemma output_chars_eq:
  "output_chars mem p n output aux = (if n = 0 \<or> p + n \<le> length mem then out_all output (take n (drop p mem)) aux else None)"
proof (induction n arbitrary: p aux)
  case (Suc n)
  show ?case
  proof (cases "p < length mem")
    case True
    then have "drop p mem = mem ! p # drop (Suc p) mem" by (rule Cons_nth_drop_Suc [symmetric])
    with True Suc show ?thesis by (auto split: bind_split)
  next
    case False
    then show ?thesis by (simp add: idx_get_def)
  qed
qed simp

text \<open>The digits of a number, the least significant first.\<close>

function number :: "flag set \<Rightarrow> integer_base \<Rightarrow> nat \<Rightarrow> nat \<Rightarrow> u8 list" where
  "number fl b cnt v = (
     if v = 0 \<or> base b < 2 then []
     else (if GROUP \<in> fl \<and> 0 < cnt \<and> cnt mod group b = 0 then [44] else []) @
       digits b ! (v mod base b) # number fl b (cnt + 1) (v div base b))"
  by pat_completeness auto
termination by (relation "measure (\<lambda>(fl, b, cnt, v). v)") auto

declare number.simps [simp del]

lemma number_length: "v < base b ^ k \<Longrightarrow> length (number fl b cnt v) \<le> 2 * k"
proof (induction k arbitrary: cnt v)
  case (Suc k)
  have "length (number fl b (cnt + 1) (v div base b)) \<le> 2 * k"
    using Suc.prems by (intro Suc.IH) (simp add: less_mult_imp_div_less mult.commute)
  then show ?case by (subst number.simps) auto
qed (simp add: number.simps)

lemma take_update_end: "cp < length buf \<Longrightarrow> take (Suc cp) (buf[cp := c]) = take cp buf @ [c]"
  by (simp add: take_Suc_conv_app_nth)

lemma int_digits_eq:
  assumes "2 \<le> base b" "length (digits b) = base b" "cp + length (number fl b cnt v) \<le> length buf"
  shows "\<exists>buf'. int_digits fl b buf cp cnt v = Some (buf', cp + length (number fl b cnt v)) \<and> length buf' = length buf \<and>
    take (cp + length (number fl b cnt v)) buf' = take cp buf @ number fl b cnt v"
  using assms(3)
proof (induction v arbitrary: buf cp cnt rule: less_induct)
  case (less v)
  show ?case
  proof (cases "v = 0")
    case True
    then show ?thesis by (simp add: int_digits.simps number.simps)
  next
    case False
    define comma where "comma = (GROUP \<in> fl \<and> 0 < cnt \<and> cnt mod group b = 0)"
    define cp' where "cp' = (if comma then cp + 1 else cp)"
    define d where "d = digits b ! (v mod base b)"
    define buf1 where "buf1 = (if comma then buf[cp := 44] else buf)[cp' := d]"
    let ?r = "number fl b (cnt + 1) (v div base b)"
    have n: "number fl b cnt v = (if comma then [44] else []) @ d # ?r"
      using False assms(1) unfolding comma_def d_def by (subst number.simps) auto
    then have l: "length (number fl b cnt v) + cp = cp' + 1 + length ?r" by (simp add: cp'_def)
    have c: "cp' < length buf" using less.prems l by linarith
    have t: "take (cp' + 1) buf1 = take cp buf @ (if comma then [44] else []) @ [d]"
      using c by (auto simp: buf1_def cp'_def take_Suc_conv_app_nth nth_append)
    have "int_digits fl b buf cp cnt v = int_digits fl b buf1 (cp' + 1) (cnt + 1) (v div base b)"
      using False c assms by (subst int_digits.simps) (simp add: Let_def comma_def [symmetric] cp'_def buf1_def d_def)
    moreover have "v div base b < v" using False assms(1) by simp
    moreover have "cp' + 1 + length ?r \<le> length buf1" using l less.prems by (simp add: buf1_def)
    ultimately obtain buf' where "int_digits fl b buf cp cnt v = Some (buf', cp' + 1 + length ?r)" "length buf' = length buf1"
      "take (cp' + 1 + length ?r) buf' = take (cp' + 1) buf1 @ ?r" using less.IH by metis
    moreover have "length buf1 = length buf" "cp + length (number fl b cnt v) = cp' + 1 + length ?r" using l by (simp_all add: buf1_def)
    moreover have "take (cp' + 1) buf1 @ ?r = take cp buf @ number fl b cnt v" unfolding t n by simp
    ultimately show ?thesis by metis
  qed
qed

lemma zero_digits_eq:
  assumes "cp < length buf"
  shows "\<exists>buf' k. zero_digits buf cp p = (buf', cp + k) \<and> k = min (nat p) (length buf - 1) - cp \<and> length buf' = length buf \<and>
    take (cp + k) buf' = take cp buf @ replicate k 48"
  using assms
proof (induction buf cp p rule: zero_digits.induct)
  case (1 buf cp p)
  show ?case
  proof (cases "int cp < p \<and> cp < length buf - 1")
    case True
    then obtain buf' k where r: "zero_digits (buf[cp := 48]) (cp + 1) p = (buf', cp + 1 + k)" "k = min (nat p) (length buf - 1) - (cp + 1)"
      "length buf' = length buf" "take (cp + 1 + k) buf' = take (cp + 1) (buf[cp := 48]) @ replicate k 48"
      using 1 by fastforce
    have t: "take (cp + 1) (buf[cp := 48]) = take cp buf @ [48]" using 1(2) by (simp add: take_update_end)
    have "zero_digits buf cp p = zero_digits (buf[cp := 48]) (cp + 1) p" using True by (subst zero_digits.simps) simp
    then have "zero_digits buf cp p = (buf', cp + (k + 1))" using r(1) by simp
    moreover have "take (cp + (k + 1)) buf' = take cp buf @ replicate (k + 1) 48" using r(4) t by simp
    moreover have "k + 1 = min (nat p) (length buf - 1) - cp" using True r(2) by linarith
    ultimately show ?thesis using r(3) by blast
  next
    case False
    then show ?thesis using 1(2) by (subst zero_digits.simps) auto
  qed
qed

text \<open>The text of an integer conversion.\<close>

definition integer_digits :: "nat \<Rightarrow> integer_base \<Rightarrow> printf_conversion \<Rightarrow> u8 list" where
  "integer_digits v b c = (
     let ds = number (flags c) b 0 v;
         ds = ds @ replicate (min (nat (if precision c < 0 then 1 else precision c)) 63 - length ds) 48 in
     if POUND \<in> flags c \<and> base b = 8 \<and> (ds = [] \<or> last ds \<noteq> 48) then ds @ [48] else ds)"

definition sign_text :: "bool \<Rightarrow> bool \<Rightarrow> flag set \<Rightarrow> u8 list" where
  "sign_text is_signed negative fl = (let sign = sign_char is_signed negative fl in if sign \<noteq> 0 then [sign] else [])"

definition prefix_text :: "nat \<Rightarrow> integer_base \<Rightarrow> flag set \<Rightarrow> u8 list" where
  "prefix_text v b fl = (if POUND \<in> fl \<and> v \<noteq> 0 \<and> xchar b \<noteq> 0 then [48, xchar b] else [])"

definition integer_text :: "nat \<Rightarrow> bool \<Rightarrow> bool \<Rightarrow> integer_base \<Rightarrow> printf_conversion \<Rightarrow> u8 list" where
  "integer_text v is_signed negative b c = (
     let ds = integer_digits v b c;
         sg = sign_text is_signed negative (flags c);
         xs = prefix_text v b (flags c);
         pad = nat (s32 (width c - int (length ds) - int (length xs) - int (length sg))) in
     (if MINUS \<notin> flags c \<and> ZERO \<notin> flags c then replicate pad 32 else []) @ sg @ xs @
     (if ZERO \<in> flags c then replicate pad 48 else []) @ rev ds @ (if MINUS \<in> flags c then replicate pad 32 else []))"

lemmas base_defs = base_d_def base_o_def base_x_def base_X_def ascii_def

lemma integer_bases:
  assumes "b \<in> {base_d, base_o, base_x, base_X}"
  shows "2 \<le> base b" "length (digits b) = base b" "8 \<le> base b"
  using assms by (auto simp: base_defs)

lemma integer_buffer:
  assumes "b \<in> {base_d, base_o, base_x, base_X}" and "v < 2 ^ 64"
  shows "\<exists>buf cp buf1 cp1. int_digits (flags c) b (replicate 64 0) 0 0 v = Some (buf, cp) \<and>
    zero_digits buf cp (if precision c < 0 then 1 else precision c) = (buf1, cp1) \<and> length buf1 = 64 \<and> cp1 < 64 \<and>
    take cp1 buf1 = (let ds = number (flags c) b 0 v in
      ds @ replicate (min (nat (if precision c < 0 then 1 else precision c)) 63 - length ds) 48)"
proof -
  note b = integer_bases [OF assms(1)]
  let ?ds = "number (flags c) b 0 v" and ?p = "if precision c < 0 then 1 else precision c"
  have "(2 :: nat) ^ 64 \<le> 8 ^ 22" by simp
  also have "\<dots> \<le> base b ^ 22" using b(3) by (rule power_mono) simp
  finally have n: "length ?ds \<le> 44" using number_length [of v b 22] assms(2) by simp
  obtain buf where buf: "int_digits (flags c) b (replicate 64 0) 0 0 v = Some (buf, length ?ds)" "length buf = 64" "take (length ?ds) buf = ?ds"
    using int_digits_eq [OF b(1,2), of 0 "flags c" 0 v "replicate 64 0"] n by fastforce
  obtain buf1 k where z: "zero_digits buf (length ?ds) ?p = (buf1, length ?ds + k)" "k = min (nat ?p) 63 - length ?ds"
    "length buf1 = 64" "take (length ?ds + k) buf1 = ?ds @ replicate k 48"
    using zero_digits_eq [of "length ?ds" buf ?p] n buf(2,3) by auto
  have "length ?ds + k < 64" using z(2) n by linarith
  then show ?thesis unfolding Let_def using buf(1) z(1,3,4) unfolding z(2) by blast
qed

lemma if_out: "(if P then out_all output cs aux else Some aux) = out_all output (if P then cs else []) aux"
  by simp

lemma format_integer_eq:
  assumes "b \<in> {base_d, base_o, base_x, base_X}"
  shows "format_integer value is_signed negative b c output aux = out_all output (integer_text (unat value) is_signed negative b c) aux"
proof -
  have lt: "unat value < 2 ^ 64" using unsigned_less [of "value", where 'a = nat] by simp
  obtain buf cp buf1 cp1 where
    d: "int_digits (flags c) b (replicate 64 0) 0 0 (unat value) = Some (buf, cp)" and
    z: "zero_digits buf cp (if precision c < 0 then 1 else precision c) = (buf1, cp1)" "length buf1 = 64" "cp1 < 64" and
    t: "take cp1 buf1 = (let ds = number (flags c) b 0 (unat value) in
      ds @ replicate (min (nat (if precision c < 0 then 1 else precision c)) 63 - length ds) 48)" using integer_buffer [OF assms lt, of c] by blast
  define oct where "oct = (POUND \<in> flags c \<and> base b = 8 \<and> (cp1 = 0 \<or> buf1 ! (cp1 - 1) \<noteq> 48))"
  define buf2 cp2 where b2: "buf2 = (if oct then buf1[cp1 := 48] else buf1)" "cp2 = (if oct then cp1 + 1 else cp1)"
  have ne: "buf1 \<noteq> []" using z(2) by auto
  then have "cp1 \<noteq> 0 \<Longrightarrow> buf1 ! (cp1 - 1) = last (take cp1 buf1)" using z(2,3) last_conv_nth [of "take cp1 buf1"] by (auto simp: min_def)
  then have oc: "oct = (POUND \<in> flags c \<and> base b = 8 \<and> (take cp1 buf1 = [] \<or> last (take cp1 buf1) \<noteq> 48))"
    using ne by (auto simp: oct_def)
  have ds: "take cp2 buf2 = integer_digits (unat value) b c"
    unfolding integer_digits_def Let_def t [unfolded Let_def, symmetric] oc [symmetric] b2 using z(2,3) by (simp add: take_Suc_conv_app_nth)
  have l: "cp2 \<le> length buf2" "cp2 = length (integer_digits (unat value) b c)" unfolding ds [symmetric] using z(2,3) by (simp_all add: b2)
  have s: "(if oct then do { buf \<leftarrow> idx_set buf1 cp1 48; Some (buf, cp1 + 1) } else Some (buf1, cp1)) = Some (buf2, cp2)"
    using z(2,3) by (simp add: b2)
  define sg xs where sx: "sg = sign_text is_signed negative (flags c)" "xs = prefix_text (unat value) b (flags c)"
  define x where "x = (if POUND \<in> flags c \<and> value \<noteq> 0 then xchar b else 0)"
  have x: "(if x \<noteq> 0 then do { aux \<leftarrow> output 48 aux; output x aux } else Some aux) = out_all output xs aux"
    "(if x \<noteq> 0 then 2 else 0) = int (length xs)" for aux
    by (auto simp: sx prefix_text_def x_def unat_eq_zero)
  have g: "(if sign_char is_signed negative (flags c) \<noteq> 0 then output (sign_char is_signed negative (flags c)) aux else Some aux) = out_all output sg aux"
    "(if sign_char is_signed negative (flags c) \<noteq> 0 then 1 else 0) = int (length sg)" for aux
    by (auto simp: sx sign_text_def Let_def)
  show ?thesis
    unfolding format_integer_def Let_def d z(1) bind.bind_lunit prod.case oct_def [symmetric] s x_def [symmetric] x g
      output_dup_eq output_back_eq [OF l(1)] ds if_out integer_text_def sx [symmetric] out_all_append l(2) [symmetric] ..
qed

lemma format_string_eq:
  "format_string mem p n c output aux =
    (if nat n = 0 \<or> p + nat n \<le> length mem
     then out_all output ((if n < width c \<and> MINUS \<notin> flags c then replicate (nat (width c - n)) 32 else []) @
       take (nat n) (drop p mem) @ (if n < width c \<and> MINUS \<in> flags c then replicate (nat (width c - n)) 32 else [])) aux
     else None)"
proof (cases "nat n = 0 \<or> p + nat n \<le> length mem")
  case True
  show ?thesis
    unfolding format_string_def output_dup_eq output_chars_eq if_out out_all_append if_P [OF True] ..
next
  case False
  then show ?thesis by (simp add: format_string_def output_chars_eq split: bind_split)
qed

lemma convert_natural:
  "convert mem ch c args output aux = do {
     (cs, args) \<leftarrow> convert mem ch c args collect [];
     aux \<leftarrow> out_all output cs aux;
     Some (aux, args) }"
proof -
  have b: "(if ch = 111 then base_o else if ch = 117 then base_d else if ch = 120 then base_x else base_X) \<in> {base_d, base_o, base_x, base_X}"
    by simp
  note i = format_integer_eq [OF insertI1] format_integer_eq [of base_x, simplified] format_integer_eq [OF b] format_string_eq out_all_collect
  show ?thesis unfolding convert_def Let_def i by (simp split: option.split prod.split bind_split)
qed

end
