(* ===== verification/Stdio_Props.thy ===== *)
theory Stdio_Props
  imports Stdio
begin

text \<open>
  The characters that the formatted output of lib/stdio.c produces do not depend on the output function; this gives what
  \<^verbatim>\<open>vsnprintf\<close> leaves in its buffer, and that what \<^verbatim>\<open>printf\<close> writes for an integer is what \<^verbatim>\<open>atoi\<close> reads.
\<close>

section \<open>The format string\<close>

text \<open>The steps of \<^verbatim>\<open>__vprintf\<close>.\<close>

lemma vprintf_end: "idx_get mem f = Some 0 \<Longrightarrow> u_vprintf mem f args output aux = Some aux"
  by (subst u_vprintf.simps) simp

lemma vprintf_char:
  "idx_get mem f = Some ch \<Longrightarrow> ch \<noteq> 0 \<Longrightarrow> ch \<noteq> 37 \<Longrightarrow>
    u_vprintf mem f args output aux = do { aux \<leftarrow> out_all output [ch] aux; u_vprintf mem (f + 1) args output aux }"
  by (subst u_vprintf.simps) simp

lemma vprintf_percent:
  "idx_get mem f = Some 37 \<Longrightarrow> idx_get mem (f + 1) = Some 37 \<Longrightarrow>
    u_vprintf mem f args output aux = do { aux \<leftarrow> out_all output [37] aux; u_vprintf mem (f + 1 + 1) args output aux }"
  by (subst u_vprintf.simps) simp

lemma vprintf_convert:
  "idx_get mem f = Some 37 \<Longrightarrow> idx_get mem (f + 1) = Some ch \<Longrightarrow> ch \<noteq> 37 \<Longrightarrow>
    parse_conversion mem (f + 1) args = Some (f', c, args') \<Longrightarrow> idx_get mem f' = Some ch' \<Longrightarrow> supported ch' \<Longrightarrow>
    u_vprintf mem f args output aux = do {
      (aux, args) \<leftarrow> convert mem ch' c args' output aux;
      u_vprintf mem (f' + 1) args output aux }"
  by (subst u_vprintf.simps) simp

lemma vprintf_unsupported:
  "idx_get mem f = Some 37 \<Longrightarrow> idx_get mem (f + 1) = Some ch \<Longrightarrow> ch \<noteq> 37 \<Longrightarrow>
    parse_conversion mem (f + 1) args = Some (f', c, args') \<Longrightarrow> idx_get mem f' = Some ch' \<Longrightarrow> \<not> supported ch' \<Longrightarrow>
    u_vprintf mem f args output aux = do {
      aux \<leftarrow> u_vprintf (lit (unsupported_text ch')) 1 [scast ch'] output aux;
      u_vprintf mem (f' + 1) args' output aux }"
  by (subst u_vprintf.simps) simp

definition printf_text :: "memory \<Rightarrow> addr \<Rightarrow> u32 list \<Rightarrow> u8 list option" where
  "printf_text mem format args = u_vprintf mem format args collect []"

definition emits :: "'x itself \<Rightarrow> memory \<Rightarrow> addr \<Rightarrow> u32 list \<Rightarrow> u8 list \<Rightarrow> bool" where
  "emits T mem f args cs \<longleftrightarrow> (\<forall>output (aux :: 'x). u_vprintf mem f args output aux = out_all output cs aux)"

lemma emits_then:
  assumes "\<And>output (aux :: 'x). u_vprintf mem f args output aux = do { aux \<leftarrow> out_all output cs aux; u_vprintf mem' f' args' output aux }"
    and "emits TYPE('x) mem' f' args' ds"
  shows "emits TYPE('x) mem f args (cs @ ds)"
  using assms unfolding emits_def out_all_append by simp

lemma vprintf_natural:
  assumes "u_vprintf mem f args collect acc = Some y"
  shows "\<exists>cs. y = acc @ cs \<and> emits TYPE('x) mem f args cs"
proof -
  let ?P = "\<lambda>mem f args (snk :: u8 list sink) acc y. snk = collect \<longrightarrow> (\<exists>cs. y = acc @ cs \<and> emits TYPE('x) mem f args cs)"
  have "?P mem f args collect acc y"
  proof (rule u_vprintf.raw_induct [where P = ?P, OF _ assms], intro impI)
    fix vp :: "memory \<Rightarrow> addr \<Rightarrow> u32 list \<Rightarrow> u8 list sink \<Rightarrow> u8 list \<Rightarrow> u8 list option"
    fix mem f args acc y and snk :: "u8 list sink"
    assume IH: "\<And>mem f args snk acc y. vp mem f args snk acc = Some y \<Longrightarrow> snk = collect \<longrightarrow> (\<exists>cs. y = acc @ cs \<and> emits TYPE('x) mem f args cs)"
    note IH' = IH [rule_format, OF _ refl]
    assume r: "idx_get mem f \<bind> (\<lambda>ch. if ch = 0 then Some acc else if ch \<noteq> 37 then snk ch acc \<bind> vp mem (f + 1) args snk
        else let format = f + 1 in idx_get mem format \<bind> (\<lambda>ch. if ch = 37 then snk 37 acc \<bind> vp mem (format + 1) args snk
          else parse_conversion mem format args \<bind> (\<lambda>(format, c, args). idx_get mem format \<bind> (\<lambda>ch.
            if supported ch then convert mem ch c args snk acc \<bind> (\<lambda>(aux, args). vp mem (format + 1) args snk aux)
            else vp (lit (unsupported_text ch)) 1 [scast ch] snk acc \<bind> vp mem (format + 1) args snk)))) = Some y"
    assume snk: "snk = collect"
    from r obtain ch where ch: "idx_get mem f = Some ch" by (auto simp: bind_Some_iff)
    have "ch = 37 \<Longrightarrow> \<exists>ch1. idx_get mem (f + 1) = Some ch1 \<and> (ch1 \<noteq> 37 \<longrightarrow>
        (\<exists>f' c args' ch'. parse_conversion mem (f + 1) args = Some (f', c, args') \<and> idx_get mem f' = Some ch'))"
      using r unfolding ch by (fastforce simp: bind_Some_iff Let_def split: if_splits)
    then consider "ch = 0" | "ch \<noteq> 0" "ch \<noteq> 37" | "ch = 37" "idx_get mem (f + 1) = Some 37"
      | ch1 f' c args' ch' where "ch = 37" "idx_get mem (f + 1) = Some ch1" "ch1 \<noteq> 37"
        "parse_conversion mem (f + 1) args = Some (f', c, args')" "idx_get mem f' = Some ch'"
      by metis
    then show "\<exists>cs. y = acc @ cs \<and> emits TYPE('x) mem f args cs"
    proof cases
      case 1
      then have "y = acc @ []" using r ch by simp
      moreover have "emits TYPE('x) mem f args []" by (simp add: emits_def vprintf_end [OF ch [unfolded 1]])
      ultimately show ?thesis by blast
    next
      case 2
      then have "vp mem (f + 1) args collect (acc @ [ch]) = Some y" using r ch snk by (simp add: collect_def)
      from IH' [OF this] obtain cs where "y = acc @ [ch] @ cs" "emits TYPE('x) mem (f + 1) args cs" by auto
      with emits_then [OF vprintf_char [OF ch 2]] show ?thesis by blast
    next
      case 3
      then have "vp mem (f + 1 + 1) args collect (acc @ [37]) = Some y" using r ch snk by (simp add: collect_def)
      from IH' [OF this] obtain cs where "y = acc @ [37] @ cs" "emits TYPE('x) mem (f + 1 + 1) args cs" by auto
      with emits_then [OF vprintf_percent [OF ch [unfolded 3(1)] 3(2)]] show ?thesis by blast
    next
      case 4
      show ?thesis
      proof (cases "supported ch'")
        case True
        obtain x args2 where x: "convert mem ch' c args' collect acc = Some (x, args2)" "vp mem (f' + 1) args2 collect x = Some y"
          using r snk 4 True unfolding ch by (auto simp: bind_Some_iff Let_def)
        then obtain ds where cv: "convert mem ch' c args' collect [] = Some (ds, args2)" "vp mem (f' + 1) args2 collect (acc @ ds) = Some y"
          using convert_natural [of mem ch' c args' collect acc] by (auto simp: bind_Some_iff)
        from IH' [OF cv(2)] obtain cs where cs: "y = acc @ ds @ cs" "emits TYPE('x) mem (f' + 1) args2 cs" by auto
        have "u_vprintf mem f args snk aux = do { aux \<leftarrow> out_all snk ds aux; u_vprintf mem (f' + 1) args2 snk aux }" for snk and aux :: 'x
          unfolding vprintf_convert [OF ch [unfolded 4(1)] 4(2-5) True] convert_natural [of mem ch' c args' snk aux] cv(1)
          by (simp split: bind_split)
        from emits_then [OF this cs(2)] cs(1) show ?thesis by blast
      next
        case False
        obtain z where z: "vp (lit (unsupported_text ch')) 1 [scast ch'] collect acc = Some z" "vp mem (f' + 1) args' collect z = Some y"
          using r snk 4 False unfolding ch by (auto simp: bind_Some_iff Let_def)
        from IH' [OF z(1)] obtain ds where ds: "z = acc @ ds" "emits TYPE('x) (lit (unsupported_text ch')) 1 [scast ch'] ds" by auto
        from IH' [OF z(2)] obtain cs where cs: "y = acc @ ds @ cs" "emits TYPE('x) mem (f' + 1) args' cs" using ds(1) by auto
        have "u_vprintf mem f args snk aux = do { aux \<leftarrow> out_all snk ds aux; u_vprintf mem (f' + 1) args' snk aux }" for snk and aux :: 'x
          unfolding vprintf_unsupported [OF ch [unfolded 4(1)] 4(2-5) False] using ds(2) by (simp add: emits_def)
        from emits_then [OF this cs(2)] cs(1) show ?thesis by blast
      qed
    qed
  qed
  then show ?thesis by simp
qed

lemma printf_text_eq: "printf_text mem f args = Some cs \<Longrightarrow> u_vprintf mem f args output aux = out_all output cs aux"
  using vprintf_natural [of mem f args "[]" cs] by (auto simp: printf_text_def emits_def)

section \<open>Output to a buffer\<close>

lemma helper_all:
  assumes "m \<le> length buf" "n + length cs < 2 ^ 31"
  shows "out_all vsnprintf_helper cs (\<lparr>ptr = min n m, len = int n, max_length = int m\<rparr>, buf) =
    Some (\<lparr>ptr = min (n + length cs) m, len = int (n + length cs), max_length = int m\<rparr>, splice_bytes buf (min n m) (take (m - n) cs))"
  using assms
proof (induction cs arbitrary: n buf)
  case (Cons c cs)
  have s: "s32 (int n + 1) = int (Suc n)" using Cons.prems(2) by (simp add: s32_id)
  show ?case
  proof (cases "n < m")
    case True
    let ?b = "buf[n := c]"
    have "splice_bytes ?b (Suc n) (take (m - Suc n) cs) = splice_bytes buf n (take (m - n) (c # cs))"
      using True Cons.prems(1) by (simp add: take_Cons' splice_bytes_def take_Suc_conv_app_nth)
    moreover have "vsnprintf_helper c (\<lparr>ptr = n, len = int n, max_length = int m\<rparr>, buf) =
        Some (\<lparr>ptr = Suc n, len = int (Suc n), max_length = int m\<rparr>, ?b)"
      using True Cons.prems(1) s by (simp add: vsnprintf_helper_def)
    ultimately show ?thesis using Cons.IH [of ?b "Suc n"] Cons.prems True by (simp add: min_def)
  next
    case False
    then have mn: "min n m = m" "min (Suc n) m = m" "min (Suc (n + length cs)) m = m" by simp_all
    have "vsnprintf_helper c (\<lparr>ptr = m, len = int n, max_length = int m\<rparr>, buf) =
        Some (\<lparr>ptr = m, len = int (Suc n), max_length = int m\<rparr>, buf)"
      using False s by (simp add: vsnprintf_helper_def)
    then show ?thesis using Cons.IH [of buf "Suc n"] Cons.prems False by (simp add: mn)
  qed
qed simp

lemma vsnprintf_eq:
  assumes "printf_text mem format args = Some cs" and "length cs < 2 ^ 31" and "buf_size \<le> length buffer" and "buf_size \<le> 2 ^ 31"
  shows "vsnprintf buffer buf_size mem format args =
    Some (int (length cs), if buf_size = 0 then buffer else splice_bytes buffer 0 (take (buf_size - 1) cs @ [0]))"
proof -
  let ?m = "buf_size - 1"
  have m: "s32 (if 0 < buf_size then int buf_size - 1 else 0) = int ?m" using assms(4) by (simp add: s32_id of_nat_diff)
  have "?m \<le> length buffer" using assms(3) by simp
  from helper_all [OF this, of 0 cs] assms(2)
  have r: "u_vprintf mem format args vsnprintf_helper (\<lparr>ptr = 0, len = 0, max_length = int ?m\<rparr>, buffer) =
    Some (\<lparr>ptr = min (length cs) ?m, len = int (length cs), max_length = int ?m\<rparr>, splice_bytes buffer 0 (take ?m cs))"
    unfolding printf_text_eq [OF assms(1)] by simp
  show ?thesis
  proof (cases "buf_size = 0")
    case True
    then show ?thesis unfolding vsnprintf_def Let_def m r by simp
  next
    case False
    then have "(splice_bytes buffer 0 (take ?m cs)) [min (length cs) ?m := 0] = splice_bytes buffer 0 (take ?m cs @ [0])"
      using assms(3) by (simp add: splice_bytes_def list_update_append drop_eq_Nil2 Cons_nth_drop_Suc [symmetric] min.commute)
    moreover have "min (length cs) ?m < length (splice_bytes buffer 0 (take ?m cs))" using False assms(3) by auto
    ultimately show ?thesis unfolding vsnprintf_def Let_def m r using False by simp
  qed
qed

section \<open>Decimal integers\<close>

abbreviation plain :: printf_conversion where
  "plain \<equiv> \<lparr>flags = {}, width = 0, precision = - 1, ctype = Int_t\<rparr>"

lemma lit_d: "lit ''%d'' = [0, 37, 100, 0]"
  by (simp add: lit_def ascii_def)

lemma parse_d: "parse_conversion (lit ''%d'') 2 args = Some (2, plain, args)"
  by (simp add: lit_d parse_conversion_def parse_width_def parse_precision_def parse_type_def parse_flags.simps parse_number.simps
    isdigit_def schar_def Let_def)

lemma number_length1: "GROUP \<notin> fl \<Longrightarrow> v < base b ^ k \<Longrightarrow> length (number fl b cnt v) \<le> k"
proof (induction k arbitrary: cnt v)
  case (Suc k)
  have "length (number fl b (cnt + 1) (v div base b)) \<le> k"
    using Suc.prems by (intro Suc.IH) (simp_all add: less_mult_imp_div_less mult.commute)
  then show ?case using Suc.prems(1) by (subst number.simps) auto
qed (simp add: number.simps)

lemma base_d_simps [simp]: "base base_d = 10" "length (digits base_d) = 10"
  by (simp_all add: base_d_def ascii_def)

lemma base_d_digit:
  assumes "d < 10"
  shows "schar (digits base_d ! d) = 48 + int d"
proof -
  have "\<forall>d \<in> set [0 ..< 10]. schar (digits base_d ! d) = 48 + int d"
    by (simp add: upt_rec base_d_def ascii_def schar_def)
  with assms show ?thesis by simp
qed

lemma integer_digits_plain: "integer_digits v base_d plain = (if v = 0 then [48] else number {} base_d 0 v)"
  by (subst number.simps) (auto simp: integer_digits_def Let_def number.simps [of _ _ 0 v])

text \<open>The digits of \<open>v\<close> as \<^verbatim>\<open>atoi\<close> accumulates them, the most significant first and negated.\<close>

definition accumulate :: "int \<Rightarrow> u8 \<Rightarrow> int" where
  "accumulate value c = s32 (s32 (value * 10) - (schar c - 48))"

lemma digits_loop_append:
  assumes "\<forall>c \<in> set ds. isdigit (schar c)" "take (length ds) (drop s mem) = ds"
  shows "digits_loop mem s value = digits_loop mem (s + length ds) (foldl accumulate value ds)"
  using assms
proof (induction ds arbitrary: s "value")
  case (Cons d ds)
  have s: "s < length mem" using Cons.prems(2) by (cases "s < length mem") simp_all
  then have "drop s mem = mem ! s # drop (Suc s) mem" by (rule Cons_nth_drop_Suc [symmetric])
  then have d: "mem ! s = d" "take (length ds) (drop (Suc s) mem) = ds" using Cons.prems(2) by simp_all
  have "digits_loop mem s value = digits_loop mem (Suc s) (accumulate value d)"
    using s d(1) Cons.prems(1) by (subst digits_loop.simps) (simp add: accumulate_def)
  with Cons.IH [of "Suc s"] d(2) Cons.prems(1) show ?case by simp
qed simp

lemma number_digits: "\<forall>c \<in> set (number {} base_d cnt v). 48 \<le> schar c \<and> schar c \<le> 57"
proof (induction v arbitrary: cnt rule: less_induct)
  case (less v)
  show ?case
  proof (cases "v = 0")
    case False
    then have "\<forall>c \<in> set (number {} base_d (cnt + 1) (v div 10)). 48 \<le> schar c \<and> schar c \<le> 57" by (intro less) simp
    with False show ?thesis by (subst number.simps) (simp add: base_d_digit)
  qed (simp add: number.simps)
qed

lemma number_value: "v \<le> 2 ^ 31 \<Longrightarrow> foldl accumulate 0 (rev (number {} base_d cnt v)) = - int v"
proof (induction v arbitrary: cnt rule: less_induct)
  case (less v)
  show ?case
  proof (cases "v = 0")
    case False
    let ?q = "v div 10" and ?d = "v mod 10"
    have "foldl accumulate 0 (rev (number {} base_d (cnt + 1) ?q)) = - int ?q" using less.prems False by (intro less.IH) auto
    then have "foldl accumulate 0 (rev (number {} base_d cnt v)) = accumulate (- int ?q) (digits base_d ! ?d)"
      using False by (subst number.simps) simp
    also have "\<dots> = - int v"
    proof -
      have v: "int v = int ?q * 10 + int ?d" by (metis div_mult_mod_eq of_nat_add of_nat_mult of_nat_numeral)
      have "int v \<le> 2 ^ 31" using less.prems by simp
      with v have "s32 (- int ?q * 10) = - int ?q * 10" "s32 (- int ?q * 10 - int ?d) = - int ?q * 10 - int ?d"
        by (simp_all add: s32_id)
      with v show ?thesis by (simp add: accumulate_def base_d_digit)
    qed
    finally show ?thesis .
  qed (simp add: number.simps)
qed

lemma integer_digits_value:
  assumes "v \<le> 2 ^ 31"
  shows "foldl accumulate 0 (rev (integer_digits v base_d plain)) = - int v"
    and "\<forall>c \<in> set (integer_digits v base_d plain). 48 \<le> schar c \<and> schar c \<le> 57"
    and "integer_digits v base_d plain \<noteq> []" and "length (integer_digits v base_d plain) \<le> 10"
proof -
  have "schar 48 = 48" by (simp add: schar_def)
  then show "foldl accumulate 0 (rev (integer_digits v base_d plain)) = - int v"
    "\<forall>c \<in> set (integer_digits v base_d plain). 48 \<le> schar c \<and> schar c \<le> 57"
    using number_value [OF assms] number_digits by (simp_all add: integer_digits_plain accumulate_def s32_id)
  show "integer_digits v base_d plain \<noteq> []" by (simp add: integer_digits_plain number.simps)
  show "length (integer_digits v base_d plain) \<le> 10" using number_length1 [of "{}" v base_d 10 0] assms by (simp add: integer_digits_plain)
qed

definition decimal :: "int \<Rightarrow> u8 list" where
  "decimal i = (if i < 0 then [45] else []) @ rev (integer_digits (nat \<bar>i\<bar>) base_d plain)"

lemma integer_text_plain:
  assumes "v \<le> 2 ^ 31"
  shows "integer_text v True neg base_d plain = (if neg then [45] else []) @ rev (integer_digits v base_d plain)"
proof -
  note d = integer_digits_value(4) [OF assms]
  have "sign_text True neg {} = (if neg then [45] else [])" by (simp add: sign_text_def sign_char_def)
  moreover have "nat (s32 (0 - int (length (integer_digits v base_d plain)) - 0 - int (length (if neg then [45 :: u8] else [])))) = 0"
    using d by (simp add: s32_id)
  ultimately show ?thesis by (simp add: integer_text_def Let_def prefix_text_def)
qed

lemma printf_d: "printf_text (lit ''%d'') 1 [v] = Some (decimal (sint v))"
proof -
  have r: "- (2 ^ 31) \<le> sint v" "sint v < 2 ^ 31" using sint_range_size [of v] by (simp_all add: word_size)
  let ?a = "nat \<bar>sint v\<bar>"
  have "?a \<le> 2 ^ 31" using r by (simp add: nat_le_iff abs_le_iff)
  have "unat (word_of_int (if sint v < 0 then - sint v else sint v) :: u64) = ?a" using r by (simp add: unat_eq_nat_uint uint_word_of_int)
  then have "convert (lit ''%d'') 100 plain [v] collect [] = Some (decimal (sint v), [])"
    using integer_text_plain [OF \<open>?a \<le> 2 ^ 31\<close>, of "sint v < 0"]
    by (simp add: convert_def signed_arg_def va_int_def format_integer_eq decimal_def)
  moreover have "supported 100" by (simp add: supported_def)
  moreover have "u_vprintf (lit ''%d'') 3 [] collect cs = Some cs" for cs by (rule vprintf_end) (simp add: lit_d)
  moreover have p: "parse_conversion (lit ''%d'') (1 + 1) [v] = Some (2, plain, [v])" unfolding one_add_one by (rule parse_d)
  ultimately show ?thesis
    using vprintf_convert [OF _ _ _ p, of 100 100 collect "[]"] by (simp add: printf_text_def lit_d)
qed

lemma digit_char: "48 \<le> schar c \<Longrightarrow> \<not> isspace (uint c) \<and> c \<noteq> 43 \<and> c \<noteq> 45"
proof -
  assume s: "48 \<le> schar c"
  have e: "schar (word_of_int i) = i" if "i \<in> {9, 10, 11, 12, 13, 32, 43, 45}" for i using that by (auto simp: schar_def)
  have "uint c \<notin> {9, 10, 11, 12, 13, 32, 43, 45}"
  proof
    assume "uint c \<in> {9, 10, 11, 12, 13, 32, 43, 45}"
    from this e [OF this] s show False by auto
  qed
  then show ?thesis by (auto simp: isspace_def)
qed

lemma digits_loop_end:
  assumes "take (length ds + 1) (drop s mem) = ds @ [0]" "\<forall>c \<in> set ds. 48 \<le> schar c \<and> schar c \<le> 57"
  shows "digits_loop mem s 0 = Some (foldl accumulate 0 ds)"
proof -
  have "take (length ds) (drop s mem) = ds" using arg_cong [OF assms(1), of "take (length ds)"] by simp
  then have "digits_loop mem s 0 = digits_loop mem (s + length ds) (foldl accumulate 0 ds)"
    using assms(2) by (intro digits_loop_append) (auto simp: isdigit_def)
  moreover have "s + length ds < length mem" using arg_cong [OF assms(1), of length] by simp
  moreover from this have "mem ! (s + length ds) = 0" using arg_cong [OF assms(1), of "\<lambda>xs. xs ! length ds"] by simp
  ultimately show ?thesis by (simp add: digits_loop.simps [of mem "s + length ds"] isdigit_def schar_def)
qed

lemma atoi_decimal:
  assumes "- (2 ^ 31) \<le> i" "i < 2 ^ 31" "take (length (decimal i) + 1) (drop s mem) = decimal i @ [0]" "s \<noteq> NULL"
  shows "atoi mem s = Some i"
proof -
  let ?ds = "rev (integer_digits (nat \<bar>i\<bar>) base_d plain)"
  have "nat \<bar>i\<bar> \<le> 2 ^ 31" using assms(1,2) by (simp add: nat_le_iff abs_le_iff)
  note d = integer_digits_value [OF this]
  have s: "s < length mem" using arg_cong [OF assms(3), of length] by simp
  then have m: "drop s mem = mem ! s # drop (Suc s) mem" by (rule Cons_nth_drop_Suc [symmetric])
  show ?thesis
  proof (cases "i < 0")
    case True
    then have "mem ! s = 45" "take (length ?ds + 1) (drop (Suc s) mem) = ?ds @ [0]" using assms(3) m by (simp_all add: decimal_def)
    then show ?thesis using s assms(4) True d(1) digits_loop_end [of ?ds "Suc s" mem] d(2)
      by (simp add: atoi_def skip_space.simps [of mem s] isspace_def)
  next
    case False
    then have t: "take (length ?ds + 1) (drop s mem) = ?ds @ [0]" using assms(3) by (simp add: decimal_def)
    then have "mem ! s = hd ?ds" using m d(3) by (metis append_is_Nil_conv hd_append2 list.sel(1) rev_is_Nil_conv take_Suc_Cons Suc_eq_plus1)
    then have "mem ! s \<in> set ?ds" using d(3) by (metis hd_in_set rev_is_Nil_conv)
    then have "\<not> isspace (uint (mem ! s)) \<and> mem ! s \<noteq> 43 \<and> mem ! s \<noteq> 45" using d(2) digit_char by simp
    then show ?thesis using s assms(2,4) False d(1) digits_loop_end [OF t] d(2)
      by (simp add: atoi_def skip_space.simps [of mem s] s32_id)
  qed
qed

lemma decimal_length: "- (2 ^ 31) \<le> i \<Longrightarrow> i < 2 ^ 31 \<Longrightarrow> length (decimal i) \<le> 11"
  unfolding decimal_def using integer_digits_value(4) [of "nat \<bar>i\<bar>"] by (cases "i < 0") (simp_all add: nat_le_iff)

lemma integer_digits_length:
  assumes "b \<in> {base_d, base_o, base_x, base_X}"
  shows "length (integer_digits (unat (value :: u64)) b c) \<le> 64"
proof -
  let ?ds = "let ds = number (flags c) b 0 (unat value) in
      ds @ replicate (min (nat (if precision c < 0 then 1 else precision c)) 63 - length ds) 48"
  have "unat value < 2 ^ 64" using unsigned_less [of "value", where 'a = nat] by simp
  then obtain cp1 and buf1 :: "u8 list" where "cp1 < 64" "take cp1 buf1 = ?ds" using integer_buffer [OF assms, of "unat value" c] by blast
  then have "length ?ds < 64" by (metis le_less_trans length_take min.cobounded2)
  then show ?thesis by (simp add: integer_digits_def Let_def)
qed

text \<open>A negative width given by an argument sets the flag \<open>MINUS\<close> after it has cleared \<open>ZERO\<close>, and the field is padded on
  both sides.\<close>

lemma negative_width_pads_twice: "printf_text (lit ''%0*d'') 1 [- 3, 7] = Some (ascii ''007  '')"
proof -
  let ?c = "\<lparr>flags = {MINUS, ZERO}, width = 3, precision = - 1, ctype = Int_t\<rparr>"
  have l: "lit ''%0*d'' = [0, 37, 48, 42, 100, 0]" by (simp add: lit_def ascii_def)
  have p: "parse_conversion (lit ''%0*d'') (1 + 1) [- 3, 7] = Some (4, ?c, [7])"
    by (simp add: l parse_conversion_def parse_width_def parse_precision_def parse_type_def parse_flags.simps parse_number.simps
      isdigit_def schar_def Let_def va_int_def s32_def)
  have t: "integer_text 7 True False base_d ?c = ascii ''007  ''"
    by (simp add: integer_text_def integer_digits_def sign_text_def sign_char_def prefix_text_def number.simps base_d_def ascii_def Let_def s32_def
      numeral_2_eq_2)
  then have "convert (lit ''%0*d'') 100 ?c [7] collect [] = Some (ascii ''007  '', [])"
    by (simp add: convert_def signed_arg_def va_int_def format_integer_eq)
  moreover have "u_vprintf (lit ''%0*d'') 5 [] collect cs = Some cs" for cs by (rule vprintf_end) (simp add: l)
  ultimately show ?thesis using vprintf_convert [OF _ _ _ p, of 48 100 collect "[]"] by (simp add: printf_text_def l supported_def)
qed

section \<open>Properties\<close>



text \<open>C25: \<^verbatim>\<open>vsnprintf\<close> respects its bound. Whatever characters the format and the arguments produce, it stores the first
  \<open>buf_size - 1\<close> of them and a null terminator, nothing for a size of 0, writes no other byte of the
  buffer, and returns the number of characters that the full text has.\<close>

theorem vsnprintf_bounded:
  assumes "printf_text mem format args = Some cs" and "length cs < 2 ^ 31" and "buf_size \<le> length buffer" and "buf_size \<le> 2 ^ 31"
  shows "vsnprintf buffer buf_size mem format args =
    Some (int (length cs), if buf_size = 0 then buffer else splice_bytes buffer 0 (take (buf_size - 1) cs @ [0]))"
  by (rule vsnprintf_eq [OF assms])

theorem vsnprintf_bounded_witness:
  "vsnprintf (replicate 5 255) 4 (lit ''%d'') 1 [- 12345] =
    Some (int (length (decimal (- 12345))), splice_bytes (replicate 5 255) 0 (take 3 (decimal (- 12345)) @ [0]))"
  using vsnprintf_bounded [OF printf_d, of "- 12345" 4 "replicate 5 255"] decimal_length [of "- 12345"] by simp

text \<open>C24: Printing and parsing. For every 32-bit integer, the text that \<^verbatim>\<open>snprintf\<close> writes with the format \<^verbatim>\<open>%d\<close> into a buffer of
  at least 12 bytes is a string that \<^verbatim>\<open>atoi\<close> reads back as the same integer.\<close>

theorem print_parse:
  assumes "12 \<le> n" and "n \<le> length buffer" and "n \<le> 2 ^ 31"
  shows "\<exists>buffer'. snprintf buffer n (lit ''%d'') 1 [v] = Some (int (length (decimal (sint v))), buffer') \<and>
    length buffer' = length buffer \<and> atoi (0 # buffer') 1 = Some (sint v)"
proof -
  have r: "- (2 ^ 31) \<le> sint v" "sint v < 2 ^ 31" using sint_range_size [of v] by (simp_all add: word_size)
  note l = decimal_length [OF r]
  let ?b = "splice_bytes buffer 0 (decimal (sint v) @ [0])"
  have t: "take (n - 1) (decimal (sint v)) = decimal (sint v)" using l assms(1) by simp
  have "snprintf buffer n (lit ''%d'') 1 [v] = Some (int (length (decimal (sint v))), ?b)"
    unfolding snprintf_def using vsnprintf_eq [OF printf_d [of v] _ assms(2,3)] l assms(1) t by simp
  moreover have "length ?b = length buffer" using l assms by simp
  moreover have "atoi (0 # ?b) 1 = Some (sint v)" using l assms by (intro atoi_decimal [OF r]) (simp_all add: splice_bytes_def)
  ultimately show ?thesis by blast
qed

theorem print_parse_witness:
  "\<exists>buffer'. snprintf (replicate 12 255) 12 (lit ''%d'') 1 [2 ^ 31] = Some (int (length (decimal (sint (2 ^ 31 :: u32)))), buffer') \<and>
    length buffer' = length (replicate 12 (255 :: u8)) \<and> atoi (0 # buffer') 1 = Some (sint (2 ^ 31 :: u32))"
  using print_parse [of 12 "replicate 12 255" "2 ^ 31"] by simp

end
