(* ===== verification/Directory.thy ===== *)
theory Directory
  imports Inode_Append Stdlib
begin

text \<open>
  Directories and the file system's interface: filesys/directory.c and filesys/filesys.c.

  A directory is a file of entries, each the 32 bytes of \<^verbatim>\<open>struct dir_entry\<close>: the sector of an inode (bytes 0 to 3),
  a name of up to 14 bytes and its terminator (4 to 18), the type (24 to 27) and the flag \<^verbatim>\<open>in_use\<close> (28). An
  entry that a routine reads stays such a list of bytes, and the name in it is compared and copied by the
  string library, in a memory that holds the other string in front of the entry. Names and paths passed
  by a caller are the bytes before their terminator.

  A \<^verbatim>\<open>struct dir\<close> is a value, a null pointer is \<open>None\<close>; the working directory of the running thread is an
  argument \<open>wd\<close>. As in the theory of inodes, \<open>wr\<close> is the routine that writes to a file.
\<close>

section \<open>Entries\<close>

abbreviation NAME_MAX :: nat where
  "NAME_MAX \<equiv> 14"

abbreviation IS_DIR :: int where
  "IS_DIR \<equiv> 1"

record dir =
  dinode :: addr
  dpos :: int

type_synonym dir_entry = "u8 list"

definition stack_bytes :: "'m fs \<Rightarrow> nat \<Rightarrow> u8 list" where
  "stack_bytes fs n = map (\<lambda>k. word_of_nat (junk fs k)) [0..<n]"

definition ent_sector :: "dir_entry \<Rightarrow> nat" where
  "ent_sector e = dec32 (take 4 e)"

definition ent_type :: "dir_entry \<Rightarrow> int" where
  "ent_type e = s32 (int (dec32 (take 4 (drop 24 e))))"

definition ent_in_use :: "dir_entry \<Rightarrow> bool" where
  "ent_in_use e \<longleftrightarrow> e ! 28 \<noteq> 0"

definition name_cmp :: "u8 list \<Rightarrow> dir_entry \<Rightarrow> int option" where
  "name_cmp name e = strcmp (0 # name @ 0 # e) 1 (length name + 6)"

definition set_name :: "dir_entry \<Rightarrow> u8 list \<Rightarrow> dir_entry option" where
  "set_name e name = do {
     (_, mem) \<leftarrow> strlcpy (0 # name @ 0 # e) (length name + 6) 1 (NAME_MAX + 1);
     Some (drop (length name + 2) mem) }"

definition get_name :: "dir_entry \<Rightarrow> u8 list \<Rightarrow> u8 list option" where
  "get_name e buf = do {
     (_, mem) \<leftarrow> strlcpy (0 # buf @ e) 1 (length buf + 5) (NAME_MAX + 1);
     Some (take (length buf) (drop 1 mem)) }"

section \<open>Opening and closing directories\<close>

definition dir_create :: "'m writer \<Rightarrow> 'm fs \<Rightarrow> nat \<Rightarrow> nat \<Rightarrow> (bool \<times> 'm fs) option" where
  "dir_create wr fs sector entry_cnt = inode_create wr fs sector (s32 (int (entry_cnt * 32)))"

definition dir_open :: "'m writer \<Rightarrow> 'm fs \<Rightarrow> addr \<Rightarrow> (dir option \<times> 'm fs) option" where
  "dir_open wr fs i = (
     let (ok, fs) = fs_malloc fs in
     if i \<noteq> NULL \<and> ok then Some (Some \<lparr>dinode = i, dpos = 0\<rparr>, fs)
     else do { fs \<leftarrow> inode_close wr fs i; Some (None, fs) })"

definition dir_open_root :: "'m writer \<Rightarrow> 'm fs \<Rightarrow> (dir option \<times> 'm fs) option" where
  "dir_open_root wr fs = do { (i, fs) \<leftarrow> inode_open fs ROOT_DIR_SECTOR; dir_open wr fs i }"

definition dir_reopen :: "'m writer \<Rightarrow> 'm fs \<Rightarrow> dir \<Rightarrow> (dir option \<times> 'm fs) option" where
  "dir_reopen wr fs d = do { (i, fs) \<leftarrow> inode_reopen fs (dinode d); dir_open wr fs i }"

definition dir_close :: "'m writer \<Rightarrow> 'm fs \<Rightarrow> dir option \<Rightarrow> 'm fs option" where
  "dir_close wr fs d = (case d of None \<Rightarrow> Some fs | Some d \<Rightarrow> inode_close wr fs (dinode d))"

definition dir_get_inode :: "dir \<Rightarrow> addr" where
  "dir_get_inode d = dinode d"

text \<open>Without a working directory the root is opened twice, and the second directory is lost.\<close>

definition dir_open_current :: "'m writer \<Rightarrow> dir option \<Rightarrow> 'm fs \<Rightarrow> (dir option \<times> 'm fs) option" where
  "dir_open_current wr wd fs = (case wd of
       None \<Rightarrow> do {
         (d, fs) \<leftarrow> dir_open_root wr fs;
         (_, fs) \<leftarrow> dir_open_root wr fs;
         Some (d, fs) }
     | Some w \<Rightarrow> do {
         (i, fs) \<leftarrow> inode_reopen fs (dinode w);
         dir_open wr fs i })"

section \<open>Searching\<close>

partial_function (option) lookup_loop :: "'m fs \<Rightarrow> addr \<Rightarrow> u8 list \<Rightarrow> dir_entry \<Rightarrow> nat \<Rightarrow> ((dir_entry \<times> nat) option \<times> 'm fs) option" where
  "lookup_loop fs i name e ofs = do {
     (n, e, fs) \<leftarrow> inode_read_at fs i e 32 (s32 (int ofs));
     if n = 32 then do {
       hit \<leftarrow> (if ent_in_use e then do { c \<leftarrow> name_cmp name e; Some (c = 0) } else Some False);
       if hit then Some (Some (e, ofs), fs) else lookup_loop fs i name e (sz (ofs + 32)) }
     else Some (None, fs) }"

definition lookup :: "'m fs \<Rightarrow> dir \<Rightarrow> u8 list \<Rightarrow> ((dir_entry \<times> nat) option \<times> 'm fs) option" where
  "lookup fs d name = lookup_loop fs (dinode d) name (stack_bytes fs 32) 0"

definition dir_lookup :: "'m fs \<Rightarrow> dir \<Rightarrow> u8 list \<Rightarrow> (addr \<times> 'm fs) option" where
  "dir_lookup fs d name = do {
     (r, fs) \<leftarrow> lookup fs d name;
     case r of None \<Rightarrow> Some (NULL, fs) | Some (e, ofs) \<Rightarrow> inode_open fs (ent_sector e) }"

section \<open>Adding and removing entries\<close>

partial_function (option) slot_loop :: "'m fs \<Rightarrow> addr \<Rightarrow> dir_entry \<Rightarrow> int \<Rightarrow> (dir_entry \<times> int \<times> 'm fs) option" where
  "slot_loop fs i e ofs = do {
     (n, e, fs) \<leftarrow> inode_read_at fs i e 32 ofs;
     if n = 32 \<and> ent_in_use e then slot_loop fs i e (s32 (ofs + 32)) else Some (e, ofs, fs) }"

definition dir_add :: "'m writer \<Rightarrow> 'm fs \<Rightarrow> dir \<Rightarrow> u8 list \<Rightarrow> nat \<Rightarrow> int \<Rightarrow> (bool \<times> 'm fs) option" where
  "dir_add wr fs d name inode_sector type = (
     if name = [] \<or> NAME_MAX < length name then Some (False, fs)
     else do {
       (r, fs) \<leftarrow> lookup fs d name;
       if r \<noteq> None then Some (False, fs)
       else do {
         (e, ofs, fs) \<leftarrow> slot_loop fs (dinode d) (stack_bytes fs 32) 0;
         let e = e[28 := 1];
         let e = splice_bytes e 24 (le32 (u32_of type));
         e \<leftarrow> set_name e name;
         let e = splice_bytes e 0 (le32 inode_sector);
         (n, fs) \<leftarrow> wr fs (dinode d) e 32 ofs;
         Some (n = 32, fs) } })"

partial_function (option) readdir_loop :: "'m fs \<Rightarrow> dir \<Rightarrow> dir_entry \<Rightarrow> u8 list \<Rightarrow> (bool \<times> u8 list \<times> dir \<times> 'm fs) option" where
  "readdir_loop fs d e name = do {
     (n, e, fs) \<leftarrow> inode_read_at fs (dinode d) e 32 (dpos d);
     if n = 32 then do {
       let d = d\<lparr>dpos := s32 (dpos d + 32)\<rparr>;
       c1 \<leftarrow> name_cmp [46] e;
       c2 \<leftarrow> (if c1 = 0 then Some 0 else name_cmp [46, 46] e);
       if c2 = 0 then readdir_loop fs d e name
       else if ent_in_use e then do { name \<leftarrow> get_name e name; Some (True, name, d, fs) }
       else readdir_loop fs d e name }
     else Some (False, name, d, fs) }"

definition dir_readdir :: "'m fs \<Rightarrow> dir \<Rightarrow> u8 list \<Rightarrow> (bool \<times> u8 list \<times> dir \<times> 'm fs) option" where
  "dir_readdir fs d name = readdir_loop fs d (stack_bytes fs 32) name"

text \<open>Whether the directory of an entry still holds files; the two lookups change nothing but a local variable.\<close>

definition dying_dir_full :: "'m writer \<Rightarrow> 'm fs \<Rightarrow> dir \<Rightarrow> dir_entry \<Rightarrow> (bool \<times> 'm fs) option" where
  "dying_dir_full wr fs d e = do {
     (i, fs) \<leftarrow> inode_open fs (ent_sector e);
     (dying, fs) \<leftarrow> dir_open wr fs i;
     dying \<leftarrow> dying;
     (full, _, dying, fs) \<leftarrow> dir_readdir fs dying (stack_bytes fs (NAME_MAX + 1));
     if full then do { fs \<leftarrow> dir_close wr fs (Some dying); Some (True, fs) }
     else do {
       (_, fs) \<leftarrow> lookup fs d [46];
       (_, fs) \<leftarrow> lookup fs d [46, 46];
       fs \<leftarrow> dir_close wr fs (Some dying);
       Some (False, fs) } }"

definition dir_remove :: "'m writer \<Rightarrow> 'm fs \<Rightarrow> dir \<Rightarrow> u8 list \<Rightarrow> (bool \<times> 'm fs) option" where
  "dir_remove wr fs d name = do {
     (r, fs) \<leftarrow> lookup fs d name;
     case r of
       None \<Rightarrow> Some (False, fs)
     | Some (e, ofs) \<Rightarrow> do {
         (full, fs) \<leftarrow> (if ent_type e = IS_DIR then dying_dir_full wr fs d e else Some (False, fs));
         if full then Some (False, fs)
         else do {
           (i, fs) \<leftarrow> inode_open fs (ent_sector e);
           if i = NULL then Some (False, fs)
           else do {
             (n, fs) \<leftarrow> wr fs (dinode d) (e[28 := 0]) 32 (s32 (int ofs));
             if n \<noteq> 32 then do { fs \<leftarrow> inode_close wr fs i; Some (False, fs) }
             else do {
               fs \<leftarrow> inode_remove fs i;
               fs \<leftarrow> inode_close wr fs i;
               Some (True, fs) } } } } }"

section \<open>Paths\<close>

text \<open>Copying a part of a path stops with \<open>Inl\<close> when the part is too long.\<close>

fun part_loop :: "u8 list \<Rightarrow> nat \<Rightarrow> u8 list \<Rightarrow> u8 list + u8 list \<times> nat \<times> u8 list" where
  "part_loop part dst [] = Inr (part, dst, [])"
| "part_loop part dst (c # src) =
     (if c = 47 then Inr (part, dst, c # src)
      else if dst < NAME_MAX then part_loop (part[dst := c]) (dst + 1) src
      else Inl part)"

definition get_next_part :: "u8 list \<Rightarrow> u8 list \<Rightarrow> int \<times> u8 list \<times> u8 list" where
  "get_next_part part srcp = (
     let src = dropWhile (\<lambda>c. c = 47) srcp in
     if src = [] then (0, part, srcp)
     else case part_loop part 0 src of
       Inl part \<Rightarrow> (-1, part, srcp)
     | Inr (part, dst, src) \<Rightarrow> (1, part[dst := 0], src))"

definition cstring_of :: "u8 list \<Rightarrow> u8 list option" where
  "cstring_of buf = (if 0 \<in> set buf then Some (takeWhile (\<lambda>c. c \<noteq> 0) buf) else None)"

text \<open>The loop over the parts of a path; \<open>own\<close> says that the current directory is the caller's, which stays open.\<close>

partial_function (option) path_loop :: "'m writer \<Rightarrow> 'm fs \<Rightarrow> bool \<Rightarrow> dir option \<Rightarrow> u8 list \<Rightarrow> u8 list \<Rightarrow> ((u8 list \<times> dir) option \<times> 'm fs) option" where
  "path_loop wr fs own now_dir file_name name = (
     let (r, file_name, name) = get_next_part file_name name in
     if r = 0 \<or> name = [] then do {
       tail_name \<leftarrow> cstring_of file_name;
       d \<leftarrow> now_dir;
       Some (Some (tail_name, d), fs) }
     else if r = -1 then Some (None, fs)
     else do {
       d \<leftarrow> now_dir;
       part \<leftarrow> cstring_of file_name;
       (i, fs) \<leftarrow> dir_lookup fs d part;
       if i = NULL then Some (None, fs)
       else do {
         fs \<leftarrow> (if own then Some fs else dir_close wr fs now_dir);
         (now_dir, fs) \<leftarrow> dir_open wr fs i;
         path_loop wr fs False now_dir file_name name } })"

definition find_path :: "'m writer \<Rightarrow> dir option \<Rightarrow> 'm fs \<Rightarrow> dir option \<Rightarrow> u8 list \<Rightarrow> ((u8 list \<times> dir) option \<times> 'm fs) option" where
  "find_path wr wd fs d name = do {
     (d, fs) \<leftarrow> (if d = None then dir_open_current wr wd fs else Some (d, fs));
     dd \<leftarrow> d;
     gone \<leftarrow> inode_removed fs (dinode dd);
     if gone then Some (None, fs)
     else if name = [47] then do {
       (r, fs) \<leftarrow> dir_open_root wr fs;
       r \<leftarrow> r;
       Some (Some ([46], r), fs) }
     else do {
       let abs_path = (name \<noteq> [] \<and> hd name = 47);
       (now_dir, fs) \<leftarrow> (if abs_path then dir_open_root wr fs else Some (d, fs));
       path_loop wr fs (\<not> abs_path) now_dir (stack_bytes fs (NAME_MAX + 1)) name } }"

text \<open>\<^verbatim>\<open>dir_getdirent\<close> ignores the result of \<^verbatim>\<open>find_path\<close>; after a failure it follows a pointer that was never set.\<close>

definition dir_getdirent :: "'m writer \<Rightarrow> dir option \<Rightarrow> 'm fs \<Rightarrow> dir option \<Rightarrow> u8 list \<Rightarrow> (dir_entry option \<times> 'm fs) option" where
  "dir_getdirent wr wd fs d name = do {
     let (ok1, fs) = fs_malloc fs;
     let (ok2, fs) = fs_malloc fs;
     (p, fs) \<leftarrow> find_path wr wd fs d name;
     (tail_name, now_dir) \<leftarrow> p;
     assertO ok2;
     (r, fs) \<leftarrow> lookup fs now_dir tail_name;
     case r of
       None \<Rightarrow> Some (None, fs)
     | Some (e, ofs) \<Rightarrow> do { assertO ok1; Some (Some e, fs) } }"

section \<open>The file system\<close>

definition filesys_create :: "'m writer \<Rightarrow> dir option \<Rightarrow> 'm fs \<Rightarrow> u8 list \<Rightarrow> int \<Rightarrow> int \<Rightarrow> (bool \<times> 'm fs) option" where
  "filesys_create wr wd fs name initial_size type = do {
     (d, fs) \<leftarrow> dir_open_current wr wd fs;
     (success, inode_sector, fs) \<leftarrow> (case d of
         None \<Rightarrow> Some (False, 0, fs)
       | Some dd \<Rightarrow> do {
           (s, fs) \<leftarrow> free_map_allocate wr fs 1;
           case s of
             None \<Rightarrow> Some (False, 0, fs)
           | Some sector \<Rightarrow> do {
               (ok, fs) \<leftarrow> inode_create wr fs sector initial_size;
               if ok then do {
                 (ok, fs) \<leftarrow> dir_add wr fs dd name sector type;
                 Some (ok, sector, fs) }
               else Some (False, sector, fs) } });
     fs \<leftarrow> (if \<not> success \<and> inode_sector \<noteq> 0 then free_map_release wr fs inode_sector 1 else Some fs);
     fs \<leftarrow> dir_close wr fs d;
     Some (success, fs) }"

definition filesys_open :: "'m writer \<Rightarrow> dir option \<Rightarrow> 'm fs \<Rightarrow> u8 list \<Rightarrow> (addr \<times> 'm fs) option" where
  "filesys_open wr wd fs name = do {
     (d, fs) \<leftarrow> dir_open_current wr wd fs;
     (i, fs) \<leftarrow> (case d of None \<Rightarrow> Some (NULL, fs) | Some dd \<Rightarrow> dir_lookup fs dd name);
     fs \<leftarrow> dir_close wr fs d;
     file_open wr fs i }"

definition filesys_remove :: "'m writer \<Rightarrow> dir option \<Rightarrow> 'm fs \<Rightarrow> u8 list \<Rightarrow> (bool \<times> 'm fs) option" where
  "filesys_remove wr wd fs name = do {
     (d, fs) \<leftarrow> dir_open_current wr wd fs;
     (success, fs) \<leftarrow> (case d of None \<Rightarrow> Some (False, fs) | Some dd \<Rightarrow> dir_remove wr fs dd name);
     fs \<leftarrow> dir_close wr fs d;
     Some (success, fs) }"

definition do_format :: "'m writer \<Rightarrow> 'm fs \<Rightarrow> 'm fs option" where
  "do_format wr fs = do {
     fs \<leftarrow> free_map_create wr fs;
     (ok, fs) \<leftarrow> dir_create wr fs ROOT_DIR_SECTOR 16;
     assertO ok;
     (root, fs) \<leftarrow> dir_open_root wr fs;
     r \<leftarrow> root;
     (_, fs) \<leftarrow> dir_add wr fs r [46] ROOT_DIR_SECTOR IS_DIR;
     (_, fs) \<leftarrow> dir_add wr fs r [46, 46] ROOT_DIR_SECTOR IS_DIR;
     fs \<leftarrow> dir_close wr fs root;
     free_map_close wr fs }"

definition inode_init :: "'m fs \<Rightarrow> 'm fs" where
  "inode_init fs = fs\<lparr>open_inodes := [], cch := cache_init (cch fs)\<rparr>"

text \<open>\<open>device\<close> is the block device in the role of the file system, \<open>got_bits\<close> what the allocation of the free map's bits gives.\<close>

definition filesys_init :: "'m writer \<Rightarrow> 'm block option \<Rightarrow> u32 list option \<Rightarrow> bool \<Rightarrow> 'm fs \<Rightarrow> 'm fs option" where
  "filesys_init wr device got_bits format fs = do {
     b \<leftarrow> device;
     let fs = inode_init (fs\<lparr>cch := (cch fs)\<lparr>fs_device := b\<rparr>\<rparr>);
     fs \<leftarrow> free_map_init got_bits fs;
     fs \<leftarrow> (if format then do_format wr fs else Some fs);
     free_map_open wr fs }"

definition filesys_done :: "'m writer \<Rightarrow> 'm fs \<Rightarrow> 'm fs option" where
  "filesys_done wr fs = do {
     fs \<leftarrow> free_map_close wr fs;
     c \<leftarrow> cache_sync (cch fs);
     Some (fs\<lparr>cch := c\<rparr>) }"

end
