(* ===== verification/Directory_Props.thy ===== *)
theory Directory_Props
  imports Directory
begin

text \<open>
  A directory is a finite map from names to inodes and their types: \<^verbatim>\<open>lookup\<close> reads it and \<^verbatim>\<open>dir_add\<close> adds to it,
  over every device that stores sectors.
\<close>

section \<open>Entries\<close>

definition ent_name :: "dir_entry \<Rightarrow> u8 list" where
  "ent_name e = takeWhile (\<lambda>c. c \<noteq> 0) (drop 4 e)"

definition ent_ok :: "dir_entry \<Rightarrow> bool" where
  "ent_ok e \<longleftrightarrow> length e = 32 \<and> (ent_in_use e \<longrightarrow> 0 \<in> set (take 15 (drop 4 e)))"

definition matches :: "u8 list \<Rightarrow> dir_entry \<Rightarrow> bool" where
  "matches name e \<longleftrightarrow> ent_in_use e \<and> ent_name e = name"

definition valid_name :: "u8 list \<Rightarrow> bool" where
  "valid_name name \<longleftrightarrow> name \<noteq> [] \<and> length name \<le> NAME_MAX \<and> 0 \<notin> set name"

text \<open>The directory that a file's content represents.\<close>

definition dir_ok :: "u8 list \<Rightarrow> bool" where
  "dir_ok c \<longleftrightarrow> 32 dvd length c \<and> (\<forall>e \<in> set (elems 32 c). ent_ok e)"

definition dir_map :: "u8 list \<Rightarrow> u8 list \<Rightarrow> (nat \<times> int) option" where
  "dir_map c name = map_option (\<lambda>e. (ent_sector e, ent_type e)) (find (matches name) (elems 32 c))"

section \<open>Strings in entries\<close>

lemma strcmp_ok:
  assumes "str_at mem a" "str_at mem b"
  shows "\<exists>c. strcmp mem a b = Some c \<and> (c = 0 \<longleftrightarrow> cstr mem a = cstr mem b)"
proof -
  have "\<exists>x y. strcmp_loop mem a b = Some (x, y) \<and> (x = y \<longleftrightarrow> cstr mem a = cstr mem b)"
    using assms
  proof (induction arbitrary: b rule: str_at_induct)
    case (stop a)
    then show ?case using cstr_step [of b mem] by (auto simp: strcmp_loop.simps [of mem a] str_at_less)
  next
    case (step a)
    show ?case
    proof (cases "mem ! a = mem ! b")
      case True
      then have "str_at mem (b + 1)" using str_at_step [OF step.prems] step.hyps(2) by simp
      from step.IH [OF this] True step.hyps show ?thesis
        by (simp add: strcmp_loop.simps [of mem a] str_at_less [OF step.prems] str_at_less cstr_more [OF step.hyps(1)] cstr_more [OF step.prems])
    next
      case False
      then show ?thesis using step.hyps step.prems cstr_step [of b mem]
        by (auto simp: strcmp_loop.simps [of mem a] str_at_less cstr_more)
    qed
  qed
  then show ?thesis using assms by (auto simp: strcmp_def str_at_def)
qed

lemma cstr_prefix: "0 \<notin> set name \<Longrightarrow> cstr (0 # name @ 0 # e) 1 = name"
  by (induction name) (auto simp: cstr_def)

lemma str_prefix: "0 \<notin> set name \<Longrightarrow> str_at (0 # name @ 0 # e) 1"
  by (simp add: str_at_def cstr_prefix [simplified])

lemma takeWhile_shorter: "0 \<in> set xs \<Longrightarrow> length (takeWhile (\<lambda>c. c \<noteq> 0) xs) < length xs"
  by (induction xs) auto

lemma name_cmp_ok:
  assumes "length e = 32" "0 \<in> set (take 15 (drop 4 e))" "0 \<notin> set name"
  shows "\<exists>c. name_cmp name e = Some c \<and> (c = 0 \<longleftrightarrow> ent_name e = name)"
proof -
  let ?mem = "0 # name @ 0 # e"
  have c: "cstr ?mem (length name + 6) = ent_name e" by (simp add: cstr_def ent_name_def drop_Cons')
  have "0 \<in> set (drop 4 e)" using assms(2) in_set_takeD by fast
  then have "length (ent_name e) < length (drop 4 e)" unfolding ent_name_def by (rule takeWhile_shorter)
  then have "str_at ?mem (length name + 6)" using assms(1) unfolding str_at_def c by simp
  from strcmp_ok [OF str_prefix [OF assms(3), of e] this] show ?thesis
    unfolding name_cmp_def c cstr_prefix [OF assms(3)] by metis
qed

lemma strlcpy_ok:
  assumes "str_at mem src" "length (cstr mem src) < n" "src + length (cstr mem src) < dst" "dst + length (cstr mem src) < length mem"
  shows "strlcpy mem dst src n = Some (length (cstr mem src), splice_bytes mem dst (cstr mem src @ [0]))"
proof -
  let ?l = "length (cstr mem src)"
  have s: "src \<noteq> NULL" "dst \<noteq> NULL" using assms(1,3) by (auto simp: str_at_def)
  have t: "take ?l (drop src mem) = cstr mem src" unfolding cstr_def by (metis takeWhile_eq_take)
  have c: "copy_up mem dst src ?l = Some (splice_bytes mem dst (cstr mem src))"
    using copy_up_ok [of dst src ?l mem] assms unfolding t by linarith
  have "(splice_bytes mem dst (cstr mem src))[dst + ?l := 0] = splice_bytes mem dst (cstr mem src @ [0])"
    using assms(4) by (intro nth_equalityI) (auto simp: splice_nth nth_list_update nth_append)
  moreover have m: "(if ?l < n - 1 then ?l else n - 1) = ?l" using assms(2) by auto
  ultimately show ?thesis unfolding strlcpy_def strlen_ok [OF assms(1)] Let_def bind.bind_lunit m using s c assms(2,4)
    by (simp add: memcpy_def)
qed

lemma splice_prefix: "splice_bytes (pre @ e) (length pre + k) xs = pre @ splice_bytes e k xs"
  by (simp add: splice_bytes_def)

lemma set_name_ok:
  assumes "length e = 32" "valid_name name"
  shows "set_name e name = Some (splice_bytes e 4 (name @ [0]))"
proof -
  let ?mem = "0 # name @ 0 # e"
  have n: "0 \<notin> set name" "length name \<le> 14" using assms(2) by (simp_all add: valid_name_def)
  note c = cstr_prefix [OF n(1), of e]
  have "strlcpy ?mem (length name + 6) 1 15 = Some (length name, splice_bytes ?mem (length name + 6) (name @ [0]))"
    using strlcpy_ok [OF str_prefix [OF n(1), of e], of 15 "length name + 6"] n(2) assms(1) unfolding c by simp
  moreover have "drop (length name + 2) (splice_bytes ?mem (length name + 6) (name @ [0])) = splice_bytes e 4 (name @ [0])"
    using splice_prefix [of "0 # name @ [0]" e 4 "name @ [0]"] by (simp add: add.commute)
  ultimately show ?thesis by (simp add: set_name_def)
qed

text \<open>The entry that \<^verbatim>\<open>dir_add\<close> writes.\<close>

definition new_entry :: "dir_entry \<Rightarrow> u8 list \<Rightarrow> nat \<Rightarrow> int \<Rightarrow> dir_entry" where
  "new_entry e name sector type = splice_bytes (splice_bytes (splice_bytes (e[28 := 1]) 24 (le32 (u32_of type))) 4 (name @ [0])) 0 (le32 sector)"

lemma new_entry_nth:
  assumes "length e = 32" "valid_name name" "j < 32"
  shows "length (new_entry e name sector type) = 32"
    and "new_entry e name sector type ! j =
      (if j < 4 then le32 sector ! j else if j < 5 + length name then (name @ [0]) ! (j - 4)
       else if 24 \<le> j \<and> j < 28 then le32 (u32_of type) ! (j - 24) else if j = 28 then 1 else e ! j)"
  using assms by (auto simp: new_entry_def valid_name_def splice_nth nth_append)

lemma new_entry_fields:
  assumes e: "length e = 32" "valid_name name" and "sector < 2 ^ 32" "- (2 ^ 31) \<le> type" "type < 2 ^ 31"
  defines "f \<equiv> new_entry e name sector type"
  shows "ent_sector f = sector" "ent_type f = type" "ent_in_use f" "ent_name f = name" "ent_ok f"
proof -
  note l = new_entry_nth(1) [OF e, of 0 sector type, simplified, folded f_def]
  note g = new_entry_nth(2) [OF e, of _ sector type, folded f_def]
  have n: "length name \<le> 14" "0 \<notin> set name" using e(2) by (simp_all add: valid_name_def)
  have "take 4 f = le32 sector" using l g by (intro nth_equalityI) simp_all
  then show "ent_sector f = sector" using assms(3) by (simp add: ent_sector_def dec32_le32)
  have "take 4 (drop 24 f) = le32 (u32_of type)" using l g n(1) by (intro nth_equalityI) simp_all
  then show "ent_type f = type" using assms(4,5) by (simp add: ent_type_def dec32_le32 sz_id [OF u32_of_less] s32_u32 s32_id)
  show u: "ent_in_use f" using g [of 28] n(1) by (simp add: ent_in_use_def)
  have t: "take (length name + 1) (drop 4 f) = name @ [0]" using l g n(1) by (intro nth_equalityI) (simp_all add: add.commute)
  then have "drop 4 f = name @ [0] @ drop (length name + 1) (drop 4 f)" by (metis append.assoc append_take_drop_id)
  then show "ent_name f = name" using n(2) unfolding ent_name_def by (metis append_Cons cstr_prefix cstr_def drop0 drop_Suc_Cons One_nat_def append_Nil)
  have "take 15 (drop 4 f) ! length name = 0" "length name < length (take 15 (drop 4 f))" using g [of "4 + length name"] l n(1) by simp_all
  then have "0 \<in> set (take 15 (drop 4 f))" by (metis nth_mem)
  then show "ent_ok f" using l by (simp add: ent_ok_def)
qed

section \<open>The directory as a map\<close>

lemma elems_splice:
  assumes "length c = n * s" "0 < s" "j \<le> n" "length x = s"
  shows "elems s (splice_bytes c (j * s) x) = (if j < n then (elems s c)[j := x] else elems s c @ [x])"
proof -
  have le: "length (elems s c) = n" using assms by simp
  have len: "length (elems s c ! k) = s" if "k < n" for k using that assms elem_bound [OF that, of s] by (simp add: elems_nth)
  show ?thesis
  proof (cases "j < n")
    case True
    note b = elem_bound [OF True, of s]
    have l: "length (splice_bytes c (j * s) x) = n * s" using assms b by simp
    have "splice_bytes c (j * s) x ! (k * s + i) = (elems s c)[j := x] ! k ! i" if "k < n" "i < s" for k i
      using that assms b elem_bound [of k n s] in_elem [of i s j k] by (auto simp: splice_nth nth_list_update elems_nth)
    moreover have "length ((elems s c)[j := x] ! k) = s" if "k < n" for k
      using that assms(4) len le True by (simp add: nth_list_update)
    ultimately show ?thesis using elems_eqI [OF assms(2) l] assms True by simp
  next
    case False
    then have e: "splice_bytes c (j * s) x = c @ x" using assms by (simp add: splice_bytes_def)
    have l: "length (c @ x) = (n + 1) * s" using assms by simp
    have "(c @ x) ! (k * s + i) = (elems s c @ [x]) ! k ! i" if "k < n + 1" "i < s" for k i
    proof (cases "k = n")
      case True
      then show ?thesis using that assms le by (simp add: nth_append)
    next
      case False
      then have "k < n" using that by simp
      then show ?thesis using that assms le elem_bound [of k n s] by (simp add: nth_append elems_nth)
    qed
    moreover have "length ((elems s c @ [x]) ! k) = s" if "k < n + 1" for k
      using that assms(4) len le by (auto simp: nth_append)
    ultimately show ?thesis unfolding e using elems_eqI [OF assms(2) l] assms False by simp
  qed
qed

lemma find_update:
  assumes "\<not> P (es ! j)" "\<not> P e"
  shows "find P (es[j := e]) = find P es"
  using assms
proof (induction es arbitrary: j)
  case (Cons a es)
  then show ?case by (cases j) auto
qed simp

lemma find_update_new:
  assumes "find P es = None" "P e" "j < length es"
  shows "find P (es[j := e]) = Some e"
  using assms
proof (induction es arbitrary: j)
  case (Cons a es)
  then show ?case by (cases j) (auto split: if_splits)
qed simp

lemma find_append: "find P (xs @ ys) = (case find P xs of None \<Rightarrow> find P ys | Some x \<Rightarrow> Some x)"
  by (induction xs) auto

lemma dir_map_add:
  assumes c: "length c = n * 32" "dir_ok c" and j: "j \<le> n" "j < n \<longrightarrow> \<not> ent_in_use (elems 32 c ! j)"
    and f: "ent_sector f = sector" "ent_type f = type" "ent_in_use f" "ent_name f = name" "ent_ok f" and "dir_map c name = None"
  shows "dir_ok (splice_bytes c (j * 32) f)" "dir_map (splice_bytes c (j * 32) f) = (dir_map c)(name \<mapsto> (sector, type))"
proof -
  let ?c = "splice_bytes c (j * 32) f"
  have lf: "length f = 32" using f(5) by (simp add: ent_ok_def)
  note e = elems_splice [OF c(1) _ j(1) lf, simplified]
  have "length ?c = (if j < n then n else n + 1) * 32" using c(1) j(1) lf elem_bound [of j n 32] by (auto simp: splice_bytes_def)
  then have "32 dvd length ?c" by simp
  moreover have "\<forall>e \<in> set (elems 32 ?c). ent_ok e" using c(2) f(5) unfolding e
    by (auto simp: dir_ok_def dest!: set_update_subset_insert [THEN subsetD])
  ultimately show "dir_ok ?c" by (simp add: dir_ok_def)
  have nn: "find (matches name) (elems 32 c) = None" using assms(10) by (simp add: dir_map_def)
  have "find (matches q) (elems 32 ?c) = (if q = name then Some f else find (matches q) (elems 32 c))" for q
  proof (cases "q = name")
    case True
    then have "matches q f" using f(3,4) by (simp add: matches_def)
    then show ?thesis using True nn c(1) unfolding e by (simp add: find_update_new find_append)
  next
    case False
    then have "\<not> matches q f" using f(4) by (simp add: matches_def)
    moreover have "j < n \<longrightarrow> \<not> matches q (elems 32 c ! j)" using j(2) by (simp add: matches_def)
    ultimately show ?thesis using False unfolding e by (simp add: find_update find_append split: option.split)
  qed
  then show "dir_map ?c = (dir_map c)(name \<mapsto> (sector, type))" using f(1,2) by (auto simp: dir_map_def fun_eq_iff)
qed

section \<open>Reading a directory\<close>

text \<open>The open file \<open>i\<close> holds a directory of \<open>m\<close> entries.\<close>

definition dir_file :: "nat \<Rightarrow> disk \<Rightarrow> 'm fs \<Rightarrow> addr \<Rightarrow> nat \<Rightarrow> inode_disk \<Rightarrow> nat \<Rightarrow> bool" where
  "dir_file n v fs i sec d m \<longleftrightarrow> mem_ok fs \<and> opened n fs i sec \<and> sec \<le> 20000000 \<and> d = dec_inode (v sec) \<and> inode_ok n v d \<and>
     length (content v d) = m * 32 \<and> dir_ok (content v d)"

lemma dir_fileD:
  assumes "dir_file n v fs i sec d m"
  shows "mem_ok fs" "opened n fs i sec" "sec \<le> 20000000" "d = dec_inode (v sec)" "inode_ok n v d" "length (content v d) = m * 32" "dir_ok (content v d)"
  using assms unfolding dir_file_def by - (elim conjE, assumption)+

lemma dir_file_now: "now_holds good view n os fs v' fs' \<Longrightarrow> dir_file N v fs' i sec d m = dir_file N v fs i sec d m"
  using now_holdsD by (fastforce simp: dir_file_def opened_def)

lemma dir_file_length: "dir_file n v fs i sec d m \<Longrightarrow> k \<le> m \<Longrightarrow> s32 (int (k * 32)) = int (k * 32) \<and> k * 32 < 2 ^ 31"
  by (auto simp: dir_file_def inode_ok_def inode_fits_def s32_id)

context cache_over
begin

lemma read_entry:
  assumes g: "cache_good good n os (cch fs)" and f: "dir_file n (disk_of fs) fs i sec d m" and k: "k < m" and e: "length e = 32"
  shows "\<exists>fs'. inode_read_at fs i e 32 (int (k * 32)) = Some (32, elems 32 (content (disk_of fs) d) ! k, fs') \<and> holds fs (disk_of fs) fs'"
proof -
  let ?c = "content (disk_of fs) d"
  note F = dir_fileD [OF f]
  have l: "k * 32 + 32 \<le> m * 32" by (rule elem_bound [OF k])
  then have p: "int (k * 32) < ilength d" using F(6) unfolding content_length by linarith
  have t: "take 32 (drop (k * 32) ?c) = elems 32 ?c ! k" "length (take 32 (drop (k * 32) ?c)) = 32"
    using l k F(6) elems_nth [of 32 ?c m k] by (simp_all del: content_length)
  obtain fs' where "inode_read_at fs i e (int 32) (int (k * 32)) = Some (int (length (take 32 (drop (k * 32) ?c))),
      splice_bytes e 0 (take 32 (drop (k * 32) ?c)), fs')" "holds fs (disk_of fs) fs'"
    using inode_read_at_ok [OF g F(1-5) p, of 32 e] e by auto
  then show ?thesis using t e by (simp add: splice_bytes_def)
qed

lemma read_entry_end:
  assumes g: "cache_good good n os (cch fs)" and f: "dir_file n (disk_of fs) fs i sec d m" and e: "length e = 32"
  shows "\<exists>e' fs'. inode_read_at fs i e 32 (int (m * 32)) = Some (0, e', fs') \<and> length e' = 32 \<and> holds fs (disk_of fs) fs'"
proof -
  note F = dir_fileD [OF f]
  have "ilength (dec_inode (disk_of fs sec)) \<le> int (m * 32)" using F(6) unfolding F(4) [symmetric] content_length by linarith
  then show ?thesis using inode_read_at_end_ok(2) [OF g F(2,3), of "int (m * 32)" 32 e] e by auto
qed

lemma lookup_loop_ok:
  assumes "cache_good good n os (cch fs)" "dir_file n (disk_of fs) fs i sec d m" "k \<le> m" "length e = 32" "0 \<notin> set name"
  shows "\<exists>fs'. lookup_loop fs i name e (k * 32) =
      Some (map_option (\<lambda>j. (elems 32 (content (disk_of fs) d) ! j, j * 32)) (find (\<lambda>j. matches name (elems 32 (content (disk_of fs) d) ! j)) [k..<m]), fs') \<and>
    holds fs (disk_of fs) fs'"
  using assms
proof (induction "m - k" arbitrary: fs k e)
  case 0
  then have k: "k = m" by simp
  obtain e' f1 where "inode_read_at fs i e 32 (int (m * 32)) = Some (0, e', f1)" "holds fs (disk_of fs) f1"
    using read_entry_end [OF 0(2,3,5)] by auto
  then show ?case using k dir_file_length [OF 0(3) order_refl] by (subst lookup_loop.simps) simp
next
  case (Suc l)
  let ?es = "elems 32 (content (disk_of fs) d)"
  have k: "k < m" using Suc(2) by simp
  obtain f1 where r: "inode_read_at fs i e 32 (int (k * 32)) = Some (32, ?es ! k, f1)" "holds fs (disk_of fs) f1"
    using read_entry [OF Suc(3,4) k Suc(6)] by auto
  note h = now_holdsD [OF r(2)] and b = dir_file_length [OF Suc(4)]
  have ok: "ent_ok (?es ! k)" using Suc(4) k by (auto simp: dir_file_def dir_ok_def)
  have rest: "[k..<m] = k # [Suc k..<m]" using k by (simp add: upt_rec)
  have hit: "(if ent_in_use (?es ! k) then do { c \<leftarrow> name_cmp name (?es ! k); Some (c = 0) } else Some False) = Some (matches name (?es ! k))"
    using name_cmp_ok [of "?es ! k" name] ok Suc(7) by (auto simp: matches_def ent_ok_def)
  have sz: "sz (k * 32 + 32) = Suc k * 32" using b [of "Suc k"] k by (simp add: sz_def)
  have step: "lookup_loop fs i name e (k * 32) = (if matches name (?es ! k) then Some (Some (?es ! k, k * 32), f1) else lookup_loop f1 i name (?es ! k) (Suc k * 32))"
    using r(1) b [of k] k hit by (subst lookup_loop.simps) (simp add: sz)
  show ?case
  proof (cases "matches name (?es ! k)")
    case True
    then show ?thesis using step r(2) by (simp add: rest)
  next
    case False
    have "dir_file n (disk_of f1) f1 i sec d m" using Suc(4) h(2) dir_file_now [OF r(2)] by simp
    from Suc(1) [OF _ h(1) this, of "Suc k" "?es ! k"] Suc(2,7) k ok False step h(2) show ?thesis
      using now_holds_trans [OF r(2)] by (fastforce simp: rest ent_ok_def)
  qed
qed

lemma slot_loop_ok:
  assumes "cache_good good n os (cch fs)" "dir_file n (disk_of fs) fs i sec d m" "k \<le> m" "length e = 32"
  shows "\<exists>e' j fs'. slot_loop fs i e (int (k * 32)) = Some (e', int (j * 32), fs') \<and> length e' = 32 \<and> j \<le> m \<and>
    (j < m \<longrightarrow> \<not> ent_in_use (elems 32 (content (disk_of fs) d) ! j)) \<and> holds fs (disk_of fs) fs'"
  using assms
proof (induction "m - k" arbitrary: fs k e)
  case 0
  then have k: "k = m" by simp
  obtain e' f1 where "inode_read_at fs i e 32 (int (m * 32)) = Some (0, e', f1)" "length e' = 32" "holds fs (disk_of fs) f1"
    using read_entry_end [OF 0(2,3,5)] by auto
  then show ?case using k by (subst slot_loop.simps) (auto intro!: exI [of _ m])
next
  case (Suc l)
  let ?es = "elems 32 (content (disk_of fs) d)"
  have k: "k < m" using Suc(2) by simp
  obtain f1 where r: "inode_read_at fs i e 32 (int (k * 32)) = Some (32, ?es ! k, f1)" "holds fs (disk_of fs) f1"
    using read_entry [OF Suc(3,4) k Suc(6)] by auto
  note h = now_holdsD [OF r(2)]
  have l: "length (?es ! k) = 32" using dir_fileD(6,7) [OF Suc(4)] k by (auto simp: dir_ok_def ent_ok_def)
  have s: "s32 (int (k * 32) + 32) = int (Suc k * 32)" using dir_file_length [OF Suc(4), of "Suc k"] k by (simp add: add.commute)
  have step: "slot_loop fs i e (int (k * 32)) = (if ent_in_use (?es ! k) then slot_loop f1 i (?es ! k) (int (Suc k * 32)) else Some (?es ! k, int (k * 32), f1))"
    using r(1) by (subst slot_loop.simps) (simp only: s bind.bind_lunit prod.case, simp)
  show ?case
  proof (cases "ent_in_use (?es ! k)")
    case True
    have "dir_file n (disk_of f1) f1 i sec d m" using Suc(4) h(2) dir_file_now [OF r(2)] by simp
    from Suc(1) [OF _ h(1) this, of "Suc k" "?es ! k"] Suc(2) k l True step h(2) show ?thesis
      using now_holds_trans [OF r(2)] by fastforce
  next
    case False
    then show ?thesis using step r(2) l k by (auto intro!: exI [of _ k])
  qed
qed

end

lemma find_map: "find P (map f xs) = map_option f (find (\<lambda>x. P (f x)) xs)"
  by (induction xs) auto

lemma find_index: "map_option ((!) es) (find (\<lambda>j. P (es ! j)) [0..<length es]) = find P es"
proof (induction es)
  case (Cons a es)
  have "[0..<length (a # es)] = 0 # map Suc [0..<length es]" by (simp only: list.size One_nat_def add_Suc_right add_0_right upt_conv_Cons map_Suc_upt zero_less_Suc)
  then show ?case using Cons by (simp add: find_map option.map_comp comp_def)
qed simp

text \<open>What \<^verbatim>\<open>lookup\<close> returns.\<close>

definition found :: "u8 list \<Rightarrow> u8 list \<Rightarrow> (dir_entry \<times> nat) option \<Rightarrow> bool" where
  "found c name r \<longleftrightarrow> map_option (\<lambda>(e, ofs). (ent_sector e, ent_type e)) r = dir_map c name \<and>
     (\<forall>e ofs. r = Some (e, ofs) \<longrightarrow> matches name e \<and> 32 dvd ofs \<and> ofs + 32 \<le> length c \<and> take 32 (drop ofs c) = e)"

lemma foundI:
  assumes "length c = m * 32" "r = map_option (\<lambda>j. (elems 32 c ! j, j * 32)) (find (\<lambda>j. matches name (elems 32 c ! j)) [0..<m])"
  shows "found c name r"
proof -
  have l: "length (elems 32 c) = m" using assms(1) by simp
  have "find (matches name) (elems 32 c) = map_option ((!) (elems 32 c)) (find (\<lambda>j. matches name (elems 32 c ! j)) [0..<m])"
    unfolding find_index [of "elems 32 c" "matches name", unfolded l] ..
  then have "map_option (\<lambda>(e, ofs). (ent_sector e, ent_type e)) r = dir_map c name"
    unfolding assms(2) dir_map_def by (simp add: option.map_comp comp_def)
  moreover have "matches name e \<and> 32 dvd ofs \<and> ofs + 32 \<le> length c \<and> take 32 (drop ofs c) = e" if r: "r = Some (e, ofs)" for e ofs
  proof -
    obtain j where j: "find (\<lambda>j. matches name (elems 32 c ! j)) [0..<m] = Some j" "e = elems 32 c ! j" "ofs = j * 32" using r unfolding assms(2) by auto
    then have "j < m" "matches name (elems 32 c ! j)" by (auto simp: find_Some_iff)
    then show ?thesis using j assms(1) elem_bound [of j m 32] by (simp add: elems_nth)
  qed
  ultimately show ?thesis by (simp add: found_def)
qed

context cache_over
begin

lemma lookup_ok:
  assumes "cache_good good n os (cch fs)" "dir_file n (disk_of fs) fs (dinode dir) sec d m" "0 \<notin> set name"
  shows "\<exists>r fs'. lookup fs dir name = Some (r, fs') \<and> found (content (disk_of fs) d) name r \<and> holds fs (disk_of fs) fs'"
proof -
  have "length (stack_bytes fs 32) = 32" by (simp add: stack_bytes_def)
  from lookup_loop_ok [OF assms(1,2) le0 this assms(3)] foundI [OF dir_fileD(6) [OF assms(2)] refl]
  show ?thesis by (fastforce simp: lookup_def)
qed

lemma write_entry_ok:
  assumes g: "cache_good good n os (cch fs)" and f: "dir_file n (disk_of fs) fs i sec d m" and w: "writable fs i"
    and fa: "file_at n (disk_of fs) sec d" and gr: "growable view n fs fd sec d (data_cnt d)" and j: "j \<le> m" and e: "length e = 32"
    and T: "T = nat (sectors_for (int ((m + 1) * 32)))" "T \<le> DIRECT_CNT + INDIRECT_CNT" "sectors_needed (data_cnt d) T \<le> card (free_sectors fs)"
  shows "\<exists>fs' v d'. inode_write_at (Suc (Suc k)) fs i e 32 (int (j * 32)) = Some (32, fs') \<and> allocs_to fs v fs' \<and>
    file_at n v sec d' \<and> free_map_ok n v fs' fd \<and> content v d' = splice_bytes (content (disk_of fs) d) (j * 32) e \<and>
    (\<forall>a. used fs a \<longrightarrow> a < n \<longrightarrow> a \<notin> file_sectors (disk_of fs) sec d \<union> file_sectors (disk_of fs) FREE_MAP_SECTOR fd \<longrightarrow> v a = disk_of fs a)"
proof -
  note F = dir_fileD [OF f]
  have L: "0 \<le> ilength d" "nat (ilength d) = m * 32" using file_atD(7) [OF fa] F(6) by simp_all
  let ?S = "nat (sectors_for (int (j * 32 + 32)))"
  have S: "?S \<le> DIRECT_CNT + INDIRECT_CNT \<and> sectors_needed (data_cnt d) ?S \<le> card (free_sectors fs)"
  proof (cases "j < m")
    case True
    then have "int (j * 32 + 32) \<le> ilength d" using L by linarith
    then have "?S \<le> data_cnt d" using L(1) unfolding data_cnt_def by (intro nat_mono sectors_for_mono) simp_all
    moreover have "data_cnt d \<le> DIRECT_CNT + INDIRECT_CNT" using F(5) by (simp add: inode_ok_def)
    ultimately show ?thesis by (simp add: sectors_needed_def)
  next
    case False
    then have "j * 32 + 32 = (m + 1) * 32" using j by simp
    then have "?S = T" unfolding T(1) by (simp only:)
    then show ?thesis using T(2,3) by simp
  qed
  define x where "x = int (j * 32 + 32) + 511"
  have "x div 512 \<le> 252" using S by (simp add: sectors_for_eq nat_le_iff x_def)
  moreover have "x = 512 * (x div 512) + x mod 512" "x mod 512 < 512" by simp_all
  ultimately have "x < 2147483648" by linarith
  then have "int (j * 32 + 32) < 2 ^ 31" by (simp add: x_def)
  moreover have "int (j * 32) \<le> ilength d" using L j by linarith
  ultimately show ?thesis using inode_write_ok [OF g F(1,2) w fa gr, of "j * 32" 32 e ?S k] e S by fastforce
qed

lemma dir_add_ok:
  assumes g: "cache_good good n os (cch fs)" and f: "dir_file n (disk_of fs) fs (dinode dir) sec d m" and w: "writable fs (dinode dir)"
    and fa: "file_at n (disk_of fs) sec d" and gr: "growable view n fs fd sec d (data_cnt d)"
    and T: "T = nat (sectors_for (int ((m + 1) * 32)))" "T \<le> DIRECT_CNT + INDIRECT_CNT" "sectors_needed (data_cnt d) T \<le> card (free_sectors fs)"
    and nm: "valid_name name" "dir_map (content (disk_of fs) d) name = None" and st: "sector < 2 ^ 32" "- (2 ^ 31) \<le> type" "type < 2 ^ 31"
  shows "\<exists>fs' v d'. dir_add (inode_write_at (Suc (Suc k))) fs dir name sector type = Some (True, fs') \<and> allocs_to fs v fs' \<and>
    file_at n v sec d' \<and> free_map_ok n v fs' fd \<and> dir_ok (content v d') \<and>
    dir_map (content v d') = (dir_map (content (disk_of fs) d))(name \<mapsto> (sector, type)) \<and>
    (\<forall>a. used fs a \<longrightarrow> a < n \<longrightarrow> a \<notin> file_sectors (disk_of fs) sec d \<union> file_sectors (disk_of fs) FREE_MAP_SECTOR fd \<longrightarrow> v a = disk_of fs a)"
proof -
  let ?v = "disk_of fs" and ?c = "content (disk_of fs) d"
  have n0: "0 \<notin> set name" using nm(1) by (simp add: valid_name_def)
  obtain r f1 where l: "lookup fs dir name = Some (r, f1)" "found ?c name r" "holds fs ?v f1" using lookup_ok [OF g f n0] by auto
  have "r = None" using l(2) nm(2) by (auto simp: found_def)
  note h1 = now_holdsD [OF l(3)]
  have f1: "dir_file n (disk_of f1) f1 (dinode dir) sec d m" using f h1(2) dir_file_now [OF l(3)] by simp
  have "length (stack_bytes f1 32) = 32" by (simp add: stack_bytes_def)
  from slot_loop_ok [OF h1(1) f1 le0 this] obtain e j f2 where
    s: "slot_loop f1 (dinode dir) (stack_bytes f1 32) 0 = Some (e, int (j * 32), f2)" "length e = 32" "j \<le> m"
      "j < m \<longrightarrow> \<not> ent_in_use (elems 32 ?c ! j)" "holds f1 ?v f2" using h1(2) by auto
  note hh = now_holds_trans [OF l(3) s(5)]
  note h2 = now_holdsD [OF hh]
  let ?f = "new_entry e name sector type"
  note fl = new_entry_fields [OF s(2) nm(1) st]
  have lf: "length ?f = 32" using fl(5) by (simp add: ent_ok_def)
  have f2: "dir_file n (disk_of f2) f2 (dinode dir) sec d m" using f h2(2) dir_file_now [OF hh] by simp
  have w2: "writable f2 (dinode dir)" using w h2(3) by (simp add: writable_def)
  have gr2: "growable view n f2 fd sec d (data_cnt d)" "free_sectors f2 = free_sectors fs" using gr now_growable [OF hh] by simp_all
  from write_entry_ok [OF h2(1) f2 w2 fa [folded h2(2)] gr2(1) s(3) lf T(1,2) T(3) [folded gr2(2)], of k] obtain f3 v d' where
    r3: "inode_write_at (Suc (Suc k)) f2 (dinode dir) ?f 32 (int (j * 32)) = Some (32, f3)" "allocs_to f2 v f3" "file_at n v sec d'"
      "free_map_ok n v f3 fd" "content v d' = splice_bytes ?c (j * 32) ?f"
      "\<forall>a. used f2 a \<longrightarrow> a < n \<longrightarrow> a \<notin> file_sectors ?v sec d \<union> file_sectors ?v FREE_MAP_SECTOR fd \<longrightarrow> v a = ?v a"
    unfolding h2(2) by blast
  have sn: "set_name (splice_bytes (e[28 := 1]) 24 (le32 (u32_of type))) name = Some (splice_bytes (splice_bytes (e[28 := 1]) 24 (le32 (u32_of type))) 4 (name @ [0]))"
    using s(2) by (intro set_name_ok nm(1)) simp
  have "dir_add (inode_write_at (Suc (Suc k))) fs dir name sector type = Some (True, f3)"
    using l(1) \<open>r = None\<close> s(1) sn r3(1) nm(1) by (simp add: dir_add_def valid_name_def new_entry_def del: inode_write_at.simps)
  moreover have "allocs_to fs v f3" using alloc_holds_trans [OF now_alloc_holds [OF hh] r3(2)] .
  moreover note dir_map_add [OF dir_fileD(6,7) [OF f] s(3,4) fl nm(2), folded r3(5)]
  moreover have "free_map f2 = free_map fs" using h2(6) .
  ultimately show ?thesis using r3(3,4,6) by (intro exI [of _ f3] exI [of _ v] exI [of _ d']) simp
qed

end

section \<open>A sample directory\<close>

definition dir_inode :: inode_disk where
  "dir_inode = sample_inode\<lparr>ilength := 512\<rparr>"

definition dir_data :: sector_data where
  "dir_data = splice_bytes (replicate 512 0) (0 * 32) (new_entry (replicate 32 0) [97] 12 0)"

definition dir_sectors :: "sector_data list" where
  "dir_sectors = full_sectors[3 := enc_inode dir_inode, 10 := dir_data]"

definition dir_fs :: "sector_data list fs" where
  "dir_fs = full_fs\<lparr>cch := fresh_cache (block_register BLOCK_FILESYS 40 (ram_ops 40) dir_sectors) (\<lambda>_. True)\<rparr>"

abbreviation dir_view :: disk where
  "dir_view \<equiv> cache_view ram_view (cch dir_fs)"

abbreviation dir5 :: dir where
  "dir5 \<equiv> \<lparr>dinode = 5, dpos = 0\<rparr>"

lemma dir_data_ok: "length dir_data = 512" "dir_ok dir_data" "dir_map dir_data = [[97] \<mapsto> (12, 0)]"
proof -
  have v: "valid_name [97]" by (simp add: valid_name_def)
  note f = new_entry_fields [of "replicate 32 0" "[97]" 12 0, OF _ v]
  have es: "elems 32 (replicate 512 (0 :: u8)) = replicate 16 (replicate 32 0)" by (rule elems_eqI [of 32 _ 16]) simp_all
  have "ent_ok (replicate 32 0)" "\<not> matches q (replicate 32 0)" for q by (simp_all add: ent_ok_def ent_in_use_def matches_def)
  then have z: "dir_ok (replicate 512 0)" "dir_map (replicate 512 0) = Map.empty"
    by (auto simp: dir_ok_def dir_map_def es fun_eq_iff find_None_iff)
  have "\<not> ent_in_use (elems 32 (replicate 512 (0 :: u8)) ! 0)" by (simp add: es ent_in_use_def)
  with dir_map_add [of "replicate 512 0" 16 0, OF _ z(1) _ _ f] z(2)
  show "dir_ok dir_data" "dir_map dir_data = [[97] \<mapsto> (12, 0)]" unfolding dir_data_def by simp_all
  show "length dir_data = 512" using new_entry_nth(1) [OF _ v, of "replicate 32 0" 0 12 0] by (simp add: dir_data_def)
qed

lemma dir_fits: "inode_fits dir_inode" "length (enc_inode dir_inode) = 512"
  using sample_fits enc_inode_length [of dir_inode] by (simp_all add: dir_inode_def inode_fits_def sample_inode_def)

lemma dir_512: "\<forall>x\<in>set dir_sectors. length x = 512" "length dir_sectors = 40"
  using sectors_512 dir_fits(2) dir_data_ok(1)
  by (auto simp: dir_sectors_def dest!: set_update_subset_insert [THEN subsetD])

lemma dir_good: "cache_good (ram_good 40) 40 (ram_ops 40) (cch dir_fs)" "dir_view = ram_view dir_sectors"
proof -
  have "block_good (ram_good 40) 40 (ram_ops 40) (block_register BLOCK_FILESYS 40 (ram_ops 40) dir_sectors)"
    using dir_512 by (simp add: block_good_def ram_good_def block_register_def list_all_iff)
  from ram_cache.fresh_cache_good [OF this]
  show "cache_good (ram_good 40) 40 (ram_ops 40) (cch dir_fs)" "dir_view = ram_view dir_sectors"
    by (simp_all add: dir_fs_def block_view_def block_register_def)
qed

lemma dir_views: "dir_view 3 = enc_inode dir_inode" "dir_view 10 = dir_data" "dir_view 0 = enc_inode map_inode" "\<forall>a<40. length (dir_view a) = 512"
  using dir_512 sectors_512(2) by (simp_all add: dir_good(2) ram_view_def) (simp_all add: dir_sectors_def full_sectors_def sample_sectors_def)

lemma dir_cnt: "data_cnt dir_inode = 1" "data_sectors v dir_inode = [10]"
proof -
  show "data_cnt dir_inode = 1" by (simp add: data_cnt_def sectors_for_eq dir_inode_def)
  then show "data_sectors v dir_inode = [10]" by (simp add: data_sectors_def sector_at_def upt_rec) (simp add: dir_inode_def sample_inode_def)
qed

lemma dir_content: "content dir_view dir_inode = dir_data"
proof (rule nth_equalityI)
  show "length (content dir_view dir_inode) = length dir_data" using dir_data_ok(1) by (simp add: dir_inode_def)
  fix p assume "p < length (content dir_view dir_inode)"
  then have "p < 512" "p < nat (ilength dir_inode)" by (simp_all add: dir_inode_def)
  then show "content dir_view dir_inode ! p = dir_data ! p"
    using dir_views(2) by (simp add: byte_at_def sector_at_def) (simp add: dir_inode_def sample_inode_def)
qed

lemma dir_sample:
  "file_at 40 dir_view 3 dir_inode" "dir_file 40 dir_view dir_fs 5 3 dir_inode 16" "writable dir_fs 5"
  "growable ram_view 40 dir_fs map_inode 3 dir_inode (data_cnt dir_inode)" "0 < card (free_sectors dir_fs)"
proof -
  have ok: "inode_ok 40 dir_view dir_inode" using dir_fits(1) by (simp add: inode_ok_def dir_cnt) (simp add: dir_inode_def)
  have dec: "dec_inode (dir_view 3) = dir_inode" "dec_inode (dir_view 0) = map_inode"
    unfolding dir_views by (rule dec_enc_inode [OF dir_fits(1)], rule dec_enc_inode [OF map_fits])
  show fa: "file_at 40 dir_view 3 dir_inode" using dec ok dir_views(4) by (simp add: file_at_def meta_sectors_def dir_cnt)
  show "dir_file 40 dir_view dir_fs 5 3 dir_inode 16"
    unfolding dir_file_def dir_content using dir_data_ok ok dec(1) full_opened(1,2) by (simp add: opened_def dir_fs_def mem_ok_def)
  show "writable dir_fs 5" using full_opened(3) by (simp add: writable_def dir_fs_def)
  have s: "file_sectors dir_view 3 dir_inode = {3, 10}" "file_sectors dir_view FREE_MAP_SECTOR map_inode = {0, 2}"
    by (auto simp: file_sectors_def meta_sectors_def dir_cnt map_data)
  have fm: "file_at 40 dir_view FREE_MAP_SECTOR map_inode" using dec dir_views(4) map_fits
    by (simp add: file_at_def meta_sectors_def map_data) (simp add: inode_ok_def map_data, simp add: map_inode_def)
  have u: "free_map dir_fs = \<lparr>bit_cnt = 40, bits = [0x0C0F, 0]\<rparr>" "a < 32 \<Longrightarrow> used dir_fs a \<longleftrightarrow> bit (0x0C0F :: u32) a" for a
    using full_used by (simp_all add: dir_fs_def)
  have "used dir_fs 0" "used dir_fs 2" using u(2) by (simp_all add: bit_simps)
  then have "free_map_ok 40 dir_view dir_fs map_inode" using fm growableD(1) [OF full_growable refl refl] unfolding free_map_ok_def s
    by (simp add: opened_def writable_def) (simp add: dir_fs_def)
  then show "growable ram_view 40 dir_fs map_inode 3 dir_inode (data_cnt dir_inode)"
    using file_at_ext [OF fa] s by (simp add: growable_def u(2))
  show "0 < card (free_sectors dir_fs)" using full_free by (simp add: free_sectors_def dir_fs_def)
qed

section \<open>Properties\<close>



text \<open>C7: Adding to a directory. \<^verbatim>\<open>dir_add\<close> of a valid name that the directory does not have succeeds, as long as the sectors that it
  may need are free: the directory stays well-formed, its map gains exactly the new name with its inode and
  type, the free map stays well-formed and no sector in use outside the directory and the free map
  changes. If the directory has the name already, \<^verbatim>\<open>dir_add\<close> returns false and changes nothing but the
  cache; an empty or too long name is refused.\<close>

theorem dir_add_extends:
  assumes "sector_store good view n (op_read os) (op_write os)" and "cache_good good n os (cch fs)" and "v = cache_view view (cch fs)"
    and "dir_file n v fs (dinode dir) sec d m" and "writable fs (dinode dir)" and "file_at n v sec d" and "growable view n fs fd sec d (data_cnt d)"
    and "T = nat (sectors_for (int ((m + 1) * 32)))" and "T \<le> DIRECT_CNT + INDIRECT_CNT" and "sectors_needed (data_cnt d) T \<le> card (free_sectors fs)"
    and "0 \<notin> set name" and "sector < 2 ^ 32" and "- (2 ^ 31) \<le> type" and "type < 2 ^ 31" and "wr = inode_write_at (Suc (Suc k))"
  shows "if name = [] \<or> NAME_MAX < length name then dir_add wr fs dir name sector type = Some (False, fs)
    else if dir_map (content v d) name \<noteq> None
    then \<exists>fs'. dir_add wr fs dir name sector type = Some (False, fs') \<and> now_holds good view n os fs v fs'
    else \<exists>fs' v' d'. dir_add wr fs dir name sector type = Some (True, fs') \<and> alloc_holds good view n os fs v' fs' \<and>
      file_at n v' sec d' \<and> free_map_ok n v' fs' fd \<and> dir_ok (content v' d') \<and>
      dir_map (content v' d') = (dir_map (content v d))(name \<mapsto> (sector, type)) \<and>
      (\<forall>a. used fs a \<longrightarrow> a < n \<longrightarrow> a \<notin> file_sectors v sec d \<union> file_sectors v FREE_MAP_SECTOR fd \<longrightarrow> v' a = v a)"
proof -
  note ov = cache_overI [OF assms(1)]
  consider "name = [] \<or> NAME_MAX < length name" | "valid_name name" "dir_map (content v d) name \<noteq> None" | "valid_name name" "dir_map (content v d) name = None"
    using assms(11) unfolding valid_name_def by (metis leI)
  then show ?thesis
  proof cases
    case 1
    then show ?thesis by (simp add: dir_add_def)
  next
    case 2
    obtain r f1 where "lookup fs dir name = Some (r, f1)" "found (content v d) name r" "now_holds good view n os fs v f1"
      using cache_over.lookup_ok [OF ov assms(2) assms(4) [unfolded assms(3)] assms(11)] unfolding assms(3) by blast
    then show ?thesis using 2 by (auto simp: dir_add_def valid_name_def found_def)
  next
    case 3
    then show ?thesis
      using cache_over.dir_add_ok [OF ov assms(2) assms(4) [unfolded assms(3)] assms(5) assms(6) [unfolded assms(3)] assms(7-10) 3(1) 3(2) [unfolded assms(3)] assms(12-14), of k]
      unfolding assms(3,15) by (simp add: valid_name_def del: inode_write_at.simps)
  qed
qed

theorem dir_add_extends_witness:
  "\<exists>fs' v' d'. dir_add (inode_write_at (Suc (Suc 0))) dir_fs dir5 [98] 13 0 = Some (True, fs') \<and>
    file_at 40 v' 3 d' \<and> dir_map (content v' d') = [[97] \<mapsto> (12, 0), [98] \<mapsto> (13, 0)]"
  using dir_add_extends [OF ram.sector_store_axioms dir_good(1) refl _ _ dir_sample(1,4) refl _ _ _ _ _ _ refl, of dir5 16 "[98]" 13 0 0] dir_sample(2,3,5)
  by (auto simp: dir_content dir_data_ok(3) sectors_for_eq sectors_needed_def dir_cnt simp del: inode_write_at.simps)

end
