(* ===== verification/Paging.thy ===== *)
theory Paging
  imports Bitmap Bytes
begin

text \<open>
  Pages of memory and page tables: threads/vaddr.h, threads/pte.h, threads/palloc.c, userprog/pagedir.c and
  \<^verbatim>\<open>paging_init\<close> of threads/init.c.

  Addresses are 32-bit words with the machine's wrapping arithmetic, a null pointer is 0. The machine's
  memory is read and written by aligned 32-bit words through the mapping of physical memory at
  \<open>PHYS_BASE\<close>; an access that is not aligned or lies outside the installed RAM does not return. The
  bitmap at the start of a pool is kept as a value in the pool's record. Loading CR3 sets the page
  directory base and empties the translation lookaside buffer. The routines run without interruption,
  so the lock of a pool has no part in the state.
\<close>

unbundle bit_operations_syntax

section \<open>Virtual addresses\<close>

definition BITMASK :: "nat \<Rightarrow> nat \<Rightarrow> u32" where
  "BITMASK shift cnt = push_bit shift (push_bit cnt 1 - 1)"

abbreviation (input) PGBITS :: nat where
  "PGBITS \<equiv> 12"

abbreviation (input) PGSIZE :: u32 where
  "PGSIZE \<equiv> 4096"

definition PGMASK :: u32 where
  "PGMASK = BITMASK 0 PGBITS"

definition pg_ofs :: "u32 \<Rightarrow> u32" where
  "pg_ofs va = va AND PGMASK"

definition pg_no :: "u32 \<Rightarrow> u32" where
  "pg_no va = drop_bit PGBITS va"

definition pg_round_up :: "u32 \<Rightarrow> u32" where
  "pg_round_up va = (va + PGSIZE - 1) AND NOT PGMASK"

definition pg_round_down :: "u32 \<Rightarrow> u32" where
  "pg_round_down va = va AND NOT PGMASK"

definition PHYS_BASE :: u32 where
  "PHYS_BASE = 0xc0000000"

definition is_user_vaddr :: "u32 \<Rightarrow> bool" where
  "is_user_vaddr vaddr \<longleftrightarrow> vaddr < PHYS_BASE"

definition is_kernel_vaddr :: "u32 \<Rightarrow> bool" where
  "is_kernel_vaddr vaddr \<longleftrightarrow> vaddr \<ge> PHYS_BASE"

definition ptov :: "u32 \<Rightarrow> u32 option" where
  "ptov paddr = do { assertO (paddr < PHYS_BASE); Some (paddr + PHYS_BASE) }"

definition vtop :: "u32 \<Rightarrow> u32 option" where
  "vtop vaddr = do { assertO (is_kernel_vaddr vaddr); Some (vaddr - PHYS_BASE) }"

section \<open>Page directory and page table entries\<close>

definition pt_no :: "u32 \<Rightarrow> u32" where
  "pt_no va = drop_bit PGBITS (va AND BITMASK PGBITS 10)"

definition pd_no :: "u32 \<Rightarrow> u32" where
  "pd_no va = drop_bit (PGBITS + 10) va"

definition PTE_ADDR :: u32 where
  "PTE_ADDR = 0xfffff000"

abbreviation (input) PTE_P :: u32 where
  "PTE_P \<equiv> 0x1"

abbreviation (input) PTE_W :: u32 where
  "PTE_W \<equiv> 0x2"

abbreviation (input) PTE_U :: u32 where
  "PTE_U \<equiv> 0x4"

abbreviation (input) PTE_A :: u32 where
  "PTE_A \<equiv> 0x20"

abbreviation (input) PTE_D :: u32 where
  "PTE_D \<equiv> 0x40"

definition pde_create :: "u32 \<Rightarrow> u32 option" where
  "pde_create pt = do {
     assertO (pg_ofs pt = 0);
     p \<leftarrow> vtop pt;
     Some (p OR PTE_U OR PTE_P OR PTE_W) }"

definition pde_get_pt :: "u32 \<Rightarrow> u32 option" where
  "pde_get_pt pde = do { assertO (pde AND PTE_P \<noteq> 0); ptov (pde AND PTE_ADDR) }"

definition pte_create_kernel :: "u32 \<Rightarrow> bool \<Rightarrow> u32 option" where
  "pte_create_kernel page writable = do {
     assertO (pg_ofs page = 0);
     p \<leftarrow> vtop page;
     Some (p OR PTE_P OR (if writable then PTE_W else 0)) }"

definition pte_create_user :: "u32 \<Rightarrow> bool \<Rightarrow> u32 option" where
  "pte_create_user page writable = do { w \<leftarrow> pte_create_kernel page writable; Some (w OR PTE_U) }"

definition pte_get_page :: "u32 \<Rightarrow> u32 option" where
  "pte_get_page pte = ptov (pte AND PTE_ADDR)"

section \<open>The machine\<close>

record pool =
  used_map :: bitmap
  base :: u32

record machine =
  mem :: "u32 \<Rightarrow> u32"
  init_ram_pages :: nat
  kernel_pool :: pool
  user_pool :: pool
  init_page_dir :: u32
  cr3 :: u32
  tlb :: "u32 \<rightharpoonup> u32"

text \<open>The \<open>n\<close> bytes at \<open>a\<close> lie in the RAM that is mapped at \<open>PHYS_BASE\<close>.\<close>

definition in_ram :: "machine \<Rightarrow> u32 \<Rightarrow> nat \<Rightarrow> bool" where
  "in_ram s a n \<longleftrightarrow> unat PHYS_BASE \<le> unat a \<and> unat a + n \<le> unat PHYS_BASE + 4096 * init_ram_pages s"

definition load :: "machine \<Rightarrow> u32 \<Rightarrow> u32 option" where
  "load s a = (if unat a mod 4 = 0 \<and> in_ram s a 4 then Some (mem s a) else None)"

definition store :: "machine \<Rightarrow> u32 \<Rightarrow> u32 \<Rightarrow> machine option" where
  "store s a w = (if unat a mod 4 = 0 \<and> in_ram s a 4 then Some (s\<lparr>mem := (mem s)(a := w)\<rparr>) else None)"

text \<open>\<^verbatim>\<open>memset\<close> on whole words, each the four equal bytes, and \<^verbatim>\<open>memcpy\<close> of whole words.\<close>

definition set_words :: "machine \<Rightarrow> u32 \<Rightarrow> u32 \<Rightarrow> nat \<Rightarrow> machine option" where
  "set_words s a w n = (if in_ram s a n
     then Some (s\<lparr>mem := (\<lambda>x. if unat a \<le> unat x \<and> unat x < unat a + n then w else mem s x)\<rparr>) else None)"

definition copy_words :: "machine \<Rightarrow> u32 \<Rightarrow> u32 \<Rightarrow> nat \<Rightarrow> machine option" where
  "copy_words s dst src n = (if in_ram s dst n \<and> in_ram s src n
     then Some (s\<lparr>mem := (\<lambda>x. if unat dst \<le> unat x \<and> unat x < unat dst + n then mem s (x - dst + src) else mem s x)\<rparr>) else None)"

section \<open>The page allocator\<close>

abbreviation (input) PAL_ASSERT :: u32 where
  "PAL_ASSERT \<equiv> 1"

abbreviation (input) PAL_ZERO :: u32 where
  "PAL_ZERO \<equiv> 2"

abbreviation (input) PAL_USER :: u32 where
  "PAL_USER \<equiv> 4"

definition page_from_pool :: "pool \<Rightarrow> u32 \<Rightarrow> bool" where
  "page_from_pool pool page = (
     let page_no = pg_no page;
         start_page = pg_no (base pool);
         end_page = start_page + word_of_nat (bitmap_size (used_map pool))
     in page_no \<ge> start_page \<and> page_no < end_page)"

definition init_pool :: "machine \<Rightarrow> u32 \<Rightarrow> nat \<Rightarrow> pool option" where
  "init_pool s b page_cnt = do {
     let bm_pages = DIV_ROUND_UP (bitmap_buf_size page_cnt) 4096;
     assertO (bm_pages \<le> page_cnt);
     let page_cnt = page_cnt - bm_pages;
     assertO (in_ram s b (bm_pages * 4096));
     used \<leftarrow> bitmap_create_in_buf page_cnt (map (\<lambda>k. mem s (b + 4 * word_of_nat k)) [0..<bm_pages * 1024]) (sz (bm_pages * 4096));
     Some \<lparr>used_map = used, base = b + word_of_nat (bm_pages * 4096)\<rparr> }"

definition palloc_init :: "machine \<Rightarrow> nat \<Rightarrow> machine option" where
  "palloc_init s user_page_limit = do {
     free_start \<leftarrow> ptov (1024 * 1024);
     free_end \<leftarrow> ptov (word_of_nat (init_ram_pages s) * PGSIZE);
     let free_pages = u32_of (cdiv (s32 (int (unat (free_end - free_start)))) 4096);
     let user_pages = (if free_pages div 2 > user_page_limit then user_page_limit else free_pages div 2);
     let kernel_pages = free_pages - user_pages;
     k \<leftarrow> init_pool s free_start kernel_pages;
     let s = s\<lparr>kernel_pool := k\<rparr>;
     u \<leftarrow> init_pool s (free_start + word_of_nat kernel_pages * PGSIZE) user_pages;
     Some (s\<lparr>user_pool := u\<rparr>) }"

definition palloc_get_multiple :: "machine \<Rightarrow> u32 \<Rightarrow> nat \<Rightarrow> (u32 \<times> machine) option" where
  "palloc_get_multiple s flags page_cnt = (
     let user = (flags AND PAL_USER \<noteq> 0);
         pool = (if user then user_pool s else kernel_pool s) in
     if page_cnt = 0 then Some (0, s)
     else do {
       (page_idx, used) \<leftarrow> bitmap_scan_and_flip (used_map pool) 0 page_cnt False;
       let pool' = pool\<lparr>used_map := used\<rparr>;
       let s = (if user then s\<lparr>user_pool := pool'\<rparr> else s\<lparr>kernel_pool := pool'\<rparr>);
       let pages = (if page_idx \<noteq> BITMAP_ERROR then base pool + PGSIZE * word_of_nat page_idx else 0);
       if pages \<noteq> 0 then
         if flags AND PAL_ZERO \<noteq> 0 then do { s \<leftarrow> set_words s pages 0 (sz (4096 * page_cnt)); Some (pages, s) }
         else Some (pages, s)
       else if flags AND PAL_ASSERT \<noteq> 0 then None
       else Some (pages, s) })"

definition palloc_get_page :: "machine \<Rightarrow> u32 \<Rightarrow> (u32 \<times> machine) option" where
  "palloc_get_page s flags = palloc_get_multiple s flags 1"

definition free_in_pool :: "pool \<Rightarrow> u32 \<Rightarrow> nat \<Rightarrow> pool option" where
  "free_in_pool pool pages page_cnt = do {
     let page_idx = unat (pg_no pages - pg_no (base pool));
     a \<leftarrow> bitmap_all (used_map pool) page_idx page_cnt;
     assertO a;
     used \<leftarrow> bitmap_set_multiple (used_map pool) page_idx page_cnt False;
     Some (pool\<lparr>used_map := used\<rparr>) }"

definition palloc_free_multiple :: "machine \<Rightarrow> u32 \<Rightarrow> nat \<Rightarrow> machine option" where
  "palloc_free_multiple s pages page_cnt = do {
     assertO (pg_ofs pages = 0);
     if pages = 0 \<or> page_cnt = 0 then Some s
     else if page_from_pool (kernel_pool s) pages then do {
       s \<leftarrow> set_words s pages 0xcccccccc (sz (4096 * page_cnt));
       p \<leftarrow> free_in_pool (kernel_pool s) pages page_cnt;
       Some (s\<lparr>kernel_pool := p\<rparr>) }
     else if page_from_pool (user_pool s) pages then do {
       s \<leftarrow> set_words s pages 0xcccccccc (sz (4096 * page_cnt));
       p \<leftarrow> free_in_pool (user_pool s) pages page_cnt;
       Some (s\<lparr>user_pool := p\<rparr>) }
     else None }"

definition palloc_free_page :: "machine \<Rightarrow> u32 \<Rightarrow> machine option" where
  "palloc_free_page s page = palloc_free_multiple s page 1"

section \<open>Page directories\<close>

definition load_cr3 :: "machine \<Rightarrow> u32 \<Rightarrow> machine" where
  "load_cr3 s paddr = s\<lparr>cr3 := paddr, tlb := Map.empty\<rparr>"

definition pagedir_activate :: "machine \<Rightarrow> u32 \<Rightarrow> machine option" where
  "pagedir_activate s pd = do {
     p \<leftarrow> vtop (if pd = 0 then init_page_dir s else pd);
     Some (load_cr3 s p) }"

definition active_pd :: "machine \<Rightarrow> u32 option" where
  "active_pd s = ptov (cr3 s)"

definition invalidate_pagedir :: "machine \<Rightarrow> u32 \<Rightarrow> machine option" where
  "invalidate_pagedir s pd = do {
     a \<leftarrow> active_pd s;
     if a = pd then pagedir_activate s pd else Some s }"

definition pagedir_create :: "machine \<Rightarrow> (u32 \<times> machine) option" where
  "pagedir_create s = do {
     (pd, s) \<leftarrow> palloc_get_page s 0;
     if pd \<noteq> 0 then do { s \<leftarrow> copy_words s pd (init_page_dir s) 4096; Some (pd, s) }
     else Some (pd, s) }"

text \<open>The loop of \<^verbatim>\<open>pagedir_destroy\<close> over the \<open>n\<close> entries of a page table from \<open>pte\<close> on, and over the entries of the directory.\<close>

fun free_pages_loop :: "nat \<Rightarrow> machine \<Rightarrow> u32 \<Rightarrow> machine option" where
  "free_pages_loop 0 s pte = Some s"
| "free_pages_loop (Suc n) s pte = do {
     w \<leftarrow> load s pte;
     s \<leftarrow> (if w AND PTE_P \<noteq> 0 then do { page \<leftarrow> pte_get_page w; palloc_free_page s page } else Some s);
     free_pages_loop n s (pte + 4) }"

fun free_tables_loop :: "nat \<Rightarrow> machine \<Rightarrow> u32 \<Rightarrow> machine option" where
  "free_tables_loop 0 s pde = Some s"
| "free_tables_loop (Suc n) s pde = do {
     w \<leftarrow> load s pde;
     s \<leftarrow> (if w AND PTE_P \<noteq> 0 then do {
         pt \<leftarrow> pde_get_pt w;
         s \<leftarrow> free_pages_loop 1024 s pt;
         palloc_free_page s pt }
       else Some s);
     free_tables_loop n s (pde + 4) }"

definition pagedir_destroy :: "machine \<Rightarrow> u32 \<Rightarrow> machine option" where
  "pagedir_destroy s pd = (
     if pd = 0 then Some s
     else do {
       assertO (pd \<noteq> init_page_dir s);
       s \<leftarrow> free_tables_loop (unat (pd_no PHYS_BASE)) s pd;
       palloc_free_page s pd })"

definition lookup_page :: "machine \<Rightarrow> u32 \<Rightarrow> u32 \<Rightarrow> bool \<Rightarrow> (u32 \<times> machine) option" where
  "lookup_page s pd vaddr create = do {
     assertO (pd \<noteq> 0);
     assertO (\<not> create \<or> is_user_vaddr vaddr);
     let pde = pd + 4 * pd_no vaddr;
     w \<leftarrow> load s pde;
     (found, s) \<leftarrow> (if w = 0 then
         if create then do {
           (pt, s) \<leftarrow> palloc_get_page s PAL_ZERO;
           if pt = 0 then Some (False, s)
           else do { e \<leftarrow> pde_create pt; s \<leftarrow> store s pde e; Some (True, s) } }
         else Some (False, s)
       else Some (True, s));
     if found then do {
       w \<leftarrow> load s pde;
       pt \<leftarrow> pde_get_pt w;
       Some (pt + 4 * pt_no vaddr, s) }
     else Some (0, s) }"

definition pagedir_set_page :: "machine \<Rightarrow> u32 \<Rightarrow> u32 \<Rightarrow> u32 \<Rightarrow> bool \<Rightarrow> (bool \<times> machine) option" where
  "pagedir_set_page s pd upage kpage writable = do {
     assertO (pg_ofs upage = 0);
     assertO (pg_ofs kpage = 0);
     assertO (is_user_vaddr upage);
     p \<leftarrow> vtop kpage;
     assertO (unat (drop_bit PGBITS p) < init_ram_pages s);
     assertO (pd \<noteq> init_page_dir s);
     (pte, s) \<leftarrow> lookup_page s pd upage True;
     if pte \<noteq> 0 then do {
       w \<leftarrow> load s pte;
       assertO (w AND PTE_P = 0);
       e \<leftarrow> pte_create_user kpage writable;
       s \<leftarrow> store s pte e;
       Some (True, s) }
     else Some (False, s) }"

definition pagedir_get_page :: "machine \<Rightarrow> u32 \<Rightarrow> u32 \<Rightarrow> (u32 \<times> machine) option" where
  "pagedir_get_page s pd uaddr = do {
     assertO (is_user_vaddr uaddr);
     (pte, s) \<leftarrow> lookup_page s pd uaddr False;
     if pte = 0 then Some (0, s)
     else do {
       w \<leftarrow> load s pte;
       if w AND PTE_P \<noteq> 0 then do { page \<leftarrow> pte_get_page w; Some (page + pg_ofs uaddr, s) }
       else Some (0, s) } }"

definition pagedir_clear_page :: "machine \<Rightarrow> u32 \<Rightarrow> u32 \<Rightarrow> machine option" where
  "pagedir_clear_page s pd upage = do {
     assertO (pg_ofs upage = 0);
     assertO (is_user_vaddr upage);
     (pte, s) \<leftarrow> lookup_page s pd upage False;
     if pte = 0 then Some s
     else do {
       w \<leftarrow> load s pte;
       if w AND PTE_P \<noteq> 0 then do {
         s \<leftarrow> store s pte (w AND NOT PTE_P);
         invalidate_pagedir s pd }
       else Some s } }"

definition pagedir_is_dirty :: "machine \<Rightarrow> u32 \<Rightarrow> u32 \<Rightarrow> (bool \<times> machine) option" where
  "pagedir_is_dirty s pd vpage = do {
     (pte, s) \<leftarrow> lookup_page s pd vpage False;
     if pte = 0 then Some (False, s)
     else do { w \<leftarrow> load s pte; Some (w AND PTE_D \<noteq> 0, s) } }"

definition pagedir_set_dirty :: "machine \<Rightarrow> u32 \<Rightarrow> u32 \<Rightarrow> bool \<Rightarrow> machine option" where
  "pagedir_set_dirty s pd vpage dirty = do {
     (pte, s) \<leftarrow> lookup_page s pd vpage False;
     if pte = 0 then Some s
     else do {
       w \<leftarrow> load s pte;
       if dirty then store s pte (w OR PTE_D)
       else do { s \<leftarrow> store s pte (w AND NOT PTE_D); invalidate_pagedir s pd } } }"

definition pagedir_is_accessed :: "machine \<Rightarrow> u32 \<Rightarrow> u32 \<Rightarrow> (bool \<times> machine) option" where
  "pagedir_is_accessed s pd vpage = do {
     (pte, s) \<leftarrow> lookup_page s pd vpage False;
     if pte = 0 then Some (False, s)
     else do { w \<leftarrow> load s pte; Some (w AND PTE_A \<noteq> 0, s) } }"

definition pagedir_set_accessed :: "machine \<Rightarrow> u32 \<Rightarrow> u32 \<Rightarrow> bool \<Rightarrow> machine option" where
  "pagedir_set_accessed s pd vpage accessed = do {
     (pte, s) \<leftarrow> lookup_page s pd vpage False;
     if pte = 0 then Some s
     else do {
       w \<leftarrow> load s pte;
       if accessed then store s pte (w OR PTE_A)
       else do { s \<leftarrow> store s pte (w AND NOT PTE_A); invalidate_pagedir s pd } } }"

section \<open>The kernel's own page directory\<close>

text \<open>\<open>text_start\<close> and \<open>text_end\<close> are the linker's \<^verbatim>\<open>_start\<close> and \<^verbatim>\<open>_end_kernel_text\<close>; \<open>n\<close> pages from number \<open>page\<close> on remain to be mapped.\<close>

fun map_loop :: "u32 \<Rightarrow> u32 \<Rightarrow> u32 \<Rightarrow> nat \<Rightarrow> nat \<Rightarrow> machine \<Rightarrow> u32 \<Rightarrow> machine option" where
  "map_loop text_start text_end pd 0 page s pt = Some s"
| "map_loop text_start text_end pd (Suc n) page s pt = do {
     let paddr = word_of_nat page * PGSIZE;
     vaddr \<leftarrow> ptov paddr;
     let in_kernel_text = (text_start \<le> vaddr \<and> vaddr < text_end);
     w \<leftarrow> load s (pd + 4 * pd_no vaddr);
     (pt, s) \<leftarrow> (if w = 0 then do {
         (pt, s) \<leftarrow> palloc_get_page s (PAL_ASSERT OR PAL_ZERO);
         e \<leftarrow> pde_create pt;
         s \<leftarrow> store s (pd + 4 * pd_no vaddr) e;
         Some (pt, s) }
       else Some (pt, s));
     e \<leftarrow> pte_create_kernel vaddr (\<not> in_kernel_text);
     s \<leftarrow> store s (pt + 4 * pt_no vaddr) e;
     map_loop text_start text_end pd n (page + 1) s pt }"

definition paging_init :: "u32 \<Rightarrow> u32 \<Rightarrow> machine \<Rightarrow> machine option" where
  "paging_init text_start text_end s = do {
     (pd, s) \<leftarrow> palloc_get_page s (PAL_ASSERT OR PAL_ZERO);
     s \<leftarrow> map_loop text_start text_end pd (init_ram_pages s) 0 (s\<lparr>init_page_dir := pd\<rparr>) 0;
     p \<leftarrow> vtop pd;
     Some (load_cr3 s p) }"

end
