(* ===== verification/Paging_Props.thy ===== *)
theory Paging_Props
  imports Paging
begin

text \<open>
  Correctness of the page allocator and of page directories. Addresses are compared as numbers; \<open>entry\<close>
  lemmas say that an entry of a page-aligned table is a word of the same page. \<open>pools_ok\<close> is the
  allocator's invariant and \<open>page_used\<close> its abstract state, the set of allocated pages; \<open>pd_ok\<close> is the
  type of a page directory in memory and \<open>pd_map\<close> the finite map from user addresses to frames that it
  stands for.
\<close>

section \<open>Addresses\<close>

lemma BITMASK_eq: "BITMASK shift cnt = push_bit shift (mask cnt)"
  by (simp add: BITMASK_def mask_eq_decr_exp push_bit_eq_mult)

lemma PGMASK_eq: "PGMASK = mask 12"
  by (simp add: PGMASK_def BITMASK_eq)

lemma unat_and_mask: "unat (a AND mask n) = unat a mod 2 ^ n" for a :: u32
  by (simp only: take_bit_eq_mask [symmetric] unsigned_take_bit_eq) (simp add: take_bit_eq_mod)

lemma unat_drop: "unat (drop_bit n a) = unat a div 2 ^ n" for a :: u32
  by (simp only: unat_drop_bit_eq) (simp add: drop_bit_eq_div)

lemma pg_ofs_unat: "unat (pg_ofs a) = unat a mod 4096"
  by (simp add: pg_ofs_def PGMASK_eq unat_and_mask)

lemma pg_ofs_zero: "pg_ofs a = 0 \<longleftrightarrow> unat a mod 4096 = 0"
  by (metis pg_ofs_unat unsigned_0 unat_eq_zero)

lemma pg_no_unat: "unat (pg_no a) = unat a div 4096"
  by (simp add: pg_no_def unat_drop)

lemma PHYS_BASE_unat: "unat PHYS_BASE = 3221225472"
  by (simp add: PHYS_BASE_def)

lemma unat_bound: "unat a < 4294967296" for a :: u32
  by (rule order.strict_trans2 [OF unsigned_less]) simp

lemma pd_no_unat: "unat (pd_no va) = unat va div 4194304"
  by (simp add: pd_no_def unat_drop)

lemma pt_no_unat: "unat (pt_no va) = unat va div 4096 mod 1024"
proof -
  have "pt_no va = drop_bit 12 va AND mask 10"
    by (rule bit_word_eqI) (auto simp: pt_no_def BITMASK_eq bit_simps)
  then show ?thesis by (simp add: unat_and_mask unat_drop)
qed

lemma pd_no_less: "unat (pd_no va) < 1024"
  using unat_bound [of va] by (simp add: pd_no_unat less_mult_imp_div_less)

lemma pt_no_less: "unat (pt_no va) < 1024"
  by (simp add: pt_no_unat)

lemma entry_unat:
  assumes "unat a mod 4096 = 0" "unat i < 1024"
  shows "unat (a + 4 * i :: u32) = unat a + 4 * unat i"
proof -
  obtain k where "unat a = 4096 * k" using assms(1) by blast
  with unat_bound [of a] assms(2) show ?thesis by (simp add: unat_word_ariths)
qed

lemma entry_eq:
  assumes "unat a mod 4096 = 0" "unat b mod 4096 = 0" "unat i < 1024" "unat j < 1024"
  shows "a + 4 * i = (b + 4 * j :: u32) \<longleftrightarrow> a = b \<and> i = j"
proof
  assume "a + 4 * i = b + 4 * j"
  then have e: "unat a + 4 * unat i = unat b + 4 * unat j" using entry_unat assms by metis
  obtain k l where kl: "unat a = 4096 * k" "unat b = 4096 * l" using assms(1,2) by blast
  have "k = (4096 * k + 4 * unat i) div 4096" "l = (4096 * l + 4 * unat j) div 4096" using assms(3,4) by simp_all
  with e kl have "unat a = unat b" by metis
  with e show "a = b \<and> i = j" by (simp add: word_unat_eq_iff)
qed simp

section \<open>Frames and flags\<close>

text \<open>The kernel address of the frame that an entry names.\<close>

definition frame_of :: "u32 \<Rightarrow> u32" where
  "frame_of w = (w AND PTE_ADDR) + PHYS_BASE"

lemma PTE_ADDR_eq: "PTE_ADDR = NOT (mask 12)"
  by (simp add: PTE_ADDR_def mask_eq_decr_exp)

lemma addr_bits: "unat (w AND PTE_ADDR) = unat w - unat w mod 4096"
proof -
  have "w = (w AND NOT (mask 12)) + (w AND mask 12)"
    by (simp add: disjunctive_add bit_simps bit.conj_disj_distrib [symmetric])
  moreover have "w AND NOT (mask 12) = w - (w AND mask 12)" by (metis add_diff_cancel_right' calculation)
  moreover have "w AND mask 12 \<le> w" by (simp add: word_and_le2)
  ultimately show ?thesis by (simp add: PTE_ADDR_eq unat_sub unat_and_mask)
qed

lemma frame_aligned: "unat (frame_of w) mod 4096 = 0"
proof -
  have "unat (frame_of w) = (unat (w AND PTE_ADDR) + 3221225472) mod 4294967296"
    by (simp add: frame_of_def unat_word_ariths PHYS_BASE_unat)
  moreover have "unat (w AND PTE_ADDR) + 3221225472 = 4096 * (unat w div 4096 + 786432)"
    by (simp add: addr_bits minus_mod_eq_mult_div)
  ultimately have "unat (frame_of w) mod 4096 = 4096 * (unat w div 4096 + 786432) mod 4294967296 mod 4096" by simp
  also have "\<dots> = 4096 * (unat w div 4096 + 786432) mod 4096" by (rule mod_mod_cancel) simp
  finally show ?thesis by (simp only: mod_mult_self1_is_0)
qed

lemma frame_kernel:
  assumes "3221225472 \<le> unat (frame_of w)"
  shows "ptov (w AND PTE_ADDR) = Some (frame_of w)"
proof -
  have "unat (frame_of w) = (unat (w AND PTE_ADDR) + 3221225472) mod 4294967296"
    by (simp add: frame_of_def unat_word_ariths PHYS_BASE_unat)
  then have "unat (w AND PTE_ADDR) < 3221225472"
    using assms unat_bound [of "w AND PTE_ADDR"] by (simp add: mod_if le_mod_geq split: if_splits)
  then show ?thesis by (simp add: ptov_def frame_of_def word_less_nat_alt PHYS_BASE_unat)
qed

lemma frame_flags:
  assumes "unat a mod 4096 = 0" "3221225472 \<le> unat a" "f AND PTE_ADDR = 0"
  shows "frame_of ((a - PHYS_BASE) OR f) = a"
proof -
  have le: "PHYS_BASE \<le> a" using assms(2) by (simp add: word_le_nat_alt PHYS_BASE_unat)
  obtain k where "unat a = 4096 * k" using assms(1) by blast
  with le have "unat (a - PHYS_BASE) = 4096 * (k - 786432)" by (simp add: unat_sub PHYS_BASE_unat diff_mult_distrib2)
  then have "unat (a - PHYS_BASE) mod 4096 = 0" by simp
  then have "(a - PHYS_BASE) AND PTE_ADDR = a - PHYS_BASE"
    by (simp add: word_unat_eq_iff addr_bits)
  then show ?thesis using assms(3) by (simp add: frame_of_def bit.conj_disj_distrib2)
qed

section \<open>The allocator's invariant\<close>

definition in_range :: "u32 \<Rightarrow> nat \<Rightarrow> u32 \<Rightarrow> bool" where
  "in_range a cnt b \<longleftrightarrow> unat a \<le> unat b \<and> unat b < unat a + 4096 * cnt"

definition in_pool :: "pool \<Rightarrow> u32 \<Rightarrow> nat \<Rightarrow> bool" where
  "in_pool p a cnt \<longleftrightarrow> unat (base p) \<le> unat a \<and> unat a + 4096 * cnt \<le> unat (base p) + 4096 * bit_cnt (used_map p)"

definition used_in :: "pool \<Rightarrow> u32 \<Rightarrow> bool" where
  "used_in p a \<longleftrightarrow> in_range (base p) (bit_cnt (used_map p)) a \<and> bmap (used_map p) ! ((unat a - unat (base p)) div 4096)"

definition page_used :: "machine \<Rightarrow> u32 \<Rightarrow> bool" where
  "page_used s a \<longleftrightarrow> used_in (kernel_pool s) a \<or> used_in (user_pool s) a"

definition pool_ok :: "nat \<Rightarrow> pool \<Rightarrow> bool" where
  "pool_ok ram p \<longleftrightarrow> bitmap_ok (used_map p) \<and> unat (base p) mod 4096 = 0 \<and> 3221225472 \<le> unat (base p) \<and>
     unat (base p) + 4096 * bit_cnt (used_map p) \<le> 3221225472 + 4096 * ram"

definition pools_ok :: "machine \<Rightarrow> bool" where
  "pools_ok s \<longleftrightarrow> init_ram_pages s \<le> 262144 \<and> pool_ok (init_ram_pages s) (kernel_pool s) \<and> pool_ok (init_ram_pages s) (user_pool s) \<and>
     unat (base (kernel_pool s)) + 4096 * bit_cnt (used_map (kernel_pool s)) \<le> unat (base (user_pool s))"

text \<open>What allocating and freeing pages leaves alone.\<close>

definition same_regs :: "machine \<Rightarrow> machine \<Rightarrow> bool" where
  "same_regs s s' \<longleftrightarrow> init_ram_pages s' = init_ram_pages s \<and> init_page_dir s' = init_page_dir s \<and> cr3 s' = cr3 s \<and> tlb s' = tlb s"

definition pool_of :: "machine \<Rightarrow> u32 \<Rightarrow> pool" where
  "pool_of s flags = (if flags AND PAL_USER \<noteq> 0 then user_pool s else kernel_pool s)"

definition with_pool :: "machine \<Rightarrow> u32 \<Rightarrow> pool \<Rightarrow> machine" where
  "with_pool s flags p = (if flags AND PAL_USER \<noteq> 0 then s\<lparr>user_pool := p\<rparr> else s\<lparr>kernel_pool := p\<rparr>)"

lemma used_fill:
  assumes "bmap m = fill k cnt v (bmap (used_map p))" "bit_cnt m = bit_cnt (used_map p)" "k + cnt \<le> bit_cnt m"
  shows "used_in (p\<lparr>used_map := m\<rparr>) b \<longleftrightarrow>
    (if unat (base p) + 4096 * k \<le> unat b \<and> unat b < unat (base p) + 4096 * (k + cnt) then v else used_in p b)"
proof (cases "in_range (base p) (bit_cnt m) b")
  case True
  define i where "i = (unat b - unat (base p)) div 4096"
  have i: "4096 * i \<le> unat b - unat (base p)" "unat b - unat (base p) < 4096 * i + 4096"
    unfolding i_def using dividend_less_times_div [of 4096 "unat b - unat (base p)"] by simp_all
  have "i < bit_cnt m" using True i unfolding in_range_def by linarith
  moreover have "k \<le> i \<and> i < k + cnt \<longleftrightarrow> unat (base p) + 4096 * k \<le> unat b \<and> unat b < unat (base p) + 4096 * (k + cnt)"
  proof -
    obtain d where d: "unat b = unat (base p) + d" using True by (auto simp: in_range_def le_iff_add)
    have "k \<le> i \<longleftrightarrow> 4096 * k \<le> d" using i d by auto
    moreover have "i < k + cnt \<longleftrightarrow> d < 4096 * (k + cnt)" using i d by auto
    ultimately show ?thesis using d by simp
  qed
  ultimately show ?thesis
    using True assms by (simp add: used_in_def i_def [symmetric] fill_nth)
next
  case False
  then show ?thesis using assms(2,3) by (auto simp: used_in_def in_range_def)
qed

lemma pool_addr:
  assumes "pool_ok ram p" "ram \<le> 262144" "k < bit_cnt (used_map p)"
  shows "unat (base p + 4096 * word_of_nat k) = unat (base p) + 4096 * k"
proof -
  have "unat (base p) + 4096 * k < 4294967296" using assms by (simp add: pool_ok_def)
  then show ?thesis by (simp add: unat_word_ariths unat_of_nat)
qed

lemma set_words_ok:
  assumes "in_ram s a n"
  obtains s' where "set_words s a w n = Some s'" and "same_regs s s'" and "kernel_pool s' = kernel_pool s"
    and "user_pool s' = user_pool s"
    and "mem s' = (\<lambda>b. if unat a \<le> unat b \<and> unat b < unat a + n then w else mem s b)"
proof
  show "set_words s a w n = Some (s\<lparr>mem := (\<lambda>b. if unat a \<le> unat b \<and> unat b < unat a + n then w else mem s b)\<rparr>)"
    using assms by (simp add: set_words_def)
qed (simp_all add: same_regs_def)

lemma pool_in_ram:
  assumes "pools_ok s" "in_pool (pool_of s flags) a cnt"
  shows "in_ram s a (4096 * cnt)"
  using assms by (auto simp: pools_ok_def pool_ok_def in_pool_def in_ram_def pool_of_def PHYS_BASE_unat split: if_splits)

lemma with_pool_ok:
  assumes "pools_ok s" "bitmap_ok m" "bit_cnt m = bit_cnt (used_map (pool_of s flags))"
  shows "pools_ok (with_pool s flags (pool_of s flags\<lparr>used_map := m\<rparr>))"
  using assms by (simp add: pools_ok_def pool_ok_def pool_of_def with_pool_def)

lemma with_pool_used:
  assumes "pools_ok s" "bmap m = fill k cnt v (bmap (used_map (pool_of s flags)))"
    and "bit_cnt m = bit_cnt (used_map (pool_of s flags))" "k + cnt \<le> bit_cnt m"
    and "unat a = unat (base (pool_of s flags)) + 4096 * k"
  shows "page_used (with_pool s flags (pool_of s flags\<lparr>used_map := m\<rparr>)) b = (if in_range a cnt b then v else page_used s b)"
proof -
  have u: "used_in (pool_of s flags\<lparr>used_map := m\<rparr>) b = (if in_range a cnt b then v else used_in (pool_of s flags) b)"
    using used_fill [OF assms(2-4), of b] assms(5) by (simp add: in_range_def distrib_left)
  have "\<not> used_in (if flags AND PAL_USER \<noteq> 0 then kernel_pool s else user_pool s) b" if "in_range a cnt b"
    using that assms(1,3-5) by (auto simp: pools_ok_def used_in_def in_range_def pool_of_def split: if_splits)
  then show ?thesis using u by (auto simp: page_used_def with_pool_def pool_of_def split: if_splits)
qed

text \<open>The two outcomes of an allocation.\<close>

definition allocated :: "machine \<Rightarrow> u32 \<Rightarrow> nat \<Rightarrow> u32 \<Rightarrow> machine \<Rightarrow> bool" where
  "allocated s flags cnt a s' \<longleftrightarrow> a \<noteq> 0 \<and> unat a mod 4096 = 0 \<and> in_pool (pool_of s flags) a cnt \<and> in_pool (pool_of s' flags) a cnt \<and>
     same_regs s s' \<and>
     (\<forall>b. in_range a cnt b \<longrightarrow> \<not> page_used s b) \<and>
     (\<forall>b. page_used s' b \<longleftrightarrow> page_used s b \<or> in_range a cnt b) \<and>
     (\<forall>b. \<not> in_range a cnt b \<longrightarrow> mem s' b = mem s b) \<and>
     (flags AND PAL_ZERO \<noteq> 0 \<longrightarrow> (\<forall>b. in_range a cnt b \<longrightarrow> mem s' b = 0)) \<and>
     (\<exists>k. group_at (bmap (used_map (pool_of s flags))) k cnt False \<and>
       bmap (used_map (pool_of s' flags)) = fill k cnt True (bmap (used_map (pool_of s flags))))"

lemma allocatedD:
  assumes "allocated s flags cnt a s'"
  shows "a \<noteq> 0" "unat a mod 4096 = 0" "in_pool (pool_of s flags) a cnt" "in_pool (pool_of s' flags) a cnt" "same_regs s s'"
    "in_range a cnt b \<Longrightarrow> \<not> page_used s b" "page_used s' b \<longleftrightarrow> page_used s b \<or> in_range a cnt b"
    "\<not> in_range a cnt b \<Longrightarrow> mem s' b = mem s b" "flags AND PAL_ZERO \<noteq> 0 \<Longrightarrow> in_range a cnt b \<Longrightarrow> mem s' b = 0"
    "\<exists>k. group_at (bmap (used_map (pool_of s flags))) k cnt False \<and>
      bmap (used_map (pool_of s' flags)) = fill k cnt True (bmap (used_map (pool_of s flags)))"
  using assms by (simp_all add: allocated_def)

lemma pool_of_ok:
  assumes "pools_ok s"
  shows "pool_ok (init_ram_pages s) (pool_of s flags)" "bitmap_ok (used_map (pool_of s flags))" "init_ram_pages s \<le> 262144"
  using assms by (simp_all add: pools_ok_def pool_ok_def pool_of_def)

lemma group_fill:
  assumes "group_at bs k cnt v"
  shows "fill k cnt v bs = bs"
proof (rule nth_equalityI)
  show "length (fill k cnt v bs) = length bs" using assms by (simp add: fill_def group_at_def)
next
  fix i assume "i < length (fill k cnt v bs)"
  then have i: "i < length bs" using assms by (simp add: fill_def group_at_def)
  have "bs ! i = v" if "k \<le> i" "i < k + cnt"
    using assms that by (metis group_at_def le_add_diff_inverse add_less_cancel_left)
  then show "fill k cnt v bs ! i = bs ! i" using assms i by (simp add: fill_nth group_at_def)
qed

lemma with_pool_same [simp]: "with_pool s flags (pool_of s flags) = s"
  by (simp add: with_pool_def pool_of_def)

lemma group_unused:
  assumes "pools_ok s" "group_at (bmap (used_map (pool_of s flags))) k cnt False"
    and "unat a = unat (base (pool_of s flags)) + 4096 * k" "in_range a cnt b"
  shows "\<not> page_used s b"
  using with_pool_used [OF assms(1) group_fill [OF assms(2), symmetric] refl _ assms(3), of b] assms(2,4)
  by (simp add: group_at_def)

lemma palloc_get_multiple_eq:
  assumes "0 < cnt" "bitmap_scan_and_flip (used_map (pool_of s flags)) 0 cnt False = Some (k, m)" "flags AND PAL_ASSERT = 0"
  defines "a \<equiv> if k \<noteq> BITMAP_ERROR then base (pool_of s flags) + 4096 * word_of_nat k else 0"
    and "t \<equiv> with_pool s flags (pool_of s flags\<lparr>used_map := m\<rparr>)"
  shows "palloc_get_multiple s flags cnt =
    (if a \<noteq> 0 \<and> flags AND PAL_ZERO \<noteq> 0 then map_option (Pair a) (set_words t a 0 (sz (4096 * cnt))) else Some (a, t))"
  using assms(1-3) unfolding a_def t_def palloc_get_multiple_def
  by (auto simp: Let_def pool_of_def with_pool_def map_option_bind split: bind_split)

lemma with_pool_simps [simp]:
  "init_ram_pages (with_pool s flags p) = init_ram_pages s" "mem (with_pool s flags p) = mem s"
  "same_regs s (with_pool s flags p)" "pool_of (with_pool s flags p) flags = p"
  by (simp_all add: with_pool_def same_regs_def pool_of_def)

lemma same_regs_trans: "same_regs s t \<Longrightarrow> same_regs t u \<Longrightarrow> same_regs s u"
  by (simp add: same_regs_def)

lemma same_pools:
  assumes "kernel_pool s' = kernel_pool s" "user_pool s' = user_pool s" "same_regs s s'"
  shows "page_used s' = page_used s" "pools_ok s' = pools_ok s" "pool_of s' flags = pool_of s flags" "in_ram s' = in_ram s"
  using assms by (simp_all add: page_used_def pools_ok_def pool_of_def same_regs_def in_ram_def fun_eq_iff)

lemma allocatedI:
  assumes "pools_ok s" "0 < cnt" and g: "group_at (bmap (used_map (pool_of s flags))) k cnt False"
    and m: "bitmap_ok m" "bit_cnt m = bit_cnt (used_map (pool_of s flags))" "bmap m = fill k cnt True (bmap (used_map (pool_of s flags)))"
    and a: "unat a = unat (base (pool_of s flags)) + 4096 * k"
    and t: "t = with_pool s flags (pool_of s flags\<lparr>used_map := m\<rparr>)" and s': "same_regs t s'" "kernel_pool s' = kernel_pool t" "user_pool s' = user_pool t"
    and mem: "\<And>b. mem s' b = (if in_range a cnt b \<and> flags AND PAL_ZERO \<noteq> 0 then 0 else mem s b)"
  shows "allocated s flags cnt a s'" "pools_ok s'"
proof -
  note same = same_pools [OF s'(2,3,1)]
  have kc: "k + cnt \<le> bit_cnt m" using g m(2) by (simp add: group_at_def)
  have b: "unat (base (pool_of s flags)) mod 4096 = 0" "3221225472 \<le> unat (base (pool_of s flags))"
    using pool_of_ok(1) [OF assms(1), of flags] by (simp_all add: pool_ok_def)
  have "a \<noteq> 0" "unat a mod 4096 = 0" using a b by auto
  moreover have "in_pool (pool_of s flags) a cnt" "in_pool (pool_of s' flags) a cnt"
    using a kc m(2) by (simp_all add: in_pool_def same t)
  moreover have "page_used s' b \<longleftrightarrow> page_used s b \<or> in_range a cnt b" for b
    using with_pool_used [OF assms(1) m(3,2) kc a, of b] by (auto simp: same t)
  moreover have "same_regs s s'" using same_regs_trans [OF _ s'(1)] by (simp add: t)
  ultimately show "allocated s flags cnt a s'"
    unfolding allocated_def using group_unused [OF assms(1) g a] mem g m(3) by (auto simp: same(3) t)
  show "pools_ok s'" using with_pool_ok [OF assms(1) m(1,2)] by (simp add: same t)
qed

lemma palloc_get_multiple_ok:
  assumes "pools_ok s" "0 < cnt" "flags AND PAL_ASSERT = 0"
  obtains "palloc_get_multiple s flags cnt = Some (0, s)" and "\<And>k. \<not> group_at (bmap (used_map (pool_of s flags))) k cnt False"
  | a s' where "palloc_get_multiple s flags cnt = Some (a, s')" and "allocated s flags cnt a s'" and "pools_ok s'"
  using bitmap_scan_and_flip_ok [OF pool_of_ok(2) [OF assms(1)] le0, of flags cnt False]
proof (elim disjE exE conjE)
  assume n: "\<forall>k\<ge>0. \<not> group_at (bmap (used_map (pool_of s flags))) k cnt False"
    and e: "bitmap_scan_and_flip (used_map (pool_of s flags)) 0 cnt False = Some (BITMAP_ERROR, used_map (pool_of s flags))"
  have "palloc_get_multiple s flags cnt = Some (0, s)"
    using palloc_get_multiple_eq [OF assms(2) e assms(3)] by simp
  with n that(1) show thesis by simp
next
  fix k m
  assume e: "bitmap_scan_and_flip (used_map (pool_of s flags)) 0 cnt False = Some (k, m)"
    and g: "group_at (bmap (used_map (pool_of s flags))) k cnt False" and k: "k \<noteq> BITMAP_ERROR" and m: "bitmap_ok m"
    "bit_cnt m = bit_cnt (used_map (pool_of s flags))" "bmap m = fill k cnt (\<not> False) (bmap (used_map (pool_of s flags)))"
  let ?p = "pool_of s flags" let ?a = "base ?p + 4096 * word_of_nat k" let ?t = "with_pool s flags (?p\<lparr>used_map := m\<rparr>)"
  have kc: "k + cnt \<le> bit_cnt m" using g m(2) by (simp add: group_at_def)
  have a: "unat ?a = unat (base ?p) + 4096 * k"
    using pool_addr [OF pool_of_ok(1,3) [OF assms(1)], of k] kc m(2) assms(2) by simp
  have a0: "?a \<noteq> 0" using a pool_of_ok(1) [OF assms(1), of flags] by (auto simp: pool_ok_def)
  have n: "sz (4096 * cnt) = 4096 * cnt" using kc m(2) pool_of_ok(1) [OF assms(1), of flags] pool_of_ok(3) [OF assms(1)] by (simp add: pool_ok_def)
  note eq = palloc_get_multiple_eq [OF assms(2) e assms(3)]
  have m3: "bmap m = fill k cnt True (bmap (used_map ?p))" using m(3) by simp
  note alloc = allocatedI [OF assms(1,2) g m(1,2) m3 a refl]
  show thesis
  proof (cases "flags AND PAL_ZERO = 0")
    case True
    then have "palloc_get_multiple s flags cnt = Some (?a, ?t)" using eq k by simp
    then show thesis by (rule that(2)) (rule alloc, simp_all add: True same_regs_def)+
  next
    case False
    have "in_ram ?t ?a (4096 * cnt)"
      using pool_in_ram [OF assms(1), of flags ?a cnt] a kc m(2) by (simp add: in_pool_def in_ram_def)
    then obtain s' where s': "set_words ?t ?a 0 (4096 * cnt) = Some s'" "same_regs ?t s'" "kernel_pool s' = kernel_pool ?t"
      "user_pool s' = user_pool ?t" "mem s' = (\<lambda>b. if unat ?a \<le> unat b \<and> unat b < unat ?a + 4096 * cnt then 0 else mem ?t b)"
      by (rule set_words_ok [where w = 0])
    have "palloc_get_multiple s flags cnt = Some (?a, s')" using eq k a0 n False s'(1) by simp
    then show thesis by (rule that(2)) (rule alloc, simp_all add: s' False in_range_def)+
  qed
qed

section \<open>Freeing pages\<close>

lemma from_pool_eq:
  assumes "pool_ok ram p" "ram \<le> 262144"
  shows "page_from_pool p a \<longleftrightarrow> in_range (base p) (bit_cnt (used_map p)) a"
proof -
  obtain k where k: "unat (base p) = 4096 * k" using assms(1) by (auto simp: pool_ok_def)
  have "k + bit_cnt (used_map p) \<le> 1048576" using assms k by (simp add: pool_ok_def)
  then have "unat (pg_no (base p) + word_of_nat (bit_cnt (used_map p))) = k + bit_cnt (used_map p)"
    by (simp add: unat_word_ariths unat_of_nat pg_no_unat k)
  moreover have "k \<le> unat a div 4096 \<longleftrightarrow> 4096 * k \<le> unat a" by (simp add: less_eq_div_iff_mult_less_eq mult.commute)
  moreover have "unat a div 4096 < k + bit_cnt (used_map p) \<longleftrightarrow> unat a < 4096 * k + 4096 * bit_cnt (used_map p)"
    by (simp add: div_less_iff_less_mult distrib_right mult.commute)
  ultimately show ?thesis
    by (simp add: page_from_pool_def Let_def bitmap_size_def in_range_def word_le_nat_alt word_less_nat_alt pg_no_unat k)
qed

lemma pool_index:
  assumes "unat (base p) mod 4096 = 0" "unat a mod 4096 = 0" "unat (base p) \<le> unat a"
  obtains k where "unat a = unat (base p) + 4096 * k" and "unat (pg_no a - pg_no (base p)) = k"
proof -
  obtain i j where ij: "unat (base p) = 4096 * i" "unat a = 4096 * j" using assms(1,2) by blast
  then have "i \<le> j" using assms(3) by simp
  then have "unat (pg_no a - pg_no (base p)) = j - i"
    by (subst unat_sub) (simp_all add: word_le_nat_alt pg_no_unat ij)
  with that [of "j - i"] ij \<open>i \<le> j\<close> show thesis by (simp add: diff_mult_distrib2)
qed

lemma free_in_pool_ok:
  assumes "pool_ok ram p" "ram \<le> 262144" "in_pool p a cnt" "unat a mod 4096 = 0" "\<And>b. in_range a cnt b \<Longrightarrow> used_in p b"
  obtains m k where "free_in_pool p a cnt = Some (p\<lparr>used_map := m\<rparr>)" and "bitmap_ok m" and "bit_cnt m = bit_cnt (used_map p)"
    and "bmap m = fill k cnt False (bmap (used_map p))" and "k + cnt \<le> bit_cnt m" and "unat a = unat (base p) + 4096 * k"
proof -
  have p: "bitmap_ok (used_map p)" "unat (base p) mod 4096 = 0" using assms(1) by (simp_all add: pool_ok_def)
  obtain k where k: "unat a = unat (base p) + 4096 * k" "unat (pg_no a - pg_no (base p)) = k"
    using pool_index [OF p(2) assms(4)] assms(3) by (auto simp: in_pool_def)
  have kc: "k + cnt \<le> bit_cnt (used_map p)" using assms(3) k(1) by (simp add: in_pool_def)
  have "bmap (used_map p) ! (k + j)" if j: "j < cnt" for j
  proof -
    obtain b :: u32 where b: "unat b = unat (base p) + 4096 * (k + j)"
      using pool_addr [OF assms(1,2), of "k + j"] kc j by auto
    then have "used_in p b" using assms(5) j k(1) by (simp add: in_range_def)
    then show ?thesis by (simp add: used_in_def b)
  qed
  then have "group_at (bmap (used_map p)) k cnt True" using kc by (simp add: group_at_def)
  then have "False \<notin> set (segment k cnt (bmap (used_map p)))" using group_at_segment [of k cnt "bmap (used_map p)" True] kc by simp
  then have "bitmap_all (used_map p) k cnt = Some True" by (simp add: bitmap_all_def bitmap_contains_ok [OF p(1) kc])
  moreover obtain m where m: "bitmap_set_multiple (used_map p) k cnt False = Some m" "bitmap_ok m" "bit_cnt m = bit_cnt (used_map p)"
    "bmap m = fill k cnt False (bmap (used_map p))" using bitmap_set_multiple_ok [OF p(1) kc] by blast
  ultimately have "free_in_pool p a cnt = Some (p\<lparr>used_map := m\<rparr>)" by (simp add: free_in_pool_def Let_def k(2))
  with that [of m k] m kc k(1) show thesis by simp
qed

lemma palloc_free_multiple_eq:
  assumes "pools_ok s" "0 < cnt" "unat a mod 4096 = 0" "in_pool (pool_of s flags) a cnt"
  shows "palloc_free_multiple s a cnt = do {
    s \<leftarrow> set_words s a 0xcccccccc (4096 * cnt);
    p \<leftarrow> free_in_pool (pool_of s flags) a cnt;
    Some (with_pool s flags p) }"
proof -
  note ok = pool_of_ok(1) [OF assms(1), of flags] pool_of_ok(3) [OF assms(1)]
  have "a \<noteq> 0" using ok assms(4) by (auto simp: pool_ok_def in_pool_def)
  moreover have "sz (4096 * cnt) = 4096 * cnt" using ok assms(4) by (simp add: pool_ok_def in_pool_def)
  moreover have "page_from_pool (kernel_pool s) a \<longleftrightarrow> flags AND PAL_USER = 0" "flags AND PAL_USER \<noteq> 0 \<Longrightarrow> page_from_pool (user_pool s) a"
    using assms(1,2,4) from_pool_eq [of "init_ram_pages s"]
    by (auto simp: pools_ok_def in_pool_def in_range_def pool_of_def split: if_splits)
  ultimately show ?thesis
    using assms(2,3) by (auto simp: palloc_free_multiple_def pg_ofs_zero pool_of_def with_pool_def)
qed

lemma palloc_free_multiple_ok:
  assumes "pools_ok s" "0 < cnt" "unat a mod 4096 = 0" "in_pool (pool_of s flags) a cnt" "\<And>b. in_range a cnt b \<Longrightarrow> page_used s b"
  obtains s' where "palloc_free_multiple s a cnt = Some s'" and "pools_ok s'" and "same_regs s s'"
    and "\<And>b. page_used s' b \<longleftrightarrow> page_used s b \<and> \<not> in_range a cnt b" and "\<And>b. \<not> in_range a cnt b \<Longrightarrow> mem s' b = mem s b"
proof -
  obtain t where t: "set_words s a 0xcccccccc (4096 * cnt) = Some t" "same_regs s t" "kernel_pool t = kernel_pool s" "user_pool t = user_pool s"
    "mem t = (\<lambda>b. if unat a \<le> unat b \<and> unat b < unat a + 4096 * cnt then 0xcccccccc else mem s b)"
    using pool_in_ram [OF assms(1,4)] by (rule set_words_ok)
  note same = same_pools [OF t(3,4,2)]
  note ok = pool_of_ok(1) [OF assms(1), of flags] pool_of_ok(3) [OF assms(1)]
  have "used_in (pool_of s flags) b" if "in_range a cnt b" for b
    using assms(1,4) assms(5) [OF that] that
    by (auto simp: pools_ok_def in_pool_def in_range_def pool_of_def page_used_def used_in_def split: if_splits)
  from free_in_pool_ok [OF ok assms(4,3) this] obtain m k where m: "free_in_pool (pool_of s flags) a cnt = Some (pool_of s flags\<lparr>used_map := m\<rparr>)"
    "bitmap_ok m" "bit_cnt m = bit_cnt (used_map (pool_of s flags))" "bmap m = fill k cnt False (bmap (used_map (pool_of s flags)))"
    "k + cnt \<le> bit_cnt m" "unat a = unat (base (pool_of s flags)) + 4096 * k" by metis
  let ?s = "with_pool t flags (pool_of t flags\<lparr>used_map := m\<rparr>)"
  show thesis
  proof (rule that [of ?s])
    show "palloc_free_multiple s a cnt = Some ?s" using m(1) t(1) by (simp add: palloc_free_multiple_eq [OF assms(1-4)] same)
    show "pools_ok ?s" using with_pool_ok [of t m flags] m(2,3) assms(1) by (simp add: same)
    show "same_regs s ?s" using same_regs_trans [OF t(2)] by simp
    show "page_used ?s b \<longleftrightarrow> page_used s b \<and> \<not> in_range a cnt b" for b
      using with_pool_used [of t m k cnt False flags a b] m assms(1) by (simp add: same)
    show "mem ?s b = mem s b" if "\<not> in_range a cnt b" for b using that by (auto simp: t(5) in_range_def)
  qed
qed

end
