(* ===== verification/Paging_Dirs.thy ===== *)
theory Paging_Dirs
  imports Paging_Props
begin

text \<open>
  Page directories as finite maps. \<open>pd_word\<close> is the entry the hardware finds for an address, \<open>pd_map\<close> the
  frame and the rights in it. \<open>spaces_ok\<close> is the type of a family of address spaces in memory: each is a
  page directory of the right form, no page serves two purposes, and only the tables of the kernel's part
  are shared. \<open>tlb_ok\<close> says that the translation lookaside buffer holds no stale translation.
\<close>

section \<open>Directories in memory\<close>

definition kpage :: "machine \<Rightarrow> u32 \<Rightarrow> bool" where
  "kpage s a \<longleftrightarrow> unat a mod 4096 = 0 \<and> in_ram s a 4096"

definition pde :: "machine \<Rightarrow> u32 \<Rightarrow> u32 \<Rightarrow> u32" where
  "pde s pd i = mem s (pd + 4 * i)"

definition pte :: "machine \<Rightarrow> u32 \<Rightarrow> u32 \<Rightarrow> u32" where
  "pte s pd va = mem s (frame_of (pde s pd (pd_no va)) + 4 * pt_no va)"

definition pd_word :: "machine \<Rightarrow> u32 \<Rightarrow> u32 \<Rightarrow> u32 option" where
  "pd_word s pd va = (if pde s pd (pd_no va) = 0 \<or> pte s pd va AND PTE_P = 0 then None else Some (pte s pd va))"

definition rights :: "u32 \<Rightarrow> u32 \<times> bool \<times> bool" where
  "rights e = (frame_of e, e AND PTE_W \<noteq> 0, e AND PTE_U \<noteq> 0)"

definition pd_map :: "machine \<Rightarrow> u32 \<Rightarrow> u32 \<Rightarrow> (u32 \<times> bool \<times> bool) option" where
  "pd_map s pd va = map_option rights (pd_word s pd va)"

definition tables :: "machine \<Rightarrow> u32 \<Rightarrow> nat \<Rightarrow> u32 set" where
  "tables s pd n = {frame_of (pde s pd i) | i. unat i < n \<and> pde s pd i \<noteq> 0}"

definition pd_ok :: "machine \<Rightarrow> u32 \<Rightarrow> bool" where
  "pd_ok s pd \<longleftrightarrow> kpage s pd \<and> page_used s pd \<and> pd \<notin> tables s pd 1024 \<and>
     (\<forall>t\<in>tables s pd 1024. kpage s t \<and> page_used s t) \<and>
     (\<forall>i. unat i < 1024 \<and> pde s pd i \<noteq> 0 \<longrightarrow> pde s pd i AND PTE_P \<noteq> 0) \<and>
     inj_on (\<lambda>i. frame_of (pde s pd i)) {i. unat i < 1024 \<and> pde s pd i \<noteq> 0} \<and>
     (\<forall>va e. pd_word s pd va = Some e \<longrightarrow> kpage s (frame_of e))"

definition spaces_ok :: "machine \<Rightarrow> u32 set \<Rightarrow> bool" where
  "spaces_ok s D \<longleftrightarrow> pools_ok s \<and> init_page_dir s \<in> D \<and> tables s (init_page_dir s) 768 = {} \<and>
     cr3 s < PHYS_BASE \<and> cr3 s + PHYS_BASE \<in> D \<and> (\<forall>pd\<in>D. pd_ok s pd) \<and>
     (\<forall>pd\<in>D. \<forall>q\<in>D. pd \<noteq> q \<longrightarrow> q \<notin> tables s pd 1024 \<and> tables s pd 768 \<inter> tables s q 1024 = {})"

definition tlb_ok :: "machine \<Rightarrow> bool" where
  "tlb_ok s \<longleftrightarrow> (\<forall>va e. tlb s va = Some e \<longrightarrow> pd_map s (cr3 s + PHYS_BASE) va = Some (rights e))"

lemma same_page: "pg_no va = pg_no vb \<longleftrightarrow> pd_no va = pd_no vb \<and> pt_no va = pt_no vb"
proof -
  have "unat va div 4194304 = unat va div 4096 div 1024" for va :: u32 by (simp add: div_mult2_eq [symmetric])
  then have "unat va div 4096 = unat vb div 4096 \<longleftrightarrow>
      unat va div 4194304 = unat vb div 4194304 \<and> unat va div 4096 mod 1024 = unat vb div 4096 mod 1024"
    by (metis div_mod_decomp)
  then show ?thesis by (simp add: word_unat_eq_iff pg_no_unat pd_no_unat pt_no_unat)
qed

lemma user_pd_no: "is_user_vaddr va \<longleftrightarrow> unat (pd_no va) < 768"
proof -
  have "unat va div 4194304 < 768 \<longleftrightarrow> unat va < 3221225472" by (simp add: div_less_iff_less_mult)
  then show ?thesis by (simp add: is_user_vaddr_def word_less_nat_alt PHYS_BASE_unat pd_no_unat)
qed

lemma range_entry:
  assumes "unat a mod 4096 = 0" "unat b mod 4096 = 0" "unat i < 1024"
  shows "in_range a 1 (b + 4 * i) \<longleftrightarrow> b = a"
proof -
  obtain k l where "unat a = 4096 * k" "unat b = 4096 * l" using assms(1,2) by blast
  then have "in_range a 1 (b + 4 * i) \<longleftrightarrow> unat a = unat b"
    using assms(3) entry_unat [OF assms(2,3)] by (auto simp: in_range_def)
  then show ?thesis by (auto simp: word_unat_eq_iff)
qed

lemma entry_access:
  assumes "kpage s a" "unat i < 1024"
  shows "load s (a + 4 * i) = Some (mem s (a + 4 * i))" "store s (a + 4 * i) w = Some (s\<lparr>mem := (mem s)(a + 4 * i := w)\<rparr>)"
    "a + 4 * i \<noteq> 0"
proof -
  have a: "unat a mod 4096 = 0" "in_ram s a 4096" using assms(1) by (simp_all add: kpage_def)
  obtain k where k: "unat a = 4096 * k" using a(1) by blast
  have u: "unat (a + 4 * i) = 4 * (1024 * k + unat i)" using entry_unat [OF a(1) assms(2)] k by simp
  then have al: "unat (a + 4 * i) mod 4 = 0" by (simp only: mod_mult_self1_is_0)
  have "3221225472 \<le> 4096 * k" "4096 * k + 4096 \<le> 3221225472 + 4096 * init_ram_pages s"
    using a(2) by (simp_all add: in_ram_def PHYS_BASE_unat k)
  then have r: "in_ram s (a + 4 * i) 4" "unat (a + 4 * i) \<noteq> 0"
    using assms(2) by (auto simp: in_ram_def PHYS_BASE_unat u)
  show "load s (a + 4 * i) = Some (mem s (a + 4 * i))" "store s (a + 4 * i) w = Some (s\<lparr>mem := (mem s)(a + 4 * i := w)\<rparr>)"
    using al r by (simp_all add: load_def store_def)
  show "a + 4 * i \<noteq> 0" using r(2) by (metis unsigned_0)
qed

lemma tablesI: "unat i < n \<Longrightarrow> pde s pd i \<noteq> 0 \<Longrightarrow> frame_of (pde s pd i) \<in> tables s pd n"
  by (auto simp: tables_def)

lemma tables_mono: "m \<le> n \<Longrightarrow> tables s pd m \<subseteq> tables s pd n"
  by (auto simp: tables_def)

lemma pd_okD:
  assumes "pd_ok s pd"
  shows "kpage s pd" "page_used s pd" "pd \<notin> tables s pd 1024" "t \<in> tables s pd 1024 \<Longrightarrow> kpage s t" "t \<in> tables s pd 1024 \<Longrightarrow> page_used s t"
    "unat i < 1024 \<Longrightarrow> pde s pd i \<noteq> 0 \<Longrightarrow> pde s pd i AND PTE_P \<noteq> 0"
    "inj_on (\<lambda>i. frame_of (pde s pd i)) {i. unat i < 1024 \<and> pde s pd i \<noteq> 0}" "pd_word s pd va = Some e \<Longrightarrow> kpage s (frame_of e)"
  using assms unfolding pd_ok_def by blast+

lemma spaces_okD:
  assumes "spaces_ok s D"
  shows "pools_ok s" "init_page_dir s \<in> D" "tables s (init_page_dir s) 768 = {}" "cr3 s < PHYS_BASE" "cr3 s + PHYS_BASE \<in> D"
    "pd \<in> D \<Longrightarrow> pd_ok s pd" "pd \<in> D \<Longrightarrow> q \<in> D \<Longrightarrow> q \<notin> tables s pd 1024"
    "pd \<in> D \<Longrightarrow> q \<in> D \<Longrightarrow> pd \<noteq> q \<Longrightarrow> tables s pd 768 \<inter> tables s q 1024 = {}"
proof -
  show "pools_ok s" "init_page_dir s \<in> D" "tables s (init_page_dir s) 768 = {}" "cr3 s < PHYS_BASE" "cr3 s + PHYS_BASE \<in> D"
    using assms unfolding spaces_ok_def by - (elim conjE, assumption)+
  show ok: "pd_ok s pd" if "pd \<in> D" for pd using assms that unfolding spaces_ok_def by (elim conjE) (rule bspec)
  have sep: "\<forall>pd\<in>D. \<forall>q\<in>D. pd \<noteq> q \<longrightarrow> q \<notin> tables s pd 1024 \<and> tables s pd 768 \<inter> tables s q 1024 = {}"
    using assms unfolding spaces_ok_def by (elim conjE)
  show "q \<notin> tables s pd 1024" if "pd \<in> D" "q \<in> D" using sep that pd_okD(3) [OF ok [OF that(1)]] by (cases "pd = q") simp_all
  show "tables s pd 768 \<inter> tables s q 1024 = {}" if "pd \<in> D" "q \<in> D" "pd \<noteq> q" using sep that by simp
qed

lemma frame_kpage: "kpage s (frame_of w) \<Longrightarrow> ptov (w AND PTE_ADDR) = Some (frame_of w)"
  by (rule frame_kernel) (simp add: kpage_def in_ram_def PHYS_BASE_unat)

lemma lookup_page_present:
  assumes "pd_ok s pd" "create \<longrightarrow> is_user_vaddr va" "pde s pd (pd_no va) \<noteq> 0"
  shows "lookup_page s pd va create = Some (frame_of (pde s pd (pd_no va)) + 4 * pt_no va, s)"
proof -
  note i = pd_no_less [of va]
  have "pd \<noteq> 0" using entry_access(3) [OF pd_okD(1) [OF assms(1)], of 0] by simp
  then show ?thesis
    using assms entry_access(1) [OF pd_okD(1) [OF assms(1)] i] pd_okD(6) [OF assms(1) i]
      frame_kpage [OF pd_okD(4) [OF assms(1) tablesI [OF i]]]
    by (simp add: lookup_page_def pde_get_pt_def pde_def Let_def)
qed

lemma lookup_page_absent:
  assumes "pd_ok s pd" "pde s pd (pd_no va) = 0"
  shows "lookup_page s pd va False = Some (0, s)"
proof -
  have "pd \<noteq> 0" using entry_access(3) [OF pd_okD(1) [OF assms(1)], of 0] by simp
  then show ?thesis
    using assms(2) entry_access(1) [OF pd_okD(1) [OF assms(1)] pd_no_less [of va]] by (simp add: lookup_page_def pde_def Let_def)
qed

section \<open>Changing an entry of a page table\<close>

text \<open>A word is written to the entry for \<open>va\<close> in the table that \<open>pd\<close> has for it.\<close>

lemma pte_write:
  assumes sp: "spaces_ok s D" and pd: "pd \<in> D" "pde s pd (pd_no va) \<noteq> 0"
    and s': "s' = s\<lparr>mem := (mem s)(frame_of (pde s pd (pd_no va)) + 4 * pt_no va := e)\<rparr>"
    and q: "q \<in> D"
  shows "unat i < 1024 \<Longrightarrow> pde s' q i = pde s q i"
    and "pde s q (pd_no vb) \<noteq> 0 \<Longrightarrow>
      pte s' q vb = (if frame_of (pde s q (pd_no vb)) = frame_of (pde s pd (pd_no va)) \<and> pt_no vb = pt_no va then e else pte s q vb)"
proof -
  let ?t = "frame_of (pde s pd (pd_no va))"
  have t: "?t \<in> tables s pd 1024" using tablesI [OF pd_no_less pd(2)] .
  have al: "unat q mod 4096 = 0" using pd_okD(1) [OF spaces_okD(6) [OF sp q]] by (simp add: kpage_def)
  have "q \<noteq> ?t" using spaces_okD(7) [OF sp pd(1) q] t by auto
  then show *: "pde s' q i = pde s q i" if "unat i < 1024" for i
    using entry_eq [OF al frame_aligned that pt_no_less] by (simp add: pde_def s')
  show "pte s' q vb = (if frame_of (pde s q (pd_no vb)) = ?t \<and> pt_no vb = pt_no va then e else pte s q vb)" if "pde s q (pd_no vb) \<noteq> 0"
    using entry_eq [OF frame_aligned frame_aligned pt_no_less pt_no_less] * [OF pd_no_less] by (simp add: pte_def s')
qed

lemma pte_write_own:
  assumes "pd_ok s pd" "pde s pd (pd_no va) \<noteq> 0" "pde s pd (pd_no vb) \<noteq> 0"
  shows "frame_of (pde s pd (pd_no vb)) = frame_of (pde s pd (pd_no va)) \<and> pt_no vb = pt_no va \<longleftrightarrow> pg_no vb = pg_no va"
  using inj_onD [OF pd_okD(7) [OF assms(1)], of "pd_no vb" "pd_no va"] assms(2,3) pd_no_less by (auto simp: same_page)

lemma pte_write_other:
  assumes "spaces_ok s D" "pd \<in> D" "q \<in> D" "q \<noteq> pd" "is_user_vaddr va" "pde s pd (pd_no va) \<noteq> 0" "pde s q (pd_no vb) \<noteq> 0"
  shows "frame_of (pde s q (pd_no vb)) \<noteq> frame_of (pde s pd (pd_no va))"
proof -
  have "frame_of (pde s pd (pd_no va)) \<in> tables s pd 768" using tablesI assms(5,6) by (simp add: user_pd_no)
  moreover have "frame_of (pde s q (pd_no vb)) \<in> tables s q 1024" using tablesI [OF pd_no_less assms(7)] .
  moreover have "tables s pd 768 \<inter> tables s q 1024 = {}" using spaces_okD(8) [OF assms(1-3)] assms(4) by simp
  ultimately show ?thesis by (metis disjoint_iff)
qed

lemma pte_write_ok:
  assumes sp: "spaces_ok s D" and pd: "pd \<in> D" "pde s pd (pd_no va) \<noteq> 0"
    and s': "s' = s\<lparr>mem := (mem s)(frame_of (pde s pd (pd_no va)) + 4 * pt_no va := e)\<rparr>"
    and e: "e AND PTE_P = 0 \<or> kpage s (frame_of e)"
  shows "spaces_ok s' D"
proof -
  have same: "page_used s' = page_used s" "pools_ok s' = pools_ok s" "in_ram s' = in_ram s"
    using same_pools [of s' s] by (simp_all add: s' same_regs_def)
  then have kp: "kpage s' = kpage s" by (simp add: kpage_def fun_eq_iff)
  have pde: "pde s' q i = pde s q i" if "q \<in> D" "unat i < 1024" for q i using pte_write(1) [OF sp pd s' that] .
  then have tab: "tables s' q n = tables s q n" if "q \<in> D" "n \<le> 1024" for q n
    using that unfolding tables_def by (smt (verit, best) Collect_cong order_less_le_trans)
  have "pd_ok s' q" if q: "q \<in> D" for q
  proof -
    note ok = spaces_okD(6) [OF sp q]
    have "{i. unat i < 1024 \<and> pde s' q i \<noteq> 0} = {i. unat i < 1024 \<and> pde s q i \<noteq> 0}" using pde [OF q] by auto
    moreover have "inj_on (\<lambda>i. frame_of (pde s' q i)) {i. unat i < 1024 \<and> pde s q i \<noteq> 0}"
      using pd_okD(7) [OF ok] by (rule inj_on_cong [THEN iffD1, rotated]) (simp add: pde [OF q])
    moreover have "kpage s (frame_of x)" if "pd_word s' q vb = Some x" for vb x
      using that e pd_okD(8) [OF ok, of vb] pte_write(2) [OF sp pd s' q, of vb] pde [OF q pd_no_less]
      by (auto simp: pd_word_def split: if_splits)
    moreover have "\<forall>i. unat i < 1024 \<and> pde s' q i \<noteq> 0 \<longrightarrow> pde s' q i AND PTE_P \<noteq> 0"
      using pd_okD(6) [OF ok] by (metis pde [OF q])
    ultimately show ?thesis
      using pd_okD(1-5) [OF ok] unfolding pd_ok_def by (simp add: kp same tab q)
  qed
  then show ?thesis
    using spaces_okD(1-5,7,8) [OF sp] unfolding spaces_ok_def by (simp add: same tab s' [THEN arg_cong, of init_page_dir] s' [THEN arg_cong, of cr3])
qed

lemma pte_write_word:
  assumes sp: "spaces_ok s D" and pd: "pd \<in> D" "pde s pd (pd_no va) \<noteq> 0"
    and s': "s' = s\<lparr>mem := (mem s)(frame_of (pde s pd (pd_no va)) + 4 * pt_no va := e)\<rparr>"
  shows "pd_word s' pd vb = (if pg_no vb = pg_no va then (if e AND PTE_P = 0 then None else Some e) else pd_word s pd vb)"
    and "is_user_vaddr va \<Longrightarrow> q \<in> D \<Longrightarrow> q \<noteq> pd \<Longrightarrow> pd_word s' q vb = pd_word s q vb"
proof -
  note w = pte_write [OF sp pd s']
  show "pd_word s' pd vb = (if pg_no vb = pg_no va then (if e AND PTE_P = 0 then None else Some e) else pd_word s pd vb)"
  proof (cases "pde s pd (pd_no vb) = 0")
    case True
    then have "pg_no vb \<noteq> pg_no va" using pd(2) by (auto simp: same_page)
    then show ?thesis using True w(1) [OF pd(1) pd_no_less] by (simp add: pd_word_def)
  next
    case False
    then show ?thesis
      using w(1) [OF pd(1) pd_no_less] w(2) [OF pd(1) False] pte_write_own [OF spaces_okD(6) [OF sp pd(1)] pd(2) False]
      by (simp add: pd_word_def)
  qed
  show "pd_word s' q vb = pd_word s q vb" if "is_user_vaddr va" "q \<in> D" "q \<noteq> pd"
    using w [OF that(2)] pd_no_less [of vb] pte_write_other [OF sp pd(1) that(2,3,1) pd(2), of vb]
    by (cases "pde s q (pd_no vb) = 0") (simp_all add: pd_word_def)
qed

lemma pte_write_flags:
  assumes sp: "spaces_ok s D" and pd: "pd \<in> D" "pde s pd (pd_no va) \<noteq> 0"
    and s': "s' = s\<lparr>mem := (mem s)(frame_of (pde s pd (pd_no va)) + 4 * pt_no va := e)\<rparr>"
    and e: "e AND PTE_P = pte s pd va AND PTE_P" "rights e = rights (pte s pd va)" and q: "q \<in> D"
  shows "pd_map s' q vb = pd_map s q vb" "spaces_ok s' D"
proof -
  have "pte s q vb = pte s pd va" if "frame_of (pde s q (pd_no vb)) = frame_of (pde s pd (pd_no va))" "pt_no vb = pt_no va"
    using that by (simp add: pte_def)
  then show "pd_map s' q vb = pd_map s q vb"
    using pte_write [OF sp pd s' q] pd_no_less [of vb] e by (cases "pde s q (pd_no vb) = 0") (auto simp: pd_map_def pd_word_def)
  have "e AND PTE_P = 0 \<or> kpage s (frame_of e)"
    using e pd_okD(8) [OF spaces_okD(6) [OF sp pd(1)], of va "pte s pd va"] pd(2) by (simp add: pd_word_def rights_def) metis
  then show "spaces_ok s' D" by (rule pte_write_ok [OF sp pd s'])
qed

section \<open>The translation lookaside buffer\<close>

lemma no_tlb [simp]:
  "spaces_ok (s\<lparr>tlb := m\<rparr>) D = spaces_ok s D" "pd_map (s\<lparr>tlb := m\<rparr>) = pd_map s" "tlb_ok (s\<lparr>tlb := Map.empty\<rparr>)"
proof -
  have "pools_ok (s\<lparr>tlb := m\<rparr>) = pools_ok s" "page_used (s\<lparr>tlb := m\<rparr>) = page_used s"
    by (simp_all add: pools_ok_def page_used_def fun_eq_iff)
  moreover have "pde (s\<lparr>tlb := m\<rparr>) = pde s" "pd_word (s\<lparr>tlb := m\<rparr>) = pd_word s" "kpage (s\<lparr>tlb := m\<rparr>) = kpage s"
    by (simp_all add: pde_def pte_def pd_word_def kpage_def in_ram_def fun_eq_iff)
  moreover have "pd_ok (s\<lparr>tlb := m\<rparr>) = pd_ok s" by (simp add: pd_ok_def tables_def calculation fun_eq_iff)
  ultimately show "spaces_ok (s\<lparr>tlb := m\<rparr>) D = spaces_ok s D" "pd_map (s\<lparr>tlb := m\<rparr>) = pd_map s"
    by (simp_all add: spaces_ok_def tables_def pd_map_def fun_eq_iff)
qed (simp add: tlb_ok_def)

lemma invalidate_pagedir_eq:
  assumes "spaces_ok s D" "pd \<in> D"
  shows "invalidate_pagedir s pd = Some (if cr3 s + PHYS_BASE = pd then s\<lparr>tlb := Map.empty\<rparr> else s)"
proof -
  have "in_ram s pd 4096" "pd \<noteq> 0"
    using pd_okD(1) [OF spaces_okD(6) [OF assms]] entry_access(3) [of s pd 0] by (simp_all add: kpage_def)
  then have "vtop pd = Some (pd - PHYS_BASE)" by (simp add: vtop_def is_kernel_vaddr_def in_ram_def word_le_nat_alt)
  then show ?thesis
    using spaces_okD(4) [OF assms(1)] \<open>pd \<noteq> 0\<close>
    by (auto simp: invalidate_pagedir_def active_pd_def ptov_def pagedir_activate_def load_cr3_def)
qed

lemma tlb_ok_keep:
  assumes "tlb_ok s" "tlb s' = tlb s" "cr3 s' = cr3 s"
    and "\<And>va r. pd_map s (cr3 s + PHYS_BASE) va = Some r \<Longrightarrow> pd_map s' (cr3 s + PHYS_BASE) va = Some r"
  shows "tlb_ok s'"
  using assms by (simp add: tlb_ok_def)

section \<open>Operations on a directory\<close>

lemma flag_apart:
  fixes w :: u32
  assumes "f AND m = 0"
  shows "(w OR f) AND m = w AND m" "(w AND NOT f) AND m = w AND m"
proof -
  have "\<not> (bit f n \<and> bit m n)" for n using assms by (metis bit_and_iff bit_0_eq bot_apply bot_bool_def)
  then show "(w OR f) AND m = w AND m" "(w AND NOT f) AND m = w AND m"
    by (auto intro!: bit_word_eqI simp: bit_simps)
qed

lemma flag_rights:
  assumes "f AND PTE_P = 0" "f AND PTE_W = 0" "f AND PTE_U = 0" "f AND PTE_ADDR = 0"
  shows "(w OR f) AND PTE_P = w AND PTE_P" "rights (w OR f) = rights w"
    "(w AND NOT f) AND PTE_P = w AND PTE_P" "rights (w AND NOT f) = rights w"
  by (simp_all add: rights_def frame_of_def flag_apart assms)

lemma pte_access:
  assumes "pd_ok s pd" "pde s pd (pd_no va) \<noteq> 0"
  defines "a \<equiv> frame_of (pde s pd (pd_no va)) + 4 * pt_no va"
  shows "load s a = Some (pte s pd va)" "store s a w = Some (s\<lparr>mem := (mem s)(a := w)\<rparr>)" "a \<noteq> 0"
  using entry_access [OF pd_okD(4) [OF assms(1) tablesI [OF pd_no_less assms(2)]] pt_no_less] by (simp_all add: a_def pte_def)

lemma pd_word_page: "pg_no vb = pg_no va \<Longrightarrow> pd_word s pd vb = pd_word s pd va"
  by (simp add: pd_word_def pte_def same_page)

lemma pagedir_get_page_eq:
  assumes "pd_ok s pd" "is_user_vaddr va"
  shows "pagedir_get_page s pd va = Some (case pd_map s pd va of None \<Rightarrow> 0 | Some (f, _) \<Rightarrow> f + pg_ofs va, s)"
proof (cases "pde s pd (pd_no va) = 0")
  case True
  then show ?thesis using assms by (simp add: pagedir_get_page_def lookup_page_absent pd_map_def pd_word_def)
next
  case False
  then show ?thesis
    using assms pte_access [OF assms(1) False] frame_kpage [OF pd_okD(8) [OF assms(1), of va]]
    by (simp add: pagedir_get_page_def lookup_page_present pd_map_def pd_word_def pte_get_page_def rights_def)
qed

text \<open>What an operation on \<open>pd\<close> may do to the others, the TLB and the machine.\<close>

definition keeps :: "machine \<Rightarrow> machine \<Rightarrow> u32 set \<Rightarrow> u32 \<Rightarrow> bool" where
  "keeps s s' D pd \<longleftrightarrow> spaces_ok s' D \<and> tlb_ok s' \<and> (\<forall>q\<in>D. q \<noteq> pd \<longrightarrow> pd_map s' q = pd_map s q) \<and>
     init_page_dir s' = init_page_dir s \<and> cr3 s' = cr3 s"

lemma pagedir_clear_page_ok:
  assumes sp: "spaces_ok s D" "tlb_ok s" and pd: "pd \<in> D" and va: "pg_ofs va = 0" "is_user_vaddr va"
  obtains s' where "pagedir_clear_page s pd va = Some s'" and "keeps s s' D pd"
    and "\<And>vb. pd_map s' pd vb = (if pg_no vb = pg_no va then None else pd_map s pd vb)"
    and "cr3 s + PHYS_BASE = pd \<Longrightarrow> pd_map s pd va \<noteq> None \<Longrightarrow> tlb s' = Map.empty"
proof (cases "pd_word s pd va")
  case None
  have "pd_word s pd vb = None" if "pg_no vb = pg_no va" for vb
    using None pd_word_page [OF that] by simp
  moreover have "pagedir_clear_page s pd va = Some s"
    using None va pte_access [OF spaces_okD(6) [OF sp(1) pd], of va]
    by (cases "pde s pd (pd_no va) = 0")
      (auto simp: pagedir_clear_page_def lookup_page_absent lookup_page_present spaces_okD(6) [OF sp(1) pd] pd_word_def split: if_splits)
  ultimately show thesis using that [of s] sp None by (simp add: keeps_def pd_map_def)
next
  case (Some w)
  note ok = spaces_okD(6) [OF sp(1) pd]
  have nz: "pde s pd (pd_no va) \<noteq> 0" and w: "w = pte s pd va" "w AND PTE_P \<noteq> 0" using Some by (auto simp: pd_word_def split: if_splits)
  define t where "t = s\<lparr>mem := (mem s)(frame_of (pde s pd (pd_no va)) + 4 * pt_no va := w AND NOT PTE_P)\<rparr>"
  have p: "(w AND NOT PTE_P) AND PTE_P = 0" by (auto intro!: bit_word_eqI simp: bit_simps)
  have t: "spaces_ok t D" using pte_write_ok [OF sp(1) pd nz t_def] p by simp
  note word = pte_write_word [OF sp(1) pd nz t_def]
  let ?s = "if cr3 s + PHYS_BASE = pd then t\<lparr>tlb := Map.empty\<rparr> else t"
  have c: "cr3 t = cr3 s" "init_page_dir t = init_page_dir s" "tlb t = tlb s" by (simp_all add: t_def)
  have others: "pd_map t q = pd_map s q" if "q \<in> D" "q \<noteq> pd" for q using word(2) [OF va(2) that] by (simp add: pd_map_def fun_eq_iff)
  have "pagedir_clear_page s pd va = invalidate_pagedir t pd"
    using va w nz pte_access [OF ok nz] by (simp add: pagedir_clear_page_def lookup_page_present [OF ok _ nz] t_def)
  then have "pagedir_clear_page s pd va = Some ?s" using invalidate_pagedir_eq [OF t pd] by (simp add: c)
  moreover have "tlb_ok t" if "cr3 s + PHYS_BASE \<noteq> pd"
    using tlb_ok_keep [OF sp(2)] others [OF spaces_okD(5) [OF sp(1)] that] by (simp add: c)
  moreover have "pd_map t pd vb = (if pg_no vb = pg_no va then None else pd_map s pd vb)" for vb
    using p by (auto simp: pd_map_def word(1))
  ultimately show thesis using that [of ?s] t others by (cases "cr3 s + PHYS_BASE = pd") (simp_all add: keeps_def c)
qed

text \<open>The flags \<open>f\<close> that the hardware sets, dirty and accessed, are read and written alike.\<close>

definition has_flag :: "machine \<Rightarrow> u32 \<Rightarrow> u32 \<Rightarrow> u32 \<Rightarrow> bool" where
  "has_flag s pd f va \<longleftrightarrow> pde s pd (pd_no va) \<noteq> 0 \<and> pte s pd va AND f \<noteq> 0"

lemma pagedir_is_eq:
  assumes "pd_ok s pd"
  shows "pagedir_is_dirty s pd va = Some (has_flag s pd PTE_D va, s)" "pagedir_is_accessed s pd va = Some (has_flag s pd PTE_A va, s)"
  using pte_access [OF assms, of va] assms
  by (cases "pde s pd (pd_no va) = 0"; simp add: pagedir_is_dirty_def pagedir_is_accessed_def lookup_page_absent lookup_page_present has_flag_def)+

lemma flag_write:
  assumes sp: "spaces_ok s D" "tlb_ok s" and pd: "pd \<in> D"
    and f: "f AND PTE_P = 0" "f AND PTE_W = 0" "f AND PTE_U = 0" "f AND PTE_ADDR = 0" "f \<noteq> 0"
  obtains s' where "do { (a, s) \<leftarrow> lookup_page s pd va False;
      if a = 0 then Some s
      else do { w \<leftarrow> load s a;
        if b then store s a (w OR f)
        else do { s \<leftarrow> store s a (w AND NOT f); invalidate_pagedir s pd } } } = Some s'"
    and "keeps s s' D pd" and "pd_map s' pd = pd_map s pd" and "pde s pd (pd_no va) \<noteq> 0 \<Longrightarrow> has_flag s' pd f va = b"
proof (cases "pde s pd (pd_no va) = 0")
  case True
  then show thesis using that [of s] sp lookup_page_absent [OF spaces_okD(6) [OF sp(1) pd] True] by (simp add: keeps_def)
next
  case nz: False
  note ok = spaces_okD(6) [OF sp(1) pd]
  let ?e = "if b then pte s pd va OR f else pte s pd va AND NOT f"
  define t where "t = s\<lparr>mem := (mem s)(frame_of (pde s pd (pd_no va)) + 4 * pt_no va := ?e)\<rparr>"
  have e: "?e AND PTE_P = pte s pd va AND PTE_P" "rights ?e = rights (pte s pd va)"
    using flag_rights [OF f(1-4), of "pte s pd va"] by simp_all
  note w = pte_write_flags [OF sp(1) pd nz t_def e]
  let ?s = "if \<not> b \<and> cr3 s + PHYS_BASE = pd then t\<lparr>tlb := Map.empty\<rparr> else t"
  have c: "cr3 t = cr3 s" "init_page_dir t = init_page_dir s" "tlb t = tlb s" by (simp_all add: t_def)
  have tt: "spaces_ok t D" using w(2) [OF pd] .
  have maps: "pd_map t q = pd_map s q" if "q \<in> D" for q using w(1) [OF that] by (simp add: fun_eq_iff)
  have "tlb_ok t" using tlb_ok_keep [OF sp(2)] maps [OF spaces_okD(5) [OF sp(1)]] by (simp add: c)
  moreover have "has_flag t pd f va = b"
    using pte_write [OF sp(1) pd nz t_def pd] pd_no_less [of va] nz f(5)
    by (auto simp: has_flag_def bit.conj_disj_distrib2 and.assoc)
  moreover have "has_flag (t\<lparr>tlb := Map.empty\<rparr>) = has_flag t" by (simp add: has_flag_def pde_def pte_def fun_eq_iff)
  moreover have "invalidate_pagedir t pd = Some (if cr3 s + PHYS_BASE = pd then t\<lparr>tlb := Map.empty\<rparr> else t)"
    using invalidate_pagedir_eq [OF tt pd] by (simp add: c)
  moreover have "b \<Longrightarrow> store s (frame_of (pde s pd (pd_no va)) + 4 * pt_no va) (pte s pd va OR f) = Some t"
    "\<not> b \<Longrightarrow> store s (frame_of (pde s pd (pd_no va)) + 4 * pt_no va) (pte s pd va AND NOT f) = Some t"
    using pte_access(2) [OF ok nz] by (simp_all add: t_def)
  ultimately show thesis
    using that [of ?s] tt maps pte_access(1,3) [OF ok nz] pd
    by (cases b; cases "cr3 s + PHYS_BASE = pd") (simp_all add: keeps_def c lookup_page_present [OF ok _ nz])
qed

lemma flags_apart:
  "PTE_D AND PTE_P = 0" "PTE_D AND PTE_W = 0" "PTE_D AND PTE_U = 0" "PTE_D AND PTE_ADDR = 0" "PTE_D \<noteq> 0"
  "PTE_A AND PTE_P = 0" "PTE_A AND PTE_W = 0" "PTE_A AND PTE_U = 0" "PTE_A AND PTE_ADDR = 0" "PTE_A \<noteq> 0"
  by (simp_all add: PTE_ADDR_def)

lemma pagedir_set_dirty_ok:
  assumes "spaces_ok s D" "tlb_ok s" "pd \<in> D"
  obtains s' where "pagedir_set_dirty s pd va b = Some s'" and "keeps s s' D pd" and "pd_map s' pd = pd_map s pd"
    and "pde s pd (pd_no va) \<noteq> 0 \<Longrightarrow> has_flag s' pd PTE_D va = b"
  by (rule flag_write [OF assms flags_apart(1-5), of va b, folded pagedir_set_dirty_def]) (rule that)

lemma pagedir_set_accessed_ok:
  assumes "spaces_ok s D" "tlb_ok s" "pd \<in> D"
  obtains s' where "pagedir_set_accessed s pd va b = Some s'" and "keeps s s' D pd" and "pd_map s' pd = pd_map s pd"
    and "pde s pd (pd_no va) \<noteq> 0 \<Longrightarrow> has_flag s' pd PTE_A va = b"
  by (rule flag_write [OF assms flags_apart(6-10), of va b, folded pagedir_set_accessed_def]) (rule that)

end
