(* ===== verification/Paging_Maps.thy ===== *)
theory Paging_Maps
  imports Paging_Dirs
begin

text \<open>
  The operations that allocate: a page table for a directory, and a new directory. With them the properties
  of address spaces: every operation keeps the type of a family of directories, and each one implements an
  operation on finite maps that touches no other address space.
\<close>

section \<open>Entries made by the kernel\<close>

lemma kpage_vtop: "kpage s a \<Longrightarrow> vtop a = Some (a - PHYS_BASE)"
  by (simp add: kpage_def in_ram_def vtop_def is_kernel_vaddr_def word_le_nat_alt)

lemma pde_create_ok:
  assumes "kpage s pt"
  obtains e where "pde_create pt = Some e" and "e \<noteq> 0" and "e AND PTE_P \<noteq> 0" and "frame_of e = pt"
proof
  let ?e = "(pt - PHYS_BASE) OR 7"
  have a: "unat pt mod 4096 = 0" "3221225472 \<le> unat pt" using assms by (simp_all add: kpage_def in_ram_def PHYS_BASE_unat)
  have "(PTE_U OR PTE_P) OR PTE_W = 7" by simp
  then show "pde_create pt = Some ?e"
    using a kpage_vtop [OF assms] by (simp add: pde_create_def pg_ofs_zero or.assoc)
  show p: "?e AND PTE_P \<noteq> 0" by (simp add: bit.conj_disj_distrib2)
  show "frame_of ?e = pt" using frame_flags [OF a] by (simp add: PTE_ADDR_def)
  show "?e \<noteq> 0" using p by auto
qed

lemma phys_flags:
  assumes "kpage s a"
  shows "(a - PHYS_BASE) AND PTE_W = 0" "(a - PHYS_BASE) AND PTE_U = 0" "f AND PTE_ADDR = 0 \<Longrightarrow> frame_of ((a - PHYS_BASE) OR f) = a"
proof -
  have al: "unat a mod 4096 = 0" "3221225472 \<le> unat a" using assms by (simp_all add: kpage_def in_ram_def PHYS_BASE_unat)
  show "f AND PTE_ADDR = 0 \<Longrightarrow> frame_of ((a - PHYS_BASE) OR f) = a" by (rule frame_flags [OF al])
  have "(a - PHYS_BASE) AND PTE_ADDR = a - PHYS_BASE"
    using frame_flags [OF al, of 0] by (simp add: frame_of_def eq_diff_eq)
  then have "(a - PHYS_BASE) AND PTE_W = (a - PHYS_BASE) AND (PTE_ADDR AND PTE_W)" "(a - PHYS_BASE) AND PTE_U = (a - PHYS_BASE) AND (PTE_ADDR AND PTE_U)"
    by (simp_all only: and.assoc [symmetric])
  then show "(a - PHYS_BASE) AND PTE_W = 0" "(a - PHYS_BASE) AND PTE_U = 0" by (simp_all add: PTE_ADDR_def)
qed

lemma pte_create_kernel_eq:
  "kpage s a \<Longrightarrow> pte_create_kernel a writable = Some ((a - PHYS_BASE) OR (PTE_P OR (if writable then PTE_W else 0)))"
  by (simp add: pte_create_kernel_def kpage_vtop pg_ofs_zero or.assoc) (simp add: kpage_def)

lemma pte_create_kernel_ok:
  assumes "kpage s a"
  obtains e where "pte_create_kernel a writable = Some e" and "e AND PTE_P \<noteq> 0" and "rights e = (a, writable, False)"
proof
  let ?e = "(a - PHYS_BASE) OR (PTE_P OR (if writable then PTE_W else 0))"
  show "pte_create_kernel a writable = Some ?e" by (rule pte_create_kernel_eq [OF assms])
  show "?e AND PTE_P \<noteq> 0" by (cases writable) (simp_all add: bit.conj_disj_distrib2)
  show "rights ?e = (a, writable, False)"
    using phys_flags [OF assms] by (cases writable) (simp_all add: rights_def bit.conj_disj_distrib2 PTE_ADDR_def)
qed

lemma pte_create_user_ok:
  assumes "kpage s a"
  obtains e where "pte_create_user a writable = Some e" and "e AND PTE_P \<noteq> 0" and "rights e = (a, writable, True)"
proof
  let ?e = "(a - PHYS_BASE) OR (PTE_P OR (if writable then PTE_W else 0) OR PTE_U)"
  show "pte_create_user a writable = Some ?e" using pte_create_kernel_eq [OF assms] by (simp add: pte_create_user_def or.assoc)
  show "?e AND PTE_P \<noteq> 0" by (cases writable) (simp_all add: bit.conj_disj_distrib2)
  show "rights ?e = (a, writable, True)"
    using phys_flags [OF assms] by (cases writable) (simp_all add: rights_def bit.conj_disj_distrib2 PTE_ADDR_def)
qed

section \<open>A new page table\<close>

lemma fresh_page:
  assumes "allocated s flags 1 pt t" "pools_ok s" "page_used s q" "unat q mod 4096 = 0"
  shows "q \<noteq> pt" "unat i < 1024 \<Longrightarrow> mem t (q + 4 * i) = mem s (q + 4 * i)"
proof -
  have "in_range pt 1 pt" by (simp add: in_range_def)
  then show q: "q \<noteq> pt" using allocatedD(6) [OF assms(1)] assms(3) by auto
  show "mem t (q + 4 * i) = mem s (q + 4 * i)" if "unat i < 1024"
    using allocatedD(8) [OF assms(1)] range_entry [OF allocatedD(2) [OF assms(1)] assms(4) that] q by simp
qed

lemma allocated_kpage:
  assumes "allocated s flags 1 pt t" "pools_ok s"
  shows "kpage t pt" "kpage t = kpage s" "page_used t b \<longleftrightarrow> page_used s b \<or> in_range pt 1 b" "\<not> page_used s pt"
proof -
  have r: "in_ram t = in_ram s" using allocatedD(5) [OF assms(1)] by (simp add: same_regs_def in_ram_def fun_eq_iff)
  show "kpage t = kpage s" by (simp add: kpage_def r fun_eq_iff)
  show "kpage t pt" using pool_in_ram [OF assms(2) allocatedD(3) [OF assms(1)]] allocatedD(2) [OF assms(1)] by (simp add: kpage_def r)
  show "page_used t b \<longleftrightarrow> page_used s b \<or> in_range pt 1 b" by (rule allocatedD(7) [OF assms(1)])
  show "\<not> page_used s pt" by (rule allocatedD(6) [OF assms(1)]) (simp add: in_range_def)
qed

lemma tables_upd:
  assumes "\<And>i. unat i < n \<Longrightarrow> pde s' q i = (if c \<and> i = k then e else pde s q i)" "c \<Longrightarrow> pde s q k = 0" "e \<noteq> 0"
  shows "tables s' q n = tables s q n \<union> (if c \<and> unat k < n then {frame_of e} else {})"
proof (intro equalityI subsetI)
  fix x assume "x \<in> tables s' q n"
  then obtain i where "unat i < n" "pde s' q i \<noteq> 0" "x = frame_of (pde s' q i)" by (auto simp: tables_def)
  then show "x \<in> tables s q n \<union> (if c \<and> unat k < n then {frame_of e} else {})"
    using assms(1) [of i] tablesI [of i n s q] by (auto split: if_splits)
next
  fix x assume x: "x \<in> tables s q n \<union> (if c \<and> unat k < n then {frame_of e} else {})"
  show "x \<in> tables s' q n"
  proof (cases "x \<in> tables s q n")
    case True
    then obtain i where i: "unat i < n" "pde s q i \<noteq> 0" "x = frame_of (pde s q i)" by (auto simp: tables_def)
    then have "pde s' q i = pde s q i" using assms(1) [of i] assms(2) by auto
    with i show ?thesis using tablesI [of i n s' q] by simp
  next
    case False
    then have "c" "unat k < n" "x = frame_of e" using x by (auto split: if_splits)
    then show ?thesis using tablesI [of k n s' q] assms(1) [of k] assms(3) by simp
  qed
qed

text \<open>The state after \<^verbatim>\<open>lookup_page\<close> put a fresh table \<open>pt\<close> into the empty entry for \<open>va\<close>.\<close>

lemma install_words:
  assumes sp: "spaces_ok s D" and pd: "pd \<in> D" "pde s pd (pd_no va) = 0"
    and al: "allocated s PAL_ZERO 1 pt t" and e: "frame_of e = pt" "e \<noteq> 0"
    and s': "s' = t\<lparr>mem := (mem t)(pd + 4 * pd_no va := e)\<rparr>" and q: "q \<in> D"
  shows "unat i < 1024 \<Longrightarrow> pde s' q i = (if q = pd \<and> i = pd_no va then e else pde s q i)"
    and "pd_word s' q vb = pd_word s q vb"
    and "n \<le> 1024 \<Longrightarrow> tables s' q n = tables s q n \<union> (if q = pd \<and> unat (pd_no va) < n then {pt} else {})"
proof -
  note po = spaces_okD(1) [OF sp]
  have kp: "unat q mod 4096 = 0" "page_used s q" if "q \<in> D" for q
    using pd_okD(1,2) [OF spaces_okD(6) [OF sp that]] by (simp_all add: kpage_def)
  show p: "pde s' q i = (if q = pd \<and> i = pd_no va then e else pde s q i)" if "unat i < 1024" for i
    using entry_eq [OF kp(1) [OF q] kp(1) [OF pd(1)] that pd_no_less] fresh_page(2) [OF al po kp(2,1) [OF q] that] by (auto simp: pde_def s')
  show "tables s' q n = tables s q n \<union> (if q = pd \<and> unat (pd_no va) < n then {pt} else {})" if "n \<le> 1024"
    using tables_upd [of n s' q "q = pd" "pd_no va" e s] p that pd(2) e by auto
  have old: "pte s' q vb = pte s q vb" if nz: "pde s q (pd_no vb) \<noteq> 0"
  proof -
    note T = tablesI [OF pd_no_less nz]
    have "frame_of (pde s q (pd_no vb)) \<noteq> pd" using spaces_okD(7) [OF sp q pd(1)] T by auto
    then have "frame_of (pde s q (pd_no vb)) + 4 * pt_no vb \<noteq> pd + 4 * pd_no va"
      using entry_eq [OF frame_aligned kp(1) [OF pd(1)] pt_no_less pd_no_less] by simp
    moreover have "pde s' q (pd_no vb) = pde s q (pd_no vb)" using p [OF pd_no_less, of vb] nz pd(2) by auto
    ultimately show ?thesis
      using fresh_page(2) [OF al po pd_okD(5) [OF spaces_okD(6) [OF sp q] T] frame_aligned pt_no_less] by (simp add: pte_def s')
  qed
  have new: "pte s' pd vb = 0" if "pd_no vb = pd_no va"
  proof -
    have f: "frame_of (pde s' pd (pd_no vb)) = pt"
      using entry_eq [OF kp(1) [OF pd(1)] kp(1) [OF pd(1)] pd_no_less pd_no_less] e(1) that by (simp add: pde_def s')
    have "pt \<noteq> pd" using fresh_page(1) [OF al po kp(2,1) [OF pd(1)]] by simp
    then have "pt + 4 * pt_no vb \<noteq> pd + 4 * pd_no va"
      using entry_eq [OF allocatedD(2) [OF al] kp(1) [OF pd(1)] pt_no_less pd_no_less] by simp
    moreover have "mem t (pt + 4 * pt_no vb) = 0"
      using allocatedD(9) [OF al] range_entry [OF allocatedD(2) [OF al] allocatedD(2) [OF al] pt_no_less] by simp
    ultimately show ?thesis by (simp add: pte_def f) (simp add: s')
  qed
  show "pd_word s' q vb = pd_word s q vb"
  proof (cases "pde s q (pd_no vb) = 0")
    case True
    then show ?thesis using p [OF pd_no_less, of vb] new by (auto simp: pd_word_def)
  next
    case False
    then have "pde s' q (pd_no vb) = pde s q (pd_no vb)" using p [OF pd_no_less, of vb] pd(2) by auto
    then show ?thesis using old [OF False] by (simp add: pd_word_def)
  qed
qed

lemma install_ok:
  assumes sp: "spaces_ok s D" and pd: "pd \<in> D" "pde s pd (pd_no va) = 0" "pd \<noteq> init_page_dir s \<or> \<not> is_user_vaddr va"
    and al: "allocated s PAL_ZERO 1 pt t" "pools_ok t" and e: "frame_of e = pt" "e \<noteq> 0" "e AND PTE_P \<noteq> 0"
    and s': "s' = t\<lparr>mem := (mem t)(pd + 4 * pd_no va := e)\<rparr>"
  shows "spaces_ok s' D"
proof -
  note po = spaces_okD(1) [OF sp] and w = install_words [OF sp pd(1,2) al(1) e(1,2) s']
  note k = allocated_kpage [OF al(1) po]
  have same: "page_used s' = page_used t" "pools_ok s'" "kpage s' = kpage s"
    using same_pools(1,2) [of s' t] k(2) al(2) by (simp_all add: s' same_regs_def kpage_def in_ram_def fun_eq_iff)
  have regs: "init_page_dir s' = init_page_dir s" "cr3 s' = cr3 s" using allocatedD(5) [OF al(1)] by (simp_all add: s' same_regs_def)
  have pt: "pt \<noteq> q" "pt \<notin> tables s q 1024" if "q \<in> D" for q
    using k(4) pd_okD(2,5) [OF spaces_okD(6) [OF sp that]] by auto
  have "pd_ok s' q" if q: "q \<in> D" for q
  proof -
    note ok = spaces_okD(6) [OF sp q]
    let ?T = "tables s q 1024 \<union> (if q = pd then {pt} else {})"
    have T: "tables s' q 1024 = ?T" using w(3) [OF q, of 1024] pd_no_less by simp
    have "kpage s x \<and> page_used t x" if "x \<in> ?T" for x
      using that pd_okD(4,5) [OF ok] k by (auto simp: in_range_def split: if_splits)
    moreover have "q \<notin> ?T" using pd_okD(3) [OF ok] pt(1) [OF q] by auto
    moreover have "pde s' q i AND PTE_P \<noteq> 0" if "unat i < 1024" "pde s' q i \<noteq> 0" for i
      using that pd_okD(6) [OF ok] w(1) [OF q that(1)] e(3) by (auto split: if_splits)
    moreover have "inj_on (\<lambda>i. frame_of (pde s' q i)) {i. unat i < 1024 \<and> pde s' q i \<noteq> 0}"
    proof (rule inj_onI, clarify)
      fix i j assume *: "frame_of (pde s' q i) = frame_of (pde s' q j)" "unat i < 1024" "unat j < 1024" "pde s' q i \<noteq> 0" "pde s' q j \<noteq> 0"
      show "i = j"
      proof (cases "q = pd \<and> (i = pd_no va \<or> j = pd_no va)")
        case True
        then show ?thesis
          using * w(1) [OF q] e(1) pt(2) [OF q] tablesI [of i 1024 s q] tablesI [of j 1024 s q] by (auto split: if_splits)
      next
        case False
        then show ?thesis using * w(1) [OF q] inj_onD [OF pd_okD(7) [OF ok], of i j] by auto
      qed
    qed
    ultimately show ?thesis
      using pd_okD(1,2,8) [OF ok] unfolding pd_ok_def T by (simp add: same k(3) w(2) [OF q])
  qed
  moreover have "tables s' (init_page_dir s) 768 = {}" using w(3) [OF spaces_okD(2) [OF sp], of 768] pd(3) spaces_okD(3) [OF sp] by (auto simp: user_pd_no)
  moreover have "q \<notin> tables s' r 1024 \<and> tables s' r 768 \<inter> tables s' q 1024 = {}" if "r \<in> D" "q \<in> D" "r \<noteq> q" for r q
  proof -
    have "pt \<notin> tables s r 768" using pt(2) [OF that(1)] tables_mono [of 768 1024 s r] by auto
    then show ?thesis
      using spaces_okD(7,8) [OF sp that(1,2)] that(3) pt [OF that(2)] w(3) [OF that(1)] w(3) [OF that(2)] by auto
  qed
  ultimately show ?thesis using spaces_okD(2,4,5) [OF sp] unfolding spaces_ok_def by (simp add: same regs)
qed

text \<open>The lookup that may create a table succeeds or, without a free page, changes nothing.\<close>

lemma lookup_page_create:
  assumes sp: "spaces_ok s D" "tlb_ok s" and pd: "pd \<in> D" "pd \<noteq> init_page_dir s" and va: "is_user_vaddr va"
  obtains "lookup_page s pd va True = Some (0, s)" and "pd_map s pd va = None"
    and "\<And>k. \<not> group_at (bmap (used_map (kernel_pool s))) k 1 False"
  | s' where "lookup_page s pd va True = Some (frame_of (pde s' pd (pd_no va)) + 4 * pt_no va, s')" and "spaces_ok s' D" and "tlb_ok s'"
    and "\<And>q vb. q \<in> D \<Longrightarrow> pd_word s' q vb = pd_word s q vb" and "pde s' pd (pd_no va) \<noteq> 0" and "same_regs s s'"
proof (cases "pde s pd (pd_no va) = 0")
  case False
  then show thesis using that(2) [of s] lookup_page_present [OF spaces_okD(6) [OF sp(1) pd(1)] _ False] sp va by (simp add: same_regs_def)
next
  case nz: True
  note ok = spaces_okD(6) [OF sp(1) pd(1)]
  have pd0: "pd \<noteq> 0" using entry_access(3) [OF pd_okD(1) [OF ok], of 0] by simp
  have l: "load s (pd + 4 * pd_no va) = Some 0" using entry_access(1) [OF pd_okD(1) [OF ok] pd_no_less] nz by (simp add: pde_def)
  have ff: "PAL_ZERO AND PAL_ASSERT = 0" "PAL_ZERO AND PAL_USER = 0" by simp_all
  show thesis
  proof (cases rule: palloc_get_multiple_ok [OF spaces_okD(1) [OF sp(1)] zero_less_one ff(1)])
    case 1
    then show thesis using that(1) nz va pd0 l by (simp add: lookup_page_def palloc_get_page_def pd_map_def pd_word_def pool_of_def Let_def)
  next
    case (2 pt t)
    note k = allocated_kpage [OF 2(2) spaces_okD(1) [OF sp(1)]]
    obtain e where e: "pde_create pt = Some e" "e \<noteq> 0" "e AND PTE_P \<noteq> 0" "frame_of e = pt" using pde_create_ok [OF k(1)] .
    define s' where "s' = t\<lparr>mem := (mem t)(pd + 4 * pd_no va := e)\<rparr>"
    note w = install_words [OF sp(1) pd(1) nz 2(2) e(4,2) s'_def]
    have s': "spaces_ok s' D" using install_ok [OF sp(1) pd(1) nz disjI1 [OF pd(2)] 2(2,3) e(4,2,3) s'_def] .
    have regs: "same_regs s s'" using allocatedD(5) [OF 2(2)] by (simp add: s'_def same_regs_def)
    have p: "pde s' pd (pd_no va) = e" using w(1) [OF pd(1) pd_no_less, of va] by simp
    have "pt \<noteq> 0" using allocatedD(1) [OF 2(2)] .
    moreover have "store t (pd + 4 * pd_no va) e = Some s'"
      using entry_access(2) [of t pd "pd_no va" e] pd_okD(1) [OF ok] pd_no_less k(2) by (simp add: s'_def)
    moreover have "load s' (pd + 4 * pd_no va) = Some e"
      using entry_access(1) [OF pd_okD(1) [OF spaces_okD(6) [OF s' pd(1)]] pd_no_less, of va] p by (simp add: pde_def)
    moreover have "pde_get_pt e = Some pt"
      using e(3,4) frame_kpage [of t e] k(1) by (simp add: pde_get_pt_def)
    ultimately have "lookup_page s pd va True = Some (frame_of (pde s' pd (pd_no va)) + 4 * pt_no va, s')"
      using 2(1) va pd0 l e p by (simp add: lookup_page_def palloc_get_page_def Let_def)
    moreover have "tlb_ok s'" using tlb_ok_keep [OF sp(2), of s'] regs w(2) [OF spaces_okD(5) [OF sp(1)]] by (simp add: same_regs_def pd_map_def)
    ultimately show thesis using that(2) [of s'] s' w(2) p e(2) regs by simp
  qed
qed

section \<open>Mapping a page\<close>

lemma set_page_guard:
  assumes "kpage s k"
  shows "pg_ofs k = 0" "vtop k = Some (k - PHYS_BASE)" "unat (drop_bit PGBITS (k - PHYS_BASE)) < init_ram_pages s"
proof -
  show "pg_ofs k = 0" "vtop k = Some (k - PHYS_BASE)" using assms kpage_vtop by (simp_all add: kpage_def pg_ofs_zero)
  have r: "3221225472 \<le> unat k" "unat k + 4096 \<le> 3221225472 + 4096 * init_ram_pages s"
    using assms by (simp_all add: kpage_def in_ram_def PHYS_BASE_unat)
  then have "unat (k - PHYS_BASE) = unat k - 3221225472" by (simp add: unat_sub word_le_nat_alt PHYS_BASE_unat)
  then show "unat (drop_bit PGBITS (k - PHYS_BASE)) < init_ram_pages s"
    using r by (simp add: unat_drop div_less_iff_less_mult)
qed

lemma pagedir_set_page_ok:
  assumes sp: "spaces_ok s D" "tlb_ok s" and pd: "pd \<in> D" "pd \<noteq> init_page_dir s"
    and va: "pg_ofs va = 0" "is_user_vaddr va" and k: "kpage s k" and free: "pd_map s pd va = None"
  obtains "pagedir_set_page s pd va k writable = Some (False, s)" and "\<And>i. \<not> group_at (bmap (used_map (kernel_pool s))) i 1 False"
  | s' where "pagedir_set_page s pd va k writable = Some (True, s')" and "keeps s s' D pd"
    and "\<And>vb. pd_map s' pd vb = (if pg_no vb = pg_no va then Some (k, writable, True) else pd_map s pd vb)"
proof (cases rule: lookup_page_create [OF sp pd va(2)])
  case 1
  then show thesis using that(1) set_page_guard [OF k] va pd(2) by (simp add: pagedir_set_page_def)
next
  case (2 t)
  note ok = spaces_okD(6) [OF 2(2) pd(1)] and nz = 2(5)
  have kt: "kpage t k" using k 2(6) by (simp add: kpage_def in_ram_def same_regs_def)
  obtain e where e: "pte_create_user k writable = Some e" "e AND PTE_P \<noteq> 0" "rights e = (k, writable, True)" using pte_create_user_ok [OF k] .
  define s' where "s' = t\<lparr>mem := (mem t)(frame_of (pde t pd (pd_no va)) + 4 * pt_no va := e)\<rparr>"
  have "pte t pd va AND PTE_P = 0" using free 2(4) [OF pd(1), of va] nz by (auto simp: pd_map_def pd_word_def split: if_splits)
  then have op: "pagedir_set_page s pd va k writable = Some (True, s')"
    using set_page_guard [OF k] va pd(2) 2(1) pte_access [OF ok nz] e(1) by (simp add: pagedir_set_page_def s'_def)
  have s': "spaces_ok s' D" using pte_write_ok [OF 2(2) pd(1) nz s'_def] e(3) kt by (simp add: rights_def)
  note w = pte_write_word [OF 2(2) pd(1) nz s'_def]
  have m: "pd_map s' pd vb = (if pg_no vb = pg_no va then Some (k, writable, True) else pd_map s pd vb)" for vb
    using w(1) [of vb] e(2,3) 2(4) [OF pd(1)] by (simp add: pd_map_def)
  have others: "pd_map s' q = pd_map s q" if "q \<in> D" "q \<noteq> pd" for q
    using w(2) [OF va(2) that] 2(4) [OF that(1)] by (simp add: pd_map_def fun_eq_iff)
  have regs: "init_page_dir s' = init_page_dir s" "cr3 s' = cr3 s" "tlb s' = tlb s" using 2(6) by (simp_all add: s'_def same_regs_def)
  have "pd_map s pd vb = None" if "pg_no vb = pg_no va" for vb using free pd_word_page [OF that] by (simp add: pd_map_def)
  then have "pd_map s' (cr3 s + PHYS_BASE) vb = Some r" if "pd_map s (cr3 s + PHYS_BASE) vb = Some r" for vb r
    using that m [of vb] others [OF spaces_okD(5) [OF sp(1)]] by (cases "cr3 s + PHYS_BASE = pd") auto
  then have "tlb_ok s'" using tlb_ok_keep [OF sp(2) regs(3,2)] by simp
  then show thesis using that(2) [OF op _ m] s' others regs by (simp add: keeps_def)
qed

lemma pagedir_set_page_taken:
  assumes sp: "spaces_ok s D" and pd: "pd \<in> D" and taken: "pd_map s pd va \<noteq> None"
  shows "pagedir_set_page s pd va k writable = None"
proof -
  note ok = spaces_okD(6) [OF sp pd]
  have nz: "pde s pd (pd_no va) \<noteq> 0" and p: "pte s pd va AND PTE_P \<noteq> 0" using taken by (auto simp: pd_map_def pd_word_def split: if_splits)
  show ?thesis
    using lookup_page_present [OF ok _ nz, of True] pte_access [OF ok nz] p
    by (auto simp: pagedir_set_page_def assertO_def split: bind_split)
qed

section \<open>A new directory\<close>

lemma create_words:
  assumes sp: "spaces_ok s D" and al: "allocated s 0 1 pd t"
    and s': "copy_words t pd (init_page_dir t) 4096 = Some s'"
  shows "q \<in> D \<Longrightarrow> unat i < 1024 \<Longrightarrow> pde s' q i = pde s q i"
    and "unat i < 1024 \<Longrightarrow> pde s' pd i = pde s (init_page_dir s) i"
    and "q \<in> D \<Longrightarrow> pd_word s' q vb = pd_word s q vb" and "pd_word s' pd vb = pd_word s (init_page_dir s) vb"
proof -
  note po = spaces_okD(1) [OF sp] and init = spaces_okD(2) [OF sp]
  have i: "init_page_dir t = init_page_dir s" using allocatedD(5) [OF al] by (simp add: same_regs_def)
  have m: "mem s' (a + 4 * i) = (if a = pd then mem t (init_page_dir s + 4 * i) else mem t (a + 4 * i))"
    if "unat a mod 4096 = 0" "unat i < 1024" for a i
    using s' range_entry [OF allocatedD(2) [OF al] that]
    by (auto simp: copy_words_def i in_range_def add_ac split: if_splits)
  have kp: "unat q mod 4096 = 0" "page_used s q" if "q \<in> D" for q
    using pd_okD(1,2) [OF spaces_okD(6) [OF sp that]] by (simp_all add: kpage_def)
  show q: "pde s' q i = pde s q i" if "q \<in> D" "unat i < 1024" for q i
    using m [OF kp(1) [OF that(1)] that(2)] fresh_page [OF al po kp(2,1) [OF that(1)]] that(2) by (simp add: pde_def)
  show d: "pde s' pd i = pde s (init_page_dir s) i" if "unat i < 1024" for i
    using m [OF allocatedD(2) [OF al] that] fresh_page(2) [OF al po kp(2,1) [OF init] that] by (simp add: pde_def)
  have w: "mem s' (frame_of (pde s q (pd_no vb)) + 4 * pt_no vb) = pte s q vb" if "q \<in> D" "pde s q (pd_no vb) \<noteq> 0" for q
    using m [OF frame_aligned pt_no_less]
      fresh_page [OF al po pd_okD(5) [OF spaces_okD(6) [OF sp that(1)] tablesI [OF pd_no_less that(2)]] frame_aligned] pt_no_less
    by (simp add: pte_def)
  show "pd_word s' q vb = pd_word s q vb" if "q \<in> D"
    using q [OF that pd_no_less] w [OF that] by (cases "pde s q (pd_no vb) = 0") (simp_all add: pd_word_def pte_def)
  show "pd_word s' pd vb = pd_word s (init_page_dir s) vb"
    using d [OF pd_no_less] w [OF init] by (cases "pde s (init_page_dir s) (pd_no vb) = 0") (simp_all add: pd_word_def pte_def)
qed

text \<open>A directory with the same entries as a proper one, in a machine with the same pages and more of them used, is proper.\<close>

lemma pd_ok_copy:
  assumes "pd_ok s q" "kpage s' = kpage s" "\<And>b. page_used s b \<Longrightarrow> page_used s' b" "kpage s p" "page_used s' p" "p \<notin> tables s q 1024"
    and "\<And>i. unat i < 1024 \<Longrightarrow> pde s' p i = pde s q i" "pd_word s' p = pd_word s q"
  shows "pd_ok s' p" "n \<le> 1024 \<Longrightarrow> tables s' p n = tables s q n"
proof -
  show T: "tables s' p n = tables s q n" if "n \<le> 1024" for n
    using assms(7) that unfolding tables_def by (smt (verit, best) Collect_cong order_less_le_trans)
  have "{i. unat i < 1024 \<and> pde s' p i \<noteq> 0} = {i. unat i < 1024 \<and> pde s q i \<noteq> 0}" using assms(7) by auto
  moreover have "inj_on (\<lambda>i. frame_of (pde s' p i)) {i. unat i < 1024 \<and> pde s q i \<noteq> 0}"
    using pd_okD(7) [OF assms(1)] by (rule inj_on_cong [THEN iffD1, rotated]) (simp add: assms(7))
  moreover have "\<forall>i. unat i < 1024 \<and> pde s' p i \<noteq> 0 \<longrightarrow> pde s' p i AND PTE_P \<noteq> 0" using pd_okD(6) [OF assms(1)] by (metis assms(7))
  ultimately show "pd_ok s' p"
    using pd_okD(4,5,8) [OF assms(1)] assms(2-6,8) unfolding pd_ok_def by (simp add: T)
qed

lemma pagedir_create_ok:
  assumes sp: "spaces_ok s D" "tlb_ok s"
  obtains "pagedir_create s = Some (0, s)" and "\<And>k. \<not> group_at (bmap (used_map (kernel_pool s))) k 1 False"
  | pd s' where "pagedir_create s = Some (pd, s')" and "pd \<noteq> 0" and "pd \<notin> D" and "spaces_ok s' (insert pd D)" and "tlb_ok s'"
    and "\<And>q. q \<in> D \<Longrightarrow> pd_map s' q = pd_map s q" and "pd_map s' pd = pd_map s (init_page_dir s)" and "same_regs s s'"
proof -
  have ff: "(0 :: u32) AND PAL_ASSERT = 0" "(0 :: u32) AND PAL_USER = 0" by simp_all
  note po = spaces_okD(1) [OF sp(1)] and init = spaces_okD(2) [OF sp(1)]
  show thesis
  proof (cases rule: palloc_get_multiple_ok [OF po zero_less_one ff(1)])
    case 1
    then show thesis using that(1) by (simp add: pagedir_create_def palloc_get_page_def pool_of_def)
  next
    case (2 pd t)
    note k = allocated_kpage [OF 2(2) po]
    have ki: "kpage s (init_page_dir s)" using pd_okD(1) [OF spaces_okD(6) [OF sp(1) init]] .
    have regs: "same_regs s t" using allocatedD(5) [OF 2(2)] .
    have "kpage t (init_page_dir t)" using ki k(2) regs by (simp add: same_regs_def)
    then have "copy_words t pd (init_page_dir t) 4096 \<noteq> None" using k(1) by (simp add: copy_words_def kpage_def)
    then obtain s' where s': "copy_words t pd (init_page_dir t) 4096 = Some s'" by blast
    have same: "same_regs t s'" "kernel_pool s' = kernel_pool t" "user_pool s' = user_pool t"
      using s' by (auto simp: copy_words_def same_regs_def split: if_splits)
    note w = create_words [OF sp(1) 2(2) s'] and sps = same_pools [OF same(2,3,1)]
    have kp: "kpage s' = kpage s" using k(2) sps(4) by (simp add: kpage_def fun_eq_iff)
    have new: "pd \<notin> D" "pd \<notin> tables s q 1024" if "q \<in> D" for q
      using k(4) pd_okD(2,5) [OF spaces_okD(6) [OF sp(1)]] that by auto
    have used: "page_used s' b" if "page_used s b" for b using that by (simp add: sps(1) k(3))
    have old: "pd_ok s' q" "n \<le> 1024 \<Longrightarrow> tables s' q n = tables s q n" if "q \<in> D" for q n
      using pd_ok_copy [OF spaces_okD(6) [OF sp(1) that] kp used, of q] pd_okD(1-3) [OF spaces_okD(6) [OF sp(1) that]] w(1,3) [OF that] used
      by (simp_all add: fun_eq_iff)
    have cp: "pd_ok s' pd" "n \<le> 1024 \<Longrightarrow> tables s' pd n = tables s (init_page_dir s) n" for n
      using pd_ok_copy [OF spaces_okD(6) [OF sp(1) init] kp used, of pd] k(1,2,3) new(2) [OF init] w(2,4)
      by (simp_all add: fun_eq_iff sps(1) in_range_def)
    have "same_regs s s'" using same_regs_trans [OF regs same(1)] .
    have sep: "q \<notin> tables s' r 1024 \<and> tables s' r 768 \<inter> tables s' q 1024 = {}" if "r \<in> insert pd D" "q \<in> insert pd D" "r \<noteq> q" for r q
    proof -
      have "q \<notin> tables s r 1024 \<and> tables s r 768 \<inter> tables s q 1024 = {}" if "r \<in> D" "q \<in> D" using spaces_okD(7,8) [OF sp(1) that] \<open>r \<noteq> q\<close> by simp
      moreover have "tables s r 768 \<inter> tables s (init_page_dir s) 1024 = {}" if "r \<in> D"
        using spaces_okD(8) [OF sp(1) that init] spaces_okD(3) [OF sp(1)] by (cases "r = init_page_dir s") simp_all
      ultimately show ?thesis
        using that spaces_okD(7) [OF sp(1) init] spaces_okD(3) [OF sp(1)] new(2) by (auto simp: old(2) cp(2))
    qed
    have "spaces_ok s' (insert pd D)"
      using cp(1) old(1) 2(3) sps(2) spaces_okD(3-5) [OF sp(1)] init sep \<open>same_regs s s'\<close> unfolding spaces_ok_def by (simp add: same_regs_def old(2))
    moreover have maps: "pd_map s' q = pd_map s q" if "q \<in> D" for q using w(3) [OF that] by (simp add: pd_map_def fun_eq_iff)
    moreover have "pd_map s' pd = pd_map s (init_page_dir s)" using w(4) by (simp add: pd_map_def fun_eq_iff)
    moreover have "tlb_ok s'" using tlb_ok_keep [OF sp(2), of s'] \<open>same_regs s s'\<close> maps [OF spaces_okD(5) [OF sp(1)]] by (simp add: same_regs_def)
    moreover have "pagedir_create s = Some (pd, s')" using 2(1) s' allocatedD(1) [OF 2(2)] by (simp add: pagedir_create_def palloc_get_page_def)
    ultimately show thesis using that(2) allocatedD(1) [OF 2(2)] new(1) [OF init] \<open>same_regs s s'\<close> by simp
  qed
qed

end
