(* ===== verification/Paging_Spaces.thy ===== *)
theory Paging_Spaces
  imports Paging_Maps
begin

text \<open>The properties of the page allocator and of address spaces.\<close>

section \<open>Switching the address space\<close>

lemma load_cr3_same:
  "pd_map (load_cr3 s p) = pd_map s" "pd_ok (load_cr3 s p) = pd_ok s" "tables (load_cr3 s p) = tables s"
  "pools_ok (load_cr3 s p) = pools_ok s" "init_page_dir (load_cr3 s p) = init_page_dir s"
proof -
  have *: "pde (load_cr3 s p) = pde s" "pd_word (load_cr3 s p) = pd_word s" "kpage (load_cr3 s p) = kpage s" "page_used (load_cr3 s p) = page_used s"
    by (simp_all add: pde_def pte_def pd_word_def kpage_def in_ram_def page_used_def load_cr3_def fun_eq_iff)
  show "tables (load_cr3 s p) = tables s" by (simp add: tables_def * fun_eq_iff)
  then show "pd_ok (load_cr3 s p) = pd_ok s" by (simp add: pd_ok_def * fun_eq_iff)
qed (simp_all add: pd_map_def pd_word_def pde_def pte_def pools_ok_def load_cr3_def fun_eq_iff)

lemma pagedir_activate_ok:
  assumes "spaces_ok s D" "pd \<in> D"
  obtains s' where "pagedir_activate s pd = Some s'" and "spaces_ok s' D" and "tlb_ok s'" and "pd_map s' = pd_map s" and "active_pd s' = Some pd"
proof
  have k: "kpage s pd" using pd_okD(1) [OF spaces_okD(6) [OF assms]] .
  have "pd \<noteq> 0" using entry_access(3) [OF k, of 0] by simp
  then show "pagedir_activate s pd = Some (load_cr3 s (pd - PHYS_BASE))" using kpage_vtop [OF k] by (simp add: pagedir_activate_def)
  have "PHYS_BASE \<le> pd" using k by (simp add: kpage_def in_ram_def word_le_nat_alt)
  then have "unat (pd - PHYS_BASE) < 3221225472" using unat_bound [of pd] by (simp add: unat_sub PHYS_BASE_unat)
  then have c: "pd - PHYS_BASE < PHYS_BASE" by (simp add: word_less_nat_alt PHYS_BASE_unat)
  then show "spaces_ok (load_cr3 s (pd - PHYS_BASE)) D"
    using spaces_okD(1-3,6-8) [OF assms(1)] assms(2) unfolding spaces_ok_def load_cr3_same by (simp add: load_cr3_def)
  show "active_pd (load_cr3 s (pd - PHYS_BASE)) = Some pd" using c by (simp add: active_pd_def ptov_def load_cr3_def)
qed (simp_all only: load_cr3_same, simp add: tlb_ok_def load_cr3_def)

lemma keeps_map:
  assumes "keeps s s' D pd" "\<And>vb. pd_map s' pd vb = (if c vb then x else pd_map s pd vb)"
  shows "\<forall>q\<in>D. \<forall>vb. pd_map s' q vb = (if q = pd \<and> c vb then x else pd_map s q vb)"
proof (intro ballI allI)
  fix q vb assume "q \<in> D"
  then show "pd_map s' q vb = (if q = pd \<and> c vb then x else pd_map s q vb)"
    using assms(1) assms(2) [of vb] by (cases "q = pd") (simp_all add: keeps_def)
qed

section \<open>Operations on the maps\<close>

lemma set_page_map:
  assumes "spaces_ok s D" "tlb_ok s" "pd \<in> D" "is_user_vaddr va" "pd \<noteq> init_page_dir s" "pg_ofs va = 0" "kpage s k" "pd_map s pd va = None"
  shows "\<exists>b s'. pagedir_set_page s pd va k writable = Some (b, s') \<and>
    (if b then (\<forall>q\<in>D. \<forall>vb. pd_map s' q vb = (if q = pd \<and> pg_no vb = pg_no va then Some (k, writable, True) else pd_map s q vb))
     else s' = s \<and> (\<forall>i. \<not> group_at (bmap (used_map (kernel_pool s))) i 1 False))"
proof (cases rule: pagedir_set_page_ok [OF assms(1-3,5,6,4,7,8), of writable])
  case 1
  then show ?thesis by (intro exI [of _ False] exI [of _ s]) simp
next
  case (2 s')
  then show ?thesis by (intro exI [of _ True] exI [of _ s']) (simp add: keeps_map [OF 2(2,3)])
qed

lemma clear_page_map:
  assumes "spaces_ok s D" "tlb_ok s" "pd \<in> D" "is_user_vaddr va" "pg_ofs va = 0"
  shows "\<exists>s'. pagedir_clear_page s pd va = Some s' \<and>
    (\<forall>q\<in>D. \<forall>vb. pd_map s' q vb = (if q = pd \<and> pg_no vb = pg_no va then None else pd_map s q vb)) \<and>
    (active_pd s = Some pd \<longrightarrow> (\<forall>vb. pg_no vb = pg_no va \<longrightarrow> tlb s' vb = None))"
proof (cases rule: pagedir_clear_page_ok [OF assms(1-3,5,4)])
  case (1 s')
  have "tlb s' vb = None" if "active_pd s = Some pd" "pg_no vb = pg_no va" for vb
  proof -
    have "cr3 s' + PHYS_BASE = pd" using that(1) 1(2) spaces_okD(4) [OF assms(1)] by (simp add: active_pd_def ptov_def keeps_def)
    moreover have "pd_map s' pd vb = None" using 1(3) [of vb] that(2) by simp
    ultimately have "tlb s' vb \<noteq> Some e" for e using 1(2) by (auto simp: keeps_def tlb_ok_def)
    then show ?thesis by (cases "tlb s' vb") auto
  qed
  then show ?thesis using 1(1) keeps_map [OF 1(2,3)] by simp
qed

lemma create_map:
  assumes "spaces_ok s D" "tlb_ok s" "is_user_vaddr va"
  shows "\<exists>q s'. pagedir_create s = Some (q, s') \<and> (\<forall>r\<in>D. pd_map s' r = pd_map s r) \<and>
    (q \<noteq> 0 \<longrightarrow> q \<notin> D \<and> pd_map s' q va = None \<and> pd_map s' q = pd_map s (init_page_dir s))"
proof -
  have "pd_map s (init_page_dir s) va = None"
    using spaces_okD(3) [OF assms(1)] tablesI [of "pd_no va" 768 s "init_page_dir s"] assms(3) by (auto simp: user_pd_no pd_map_def pd_word_def)
  then show ?thesis by (cases rule: pagedir_create_ok [OF assms(1,2)]) auto
qed

lemma set_dirty_map:
  assumes "spaces_ok s D" "tlb_ok s" "pd \<in> D"
  shows "\<exists>s'. pagedir_set_dirty s pd va on = Some s' \<and> (\<forall>q\<in>D. pd_map s' q = pd_map s q) \<and>
    (pd_map s pd va \<noteq> None \<longrightarrow> pagedir_is_dirty s' pd va = Some (on, s'))"
proof (cases rule: pagedir_set_dirty_ok [OF assms, of va on])
  case (1 s')
  have "pd_ok s' pd" using spaces_okD(6) [OF _ assms(3)] 1(2) by (auto simp: keeps_def)
  moreover have "pde s pd (pd_no va) \<noteq> 0" if "pd_map s pd va \<noteq> None" using that by (auto simp: pd_map_def pd_word_def)
  ultimately show ?thesis using 1 pagedir_is_eq(1) [of s' pd va] by (auto simp: keeps_def)
qed

section \<open>A small machine\<close>

text \<open>Four megabytes of cleared memory, the kernel's directory and one more in the first pages of the kernel pool.\<close>

definition sample_machine :: machine where
  "sample_machine = \<lparr>mem = (\<lambda>_. 0), init_ram_pages = 1024,
     kernel_pool = \<lparr>used_map = \<lparr>bit_cnt = 8, bits = [3]\<rparr>, base = 0xc0100000\<rparr>,
     user_pool = \<lparr>used_map = \<lparr>bit_cnt = 8, bits = [1]\<rparr>, base = 0xc0200000\<rparr>,
     init_page_dir = 0xc0100000, cr3 = 0x100000, tlb = Map.empty\<rparr>"

abbreviation sample_dirs :: "u32 set" where
  "sample_dirs \<equiv> {0xc0100000, 0xc0101000}"

lemma sample_pools: "pools_ok sample_machine"
  by (simp add: sample_machine_def pools_ok_def pool_ok_def bitmap_ok_def elem_cnt_def DIV_ROUND_UP_def)

lemma sample_pages:
  "page_used sample_machine 0xc0100000" "page_used sample_machine 0xc0101000" "kpage sample_machine 0xc0100000" "kpage sample_machine 0xc0101000"
  "kpage sample_machine 0xc0200000"
  by (simp_all add: sample_machine_def page_used_def used_in_def in_range_def bmap_def bit_at_def kpage_def in_ram_def PHYS_BASE_def)

lemma sample_empty: "pde sample_machine pd i = 0" "tables sample_machine pd n = {}" "pd_word sample_machine pd va = None" "pd_map sample_machine pd va = None"
  by (simp_all add: sample_machine_def pde_def tables_def pd_word_def pd_map_def)

lemma sample_spaces: "spaces_ok sample_machine sample_dirs" "tlb_ok sample_machine"
proof -
  have "pd_ok sample_machine pd" if "pd \<in> sample_dirs" for pd
    using that sample_pages by (auto simp: pd_ok_def sample_empty)
  moreover have "init_page_dir sample_machine = 0xc0100000" "cr3 sample_machine = 0x100000" "tlb sample_machine = Map.empty"
    by (simp_all add: sample_machine_def)
  ultimately show "spaces_ok sample_machine sample_dirs" "tlb_ok sample_machine"
    using sample_pools by (simp_all add: spaces_ok_def sample_empty PHYS_BASE_def tlb_ok_def)
qed

lemma sample_call:
  "0xc0101000 \<in> sample_dirs" "is_user_vaddr 0x08048000" "0xc0101000 \<noteq> init_page_dir sample_machine" "pg_ofs 0x08048000 = 0"
  "kpage sample_machine 0xc0200000" "pd_map sample_machine 0xc0101000 0x08048000 = None"
  using sample_pages(5) by (simp_all add: is_user_vaddr_def PHYS_BASE_def sample_empty pg_ofs_zero sample_machine_def [THEN arg_cong, of init_page_dir])

section \<open>Properties\<close>

text \<open>C13: The page allocator. Asked for \<open>cnt\<close> pages without \<^verbatim>\<open>PAL_ASSERT\<close>, \<^verbatim>\<open>palloc_get_multiple\<close> returns, keeps
  the pools well-formed, and either returns a null pointer and changes nothing, when the pool has no run
  of \<open>cnt\<close> free pages, or returns page-aligned memory within that pool none of which was in use, marks exactly
  these pages as used, clears them when asked to and changes no other memory. Freeing them again
  restores the set of used pages.\<close>

theorem palloc_fresh:
  assumes "pools_ok s" and "0 < cnt" and "flags AND PAL_ASSERT = 0"
  shows "\<exists>a s'. palloc_get_multiple s flags cnt = Some (a, s') \<and> pools_ok s' \<and>
    (if a = 0 then s' = s \<and> (\<forall>k. \<not> group_at (bmap (used_map (if flags AND PAL_USER \<noteq> 0 then user_pool s else kernel_pool s))) k cnt False)
     else unat a mod 4096 = 0 \<and> in_pool (if flags AND PAL_USER \<noteq> 0 then user_pool s else kernel_pool s) a cnt \<and>
       (\<forall>b. in_range a cnt b \<longrightarrow> \<not> page_used s b) \<and>
       (\<forall>b. page_used s' b \<longleftrightarrow> page_used s b \<or> in_range a cnt b) \<and>
       (\<forall>b. \<not> in_range a cnt b \<longrightarrow> mem s' b = mem s b) \<and> (flags AND PAL_ZERO \<noteq> 0 \<longrightarrow> (\<forall>b. in_range a cnt b \<longrightarrow> mem s' b = 0)) \<and>
       (\<exists>s''. palloc_free_multiple s' a cnt = Some s'' \<and> pools_ok s'' \<and> (\<forall>b. page_used s'' b = page_used s b)))"
proof (cases rule: palloc_get_multiple_ok [OF assms])
  case 1
  then show ?thesis using assms(1) by (auto simp: pool_of_def)
next
  case (2 a s')
  note d = allocatedD [OF 2(2)]
  obtain s'' where "palloc_free_multiple s' a cnt = Some s''" "pools_ok s''" "\<And>b. page_used s'' b \<longleftrightarrow> page_used s' b \<and> \<not> in_range a cnt b"
    using palloc_free_multiple_ok [OF 2(3) assms(2) d(2,4)] d(7) by metis
  then have "\<exists>s''. palloc_free_multiple s' a cnt = Some s'' \<and> pools_ok s'' \<and> (\<forall>b. page_used s'' b = page_used s b)" using d(6,7) by auto
  moreover have "in_pool (if flags AND PAL_USER \<noteq> 0 then user_pool s else kernel_pool s) a cnt" using d(3) by (simp add: pool_of_def)
  ultimately show ?thesis using 2(1,3) d by (auto intro!: exI [of _ a] exI [of _ s'])
qed

theorem palloc_fresh_witness:
  "pools_ok sample_machine \<and> (\<exists>a s'. palloc_get_multiple sample_machine 6 3 = Some (a, s') \<and> a \<noteq> 0 \<and> pools_ok s' \<and> \<not> page_used sample_machine a)"
proof -
  have "group_at (bmap (used_map (user_pool sample_machine))) 1 3 False"
    by (simp add: sample_machine_def group_at_def bmap_def bit_at_def numeral_3_eq_3 All_less_Suc)
  moreover obtain a s' where a: "palloc_get_multiple sample_machine 6 3 = Some (a, s')" "pools_ok s'"
    "if a = 0 then \<forall>k. \<not> group_at (bmap (used_map (user_pool sample_machine))) k 3 False else \<forall>b. in_range a 3 b \<longrightarrow> \<not> page_used sample_machine b"
    using palloc_fresh [OF sample_pools, of 3 6, simplified] by (elim exE conjE) (simp split: if_splits)
  moreover have "in_range a 3 a" by (simp add: in_range_def)
  ultimately show ?thesis using sample_pools by (auto split: if_splits)
qed



text \<open>C6: An address space is a finite map from pages to frames with rights, and no operation on one of them shows in
  another. \<^verbatim>\<open>pagedir_get_page\<close> reads the map. \<^verbatim>\<open>pagedir_set_page\<close> stops for a page that is mapped already; for
  another it adds a user mapping to the frame, or answers false and changes nothing when the kernel
  pool has no free page. \<^verbatim>\<open>pagedir_clear_page\<close> removes the page from the map, and
  from the TLB when the directory is active. A new directory has the kernel's map and nothing below \<^verbatim>\<open>PHYS_BASE\<close>. In each case the maps of all
  other directories stay the same. A dirty bit that was set reads back as it was set.\<close>

theorem address_space_map:
  assumes "spaces_ok s D" and "tlb_ok s" and "pd \<in> D" and "is_user_vaddr va"
  shows "pagedir_get_page s pd va = Some (case pd_map s pd va of None \<Rightarrow> 0 | Some (f, _) \<Rightarrow> f + pg_ofs va, s) \<and>
    (pd_map s pd va \<noteq> None \<longrightarrow> pagedir_set_page s pd va k writable = None) \<and>
    (pd \<noteq> init_page_dir s \<and> pg_ofs va = 0 \<and> kpage s k \<and> pd_map s pd va = None \<longrightarrow>
      (\<exists>b s'. pagedir_set_page s pd va k writable = Some (b, s') \<and>
        (if b then (\<forall>q\<in>D. \<forall>vb. pd_map s' q vb = (if q = pd \<and> pg_no vb = pg_no va then Some (k, writable, True) else pd_map s q vb))
         else s' = s \<and> (\<forall>i. \<not> group_at (bmap (used_map (kernel_pool s))) i 1 False)))) \<and>
    (pg_ofs va = 0 \<longrightarrow>
      (\<exists>s'. pagedir_clear_page s pd va = Some s' \<and>
        (\<forall>q\<in>D. \<forall>vb. pd_map s' q vb = (if q = pd \<and> pg_no vb = pg_no va then None else pd_map s q vb)) \<and>
        (active_pd s = Some pd \<longrightarrow> (\<forall>vb. pg_no vb = pg_no va \<longrightarrow> tlb s' vb = None)))) \<and>
    (\<exists>q s'. pagedir_create s = Some (q, s') \<and> (\<forall>r\<in>D. pd_map s' r = pd_map s r) \<and>
        (q \<noteq> 0 \<longrightarrow> q \<notin> D \<and> pd_map s' q va = None \<and> pd_map s' q = pd_map s (init_page_dir s))) \<and>
    (\<exists>s'. pagedir_set_dirty s pd va on = Some s' \<and> (\<forall>q\<in>D. pd_map s' q = pd_map s q) \<and>
        (pd_map s pd va \<noteq> None \<longrightarrow> pagedir_is_dirty s' pd va = Some (on, s')))"
  using pagedir_get_page_eq [OF spaces_okD(6) [OF assms(1,3)] assms(4)] pagedir_set_page_taken [OF assms(1,3)]
    set_page_map [OF assms] clear_page_map [OF assms] create_map [OF assms(1,2,4)] set_dirty_map [OF assms(1-3)]
  by (intro conjI impI) simp_all

theorem address_space_map_witness:
  "spaces_ok sample_machine sample_dirs \<and>
   (\<exists>s'. pagedir_set_page sample_machine 0xc0101000 0x08048000 0xc0200000 True = Some (True, s') \<and>
     pd_map s' 0xc0101000 0x08048000 = Some (0xc0200000, True, True) \<and> pd_map s' 0xc0100000 0x08048000 = None)"
proof -
  have g: "group_at (bmap (used_map (kernel_pool sample_machine))) 2 1 False"
    by (simp add: sample_machine_def group_at_def bmap_def bit_at_def)
  obtain b s' where s': "pagedir_set_page sample_machine 0xc0101000 0x08048000 0xc0200000 True = Some (b, s')"
    "if b then \<forall>q\<in>sample_dirs. \<forall>vb. pd_map s' q vb = (if q = 0xc0101000 \<and> pg_no vb = pg_no 0x08048000 then Some (0xc0200000, True, True)
       else pd_map sample_machine q vb)
     else s' = sample_machine \<and> (\<forall>i. \<not> group_at (bmap (used_map (kernel_pool sample_machine))) i 1 False)"
    using address_space_map [OF sample_spaces sample_call(1,2), of "0xc0200000" True] sample_call(3-6) by blast
  have b using s'(2) g by (auto split: if_splits)
  then show ?thesis using sample_spaces s' by (simp add: sample_empty)
qed

end
