(* ===== verification/Paging_Boot.thy ===== *)
theory Paging_Boot
  imports Paging_Spaces
begin

text \<open>
  Starting the memory system: \<^verbatim>\<open>palloc_init\<close> makes two well-formed pools with no page in use, and
  \<^verbatim>\<open>paging_init\<close> the first page directory.
\<close>

section \<open>The pools\<close>

lemma bitmap_buf_size_eq: "n \<le> 262144 \<Longrightarrow> bitmap_buf_size n = 8 + 4 * ((n + 31) div 32)"
  by (simp add: bitmap_buf_size_def byte_cnt_def elem_cnt_eq)

lemma init_pool_ok:
  assumes "2 \<le> n" "ram \<le> 262144" "init_ram_pages s = ram" "unat b mod 4096 = 0" "3221225472 \<le> unat b" "unat b + 4096 * n \<le> 3221225472 + 4096 * ram"
  obtains p where "init_pool s b n = Some p" and "pool_ok ram p" and "bmap (used_map p) = replicate (bit_cnt (used_map p)) False"
    and "unat b \<le> unat (base p)" and "unat (base p) + 4096 * bit_cnt (used_map p) = unat b + 4096 * n"
    and "n \<le> bit_cnt (used_map p) + 2 + n div 1024"
proof -
  define bm where "bm = (8 + 4 * ((n + 31) div 32) + 4095) div 4096"
  have n: "n \<le> 262144" using assms(2,5,6) by simp
  have bm: "DIV_ROUND_UP (bitmap_buf_size n) 4096 = bm" using n by (simp add: bitmap_buf_size_eq DIV_ROUND_UP_def bm_def)
  have b1: "8 + 4 * ((n + 31) div 32) \<le> 4096 * bm" unfolding bm_def using dividend_less_times_div [of 4096 "8 + 4 * ((n + 31) div 32) + 4095"] by simp
  have "8 + 4 * ((n + 31) div 32) + 4095 < n * 4096" using assms(1) div_le_dividend [of "n + 31" 32] by simp
  then have b2: "bm < n" unfolding bm_def by (rule less_mult_imp_div_less)
  have "(n + 31) div 32 \<le> n + 31" by (rule div_le_dividend)
  then have "bm \<le> (4 * n + 4227) div 4096" unfolding bm_def by (intro div_le_mono) simp
  also have "\<dots> \<le> 2 + n div 1024" by simp
  finally have b3: "bm \<le> 2 + n div 1024" .
  have mono: "(n - bm + 31) div 32 \<le> (n + 31) div 32" by (simp add: div_le_mono)
  let ?block = "map (\<lambda>k. mem s (b + 4 * word_of_nat k)) [0..<bm * 1024]"
  let ?m = "\<lparr>bit_cnt = n - bm, bits = drop 2 ?block\<rparr>"
  have "elem_cnt (n - bm) \<le> bm * 1024 - 2" using b1 mono n by (simp add: elem_cnt_eq)
  then have "bitmap_ok ?m" using n by (simp add: bitmap_ok_def)
  from bitmap_set_all_ok [OF this, of False] obtain m where m: "bitmap_set_all ?m False = Some m" "bitmap_ok m" "bit_cnt m = n - bm" "bmap m = replicate (n - bm) False" by auto
  have "bitmap_create_in_buf (n - bm) ?block (sz (bm * 4096)) = Some m"
    using b1 b2 mono n m(1) by (simp add: bitmap_create_in_buf_def bitmap_buf_size_eq)
  moreover have "in_ram s b (bm * 4096)" using assms(3,5,6) b2 by (simp add: in_ram_def PHYS_BASE_unat)
  ultimately have i: "init_pool s b n = Some \<lparr>used_map = m, base = b + word_of_nat (bm * 4096)\<rparr>"
    using b2 by (simp add: init_pool_def bm Let_def)
  have u: "unat (b + word_of_nat (bm * 4096)) = unat b + 4096 * bm"
    using assms(2,6) b2 by (simp add: unat_word_ariths unat_of_nat)
  obtain k where "unat b = 4096 * k" using assms(4) by blast
  then have "(unat b + 4096 * bm) mod 4096 = 0" by simp
  then show thesis using that [OF i] m(2-4) u assms(5,6) b2 b3 by (simp add: pool_ok_def diff_mult_distrib2)
qed

lemma palloc_init_ok:
  assumes "272 \<le> init_ram_pages s" "init_ram_pages s \<le> 262144" "2 \<le> user_page_limit"
  obtains s' where "palloc_init s user_page_limit = Some s'" and "pools_ok s'" and "\<And>b. \<not> page_used s' b" and "same_regs s s'" and "mem s' = mem s"
    and "1 + (init_ram_pages s + 1023) div 1024 \<le> count_list (bmap (used_map (kernel_pool s'))) False"
proof -
  define ram where "ram = init_ram_pages s"
  define up where "up = (if (ram - 256) div 2 > user_page_limit then user_page_limit else (ram - 256) div 2)"
  define kp where "kp = ram - 256 - up"
  have r: "272 \<le> ram" "ram \<le> 262144" "2 \<le> up" "2 \<le> kp" "up + kp = ram - 256" using assms by (auto simp: ram_def up_def kp_def)
  have start: "ptov (1024 * 1024) = Some 0xc0100000" by (simp add: ptov_def PHYS_BASE_def)
  have u: "unat (word_of_nat ram * 4096 :: u32) = 4096 * ram" using r(2) by (simp add: unat_word_ariths unat_of_nat)
  then have "word_of_nat ram * 4096 < PHYS_BASE" using r(2) by (simp add: word_less_nat_alt PHYS_BASE_unat)
  then have stop: "ptov (word_of_nat ram * 4096) = Some (word_of_nat ram * 4096 + PHYS_BASE)" by (simp add: ptov_def)
  have "word_of_nat ram * 4096 + PHYS_BASE - 0xc0100000 = word_of_nat ram * 4096 - 0x100000" by (simp add: PHYS_BASE_def)
  moreover have "unat (word_of_nat ram * 4096 - 0x100000 :: u32) = 4096 * (ram - 256)" using u r(1) by (simp add: unat_sub word_le_nat_alt diff_mult_distrib2)
  ultimately have d: "unat (word_of_nat ram * 4096 + PHYS_BASE - 0xc0100000) = 4096 * (ram - 256)" by (simp only:)
  then have pages: "u32_of (cdiv (s32 (int (unat (word_of_nat ram * 4096 + PHYS_BASE - 0xc0100000)))) 4096) = ram - 256"
    using r(2) by (simp add: d s32_id u32_of_def)
  have bounds: "1048576 + 4096 * kp \<le> 4096 * ram" "1048576 + 4096 * kp + 4096 * up = 4096 * ram" using r(1,5) by simp_all
  obtain k where k: "init_pool s 0xc0100000 kp = Some k" "pool_ok ram k" "bmap (used_map k) = replicate (bit_cnt (used_map k)) False"
    "unat (base k) + 4096 * bit_cnt (used_map k) = 3222274048 + 4096 * kp" "kp \<le> bit_cnt (used_map k) + 2 + kp div 1024"
    using init_pool_ok [OF r(4,2) ram_def [symmetric], of "0xc0100000"] bounds(1) by auto
  have ub: "unat (0xc0100000 + word_of_nat kp * 4096 :: u32) = 3222274048 + 4096 * kp" using r by (simp add: unat_word_ariths unat_of_nat)
  obtain w where w: "init_pool (s\<lparr>kernel_pool := k\<rparr>) (0xc0100000 + word_of_nat kp * 4096) up = Some w" "pool_ok ram w"
    "bmap (used_map w) = replicate (bit_cnt (used_map w)) False" "3222274048 + 4096 * kp \<le> unat (base w)"
    "unat (base w) + 4096 * bit_cnt (used_map w) = 3222274048 + 4096 * kp + 4096 * up"
    using init_pool_ok [OF r(3,2), of "s\<lparr>kernel_pool := k\<rparr>" "0xc0100000 + word_of_nat kp * 4096"] bounds(2) ub by (auto simp: ram_def)
  let ?s = "s\<lparr>kernel_pool := k, user_pool := w\<rparr>"
  have "palloc_init s user_page_limit = Some ?s"
    using start stop pages k(1) w(1) by (simp add: palloc_init_def ram_def [symmetric] up_def kp_def)
  moreover have "\<not> used_in p b" if "bmap (used_map p) = replicate (bit_cnt (used_map p)) False" for p b
    using that by (auto simp: used_in_def in_range_def div_less_iff_less_mult less_diff_conv2)
  moreover have "1 + (ram + 1023) div 1024 \<le> bit_cnt (used_map k)"
  proof -
    have "ram \<le> 2 * kp + 257" "8 \<le> kp" using r(1) by (auto simp: kp_def up_def)
    then show ?thesis using k(5) by linarith
  qed
  then have "1 + (ram + 1023) div 1024 \<le> count_list (bmap (used_map k)) False" using k(3) by (simp add: count_list_eq_length_filter)
  ultimately show thesis
    using that [of ?s] k w r by (simp add: pools_ok_def page_used_def same_regs_def ram_def [symmetric])
qed

section \<open>Allocating while booting\<close>

lemma count_fill:
  assumes "group_at bs k 1 False"
  shows "count_list (fill k 1 True bs) False + 1 = count_list bs False"
proof -
  have k: "k < length bs" "\<not> bs ! k" using assms by (auto simp: group_at_def)
  then have "bs = take k bs @ False # drop (k + 1) bs" using id_take_nth_drop [OF k(1)] by simp
  then have "count_list bs False = count_list (take k bs) False + count_list (drop (k + 1) bs) False + 1"
    by (metis add.assoc add.commute count_list.simps(2) count_list_append)
  then show ?thesis by (simp add: fill_def)
qed

lemma count_group:
  assumes "0 < count_list bs False"
  shows "\<exists>k. group_at bs k 1 False"
proof -
  have "False \<in> set bs" using assms by (metis count_list_0_iff less_irrefl)
  then obtain k where "k < length bs" "\<not> bs ! k" by (auto simp: in_set_conv_nth)
  then show ?thesis by (intro exI [of _ k]) (simp add: group_at_def)
qed

text \<open>With a free page in the kernel pool \<^verbatim>\<open>PAL_ASSERT\<close> makes no difference.\<close>

lemma palloc_assert:
  assumes "pools_ok s" "0 < count_list (bmap (used_map (kernel_pool s))) False"
  obtains a t where "palloc_get_page s (PAL_ASSERT OR PAL_ZERO) = Some (a, t)" and "allocated s PAL_ZERO 1 a t" and "pools_ok t"
    and "count_list (bmap (used_map (kernel_pool t))) False + 1 = count_list (bmap (used_map (kernel_pool s))) False"
proof -
  have z: "PAL_ZERO AND PAL_ASSERT = 0" by simp
  show thesis
  proof (cases rule: palloc_get_multiple_ok [OF assms(1) zero_less_one z])
    case 1
    then show thesis using count_group [OF assms(2)] by (simp add: pool_of_def)
  next
    case (2 a t)
    have "palloc_get_page s (PAL_ASSERT OR PAL_ZERO) = Some (a, t)"
      using 2(1) allocatedD(1) [OF 2(2)]
      by (auto simp: palloc_get_page_def palloc_get_multiple_def Let_def bind_Some_iff split: if_splits)
    moreover obtain k where "group_at (bmap (used_map (kernel_pool s))) k 1 False"
      "bmap (used_map (kernel_pool t)) = fill k 1 True (bmap (used_map (kernel_pool s)))"
      using allocatedD(10) [OF 2(2)] by (auto simp: pool_of_def)
    ultimately show thesis using that 2(2,3) count_fill by simp
  qed
qed

lemma cr3_views:
  "pool_of (load_cr3 s c) = pool_of s" "page_used (load_cr3 s c) = page_used s" "mem (load_cr3 s c) = mem s" "pde (load_cr3 s c) = pde s"
  "pd_word (load_cr3 s c) = pd_word s" "kpage (load_cr3 s c) = kpage s" "init_page_dir (load_cr3 s c) = init_page_dir s"
  by (simp_all add: pool_of_def page_used_def pde_def pte_def pd_word_def kpage_def in_ram_def load_cr3_def fun_eq_iff)

lemma load_cr3_mem: "(load_cr3 s c)\<lparr>mem := m\<rparr> = load_cr3 (s\<lparr>mem := m\<rparr>) c"
  by (simp add: load_cr3_def)

lemma allocated_cr3: "allocated s f n a t \<Longrightarrow> allocated (load_cr3 s c) f n a (load_cr3 t c)"
  unfolding allocated_def cr3_views by (simp add: same_regs_def load_cr3_def)

section \<open>The kernel's map\<close>

text \<open>The map after \<open>n\<close> pages: each page of RAM at \<open>PHYS_BASE\<close>, the kernel's text read-only, nothing for user code.\<close>

definition kernel_map :: "u32 \<Rightarrow> u32 \<Rightarrow> nat \<Rightarrow> u32 \<Rightarrow> (u32 \<times> bool \<times> bool) option" where
  "kernel_map text_start text_end n va =
     (if PHYS_BASE \<le> va \<and> unat va < unat PHYS_BASE + 4096 * n
      then Some (pg_round_down va, \<not> (text_start \<le> pg_round_down va \<and> pg_round_down va < text_end), False) else None)"

definition boot_inv :: "u32 \<Rightarrow> u32 \<Rightarrow> u32 \<Rightarrow> nat \<Rightarrow> nat \<Rightarrow> machine \<Rightarrow> u32 \<Rightarrow> bool" where
  "boot_inv text_start text_end pd ram n s pt \<longleftrightarrow>
     init_page_dir s = pd \<and> init_ram_pages s = ram \<and> spaces_ok (load_cr3 s (pd - PHYS_BASE)) {pd} \<and>
     (\<forall>i. unat i < 1024 \<longrightarrow> (pde s pd i \<noteq> 0 \<longleftrightarrow> 768 \<le> unat i \<and> (unat i - 768) * 1024 < n)) \<and>
     (n mod 1024 \<noteq> 0 \<longrightarrow> pt = frame_of (pde s pd (word_of_nat (768 + n div 1024)))) \<and>
     pd_map s pd = kernel_map text_start text_end n \<and>
     (ram + 1023) div 1024 \<le> count_list (bmap (used_map (kernel_pool s))) False + (n + 1023) div 1024"

lemma page_address:
  assumes "n < 262144"
  defines "va \<equiv> word_of_nat n * 4096 + PHYS_BASE"
  shows "ptov (word_of_nat n * 4096) = Some va" "unat va = 3221225472 + 4096 * n"
    "unat (pd_no va) = 768 + n div 1024" "unat (pt_no va) = n mod 1024" "\<not> is_user_vaddr va"
    "pd_no va = word_of_nat (768 + n div 1024)"
proof -
  have p: "unat (word_of_nat n * 4096 :: u32) = 4096 * n" using assms(1) by (simp add: unat_word_ariths unat_of_nat)
  then have "word_of_nat n * 4096 < PHYS_BASE" using assms(1) by (simp add: word_less_nat_alt PHYS_BASE_unat)
  then show "ptov (word_of_nat n * 4096) = Some va" by (simp add: ptov_def va_def)
  have "unat va = (4096 * n + 3221225472) mod 4294967296" unfolding va_def by (subst unat_word_ariths(1)) (simp add: p PHYS_BASE_unat)
  also have "\<dots> = 4096 * n + 3221225472" using assms(1) by simp
  finally show u: "unat va = 3221225472 + 4096 * n" by simp
  have "(3221225472 + 4096 * n) div 4194304 = (3221225472 + 4096 * n) div 4096 div 1024" by (simp only: div_mult2_eq [symmetric]) simp
  also have "(3221225472 + 4096 * n) div 4096 = n + 786432" by simp
  also have "(n + 786432) div 1024 = 768 + n div 1024" by simp
  finally show d: "unat (pd_no va) = 768 + n div 1024" by (simp add: pd_no_unat u)
  have "(3221225472 + 4096 * n) div 4096 mod 1024 = (n + 768 * 1024) mod 1024" by (simp add: add.commute)
  also have "\<dots> = n mod 1024" by (rule mod_mult_self1)
  finally show "unat (pt_no va) = n mod 1024" by (simp add: pt_no_unat u)
  show "\<not> is_user_vaddr va" by (simp add: user_pd_no d)
  show "pd_no va = word_of_nat (768 + n div 1024)"
    using pd_no_less [of va] d by (simp add: word_unat_eq_iff unat_word_ariths unat_of_nat)
qed

lemma pg_round_down_unat: "unat (pg_round_down va) = 4096 * (unat va div 4096)"
  using addr_bits [of va] by (simp add: pg_round_down_def PGMASK_eq PTE_ADDR_eq minus_mod_eq_mult_div)

lemma table_step: "a \<and> ((i - 768) * 1024 < n \<or> i - 768 = n div 1024) \<longleftrightarrow> a \<and> (i - 768) * 1024 < Suc n" for i n :: nat
proof -
  have "j * 1024 < Suc n \<longleftrightarrow> j * 1024 < n \<or> j = n div 1024" for j
  proof -
    have "j * 1024 < Suc n \<longleftrightarrow> j \<le> n div 1024" by (simp add: less_eq_div_iff_mult_less_eq less_Suc_eq_le)
    moreover have "j * 1024 < n" if "j < n div 1024" using that div_times_less_eq_dividend [of n 1024] by linarith
    moreover have "j \<le> n div 1024" if "j * 1024 < n" using that by (simp add: less_eq_div_iff_mult_less_eq)
    ultimately show ?thesis by auto
  qed
  then show ?thesis by auto
qed

lemma kernel_map_Suc:
  assumes "n < 262144"
  defines "va \<equiv> word_of_nat n * 4096 + PHYS_BASE"
  shows "kernel_map text_start text_end (Suc n) vb =
    (if pg_no vb = pg_no va then Some (va, \<not> (text_start \<le> va \<and> va < text_end), False) else kernel_map text_start text_end n vb)"
proof -
  have u: "unat va = 3221225472 + 4096 * n" using page_address(2) [OF assms(1)] by (simp add: va_def)
  have p: "pg_no vb = pg_no va \<longleftrightarrow> unat vb div 4096 = 786432 + n" by (simp add: word_unat_eq_iff pg_no_unat u)
  have "unat vb div 4096 = 786432 + n \<longleftrightarrow> 786432 + n \<le> unat vb div 4096 \<and> unat vb div 4096 < 786433 + n" by auto
  also have "\<dots> \<longleftrightarrow> 3221225472 + 4096 * n \<le> unat vb \<and> unat vb < 3221225472 + 4096 * Suc n"
    by (simp add: less_eq_div_iff_mult_less_eq div_less_iff_less_mult distrib_right mult.commute)
  finally have i: "unat vb div 4096 = 786432 + n \<longleftrightarrow> 3221225472 + 4096 * n \<le> unat vb \<and> unat vb < 3221225472 + 4096 * Suc n" .
  have "pg_round_down vb = va" if "pg_no vb = pg_no va" using that by (simp add: word_unat_eq_iff [of "pg_round_down vb"] pg_round_down_unat p u)
  then show ?thesis using p i by (auto simp: kernel_map_def word_le_nat_alt PHYS_BASE_unat)
qed

text \<open>Getting the table for page \<open>n\<close>: it is there, or a fresh one is put in.\<close>

lemma boot_table:
  assumes inv: "boot_inv text_start text_end pd ram n s pt" and n: "n < ram" "ram \<le> 262144"
  defines "va \<equiv> word_of_nat n * 4096 + PHYS_BASE"
  obtains w s' where "load s (pd + 4 * pd_no va) = Some w"
    and "(if w = 0 then do {
        (pt, s) \<leftarrow> palloc_get_page s (PAL_ASSERT OR PAL_ZERO);
        e \<leftarrow> pde_create pt;
        s \<leftarrow> store s (pd + 4 * pd_no va) e;
        Some (pt, s) }
      else Some (pt, s)) = Some (frame_of (pde s' pd (pd_no va)), s')"
    and "spaces_ok (load_cr3 s' (pd - PHYS_BASE)) {pd}" and "init_page_dir s' = pd" and "init_ram_pages s' = ram"
    and "pd_word s' pd = pd_word s pd" and "\<And>i. unat i < 1024 \<Longrightarrow> pde s' pd i \<noteq> 0 \<longleftrightarrow> pde s pd i \<noteq> 0 \<or> i = pd_no va"
    and "(ram + 1023) div 1024 \<le> count_list (bmap (used_map (kernel_pool s'))) False + (n + 1024) div 1024"
proof -
  let ?G = "\<lambda>s. load_cr3 s (pd - PHYS_BASE)"
  note va = page_address [OF less_le_trans [OF n], folded va_def]
  have sp: "spaces_ok (?G s) {pd}" and i: "init_page_dir s = pd" "init_ram_pages s = ram"
    and nz: "\<And>i. unat i < 1024 \<Longrightarrow> pde s pd i \<noteq> 0 \<longleftrightarrow> 768 \<le> unat i \<and> (unat i - 768) * 1024 < n"
    and pt: "n mod 1024 \<noteq> 0 \<Longrightarrow> pt = frame_of (pde s pd (word_of_nat (768 + n div 1024)))"
    and free: "(ram + 1023) div 1024 \<le> count_list (bmap (used_map (kernel_pool s))) False + (n + 1023) div 1024"
    using inv by (simp_all add: boot_inv_def)
  have ok: "pd_ok s pd" using spaces_okD(6) [OF sp, of pd] by (simp add: load_cr3_same)
  have po: "pools_ok s" using spaces_okD(1) [OF sp] by (simp add: load_cr3_same)
  have l: "load s (pd + 4 * pd_no va) = Some (pde s pd (pd_no va))" using entry_access(1) [OF pd_okD(1) [OF ok] pd_no_less] by (simp add: pde_def)
  note pdva = va(6)
  have here: "pde s pd (pd_no va) \<noteq> 0 \<longleftrightarrow> n mod 1024 \<noteq> 0"
  proof -
    have "n div 1024 * 1024 < n \<longleftrightarrow> n mod 1024 \<noteq> 0" using div_mult_mod_eq [of n 1024] by linarith
    then show ?thesis using nz [OF pd_no_less, of va] va(3) by simp
  qed
  show thesis
  proof (cases "n mod 1024 = 0")
    case False
    then have "pde s pd (pd_no va) \<noteq> 0" using here by simp
    moreover have "(n + 1023) div 1024 \<le> (n + 1024) div 1024" by (simp add: div_le_mono)
    ultimately show thesis using that [OF l, of s] pt False sp i free pdva by auto
  next
    case True
    then have z: "pde s pd (pd_no va) = 0" using here by simp
    have "(n + 1023) div 1024 = n div 1024" "(n + 1024) div 1024 = n div 1024 + 1" "n div 1024 < (ram + 1023) div 1024"
    proof -
      obtain k where k: "n = 1024 * k" using True by blast
      then show "(n + 1023) div 1024 = n div 1024" "(n + 1024) div 1024 = n div 1024 + 1" by simp_all
      have "Suc k \<le> (ram + 1023) div 1024" using n(1) k by (subst less_eq_div_iff_mult_less_eq) simp_all
      then show "n div 1024 < (ram + 1023) div 1024" by (simp add: k)
    qed
    then have c: "(n + 1023) div 1024 = n div 1024" "(n + 1024) div 1024 = n div 1024 + 1" "0 < count_list (bmap (used_map (kernel_pool s))) False"
      using free by linarith+
    obtain q t where q: "palloc_get_page s (PAL_ASSERT OR PAL_ZERO) = Some (q, t)" "allocated s PAL_ZERO 1 q t" "pools_ok t"
      "count_list (bmap (used_map (kernel_pool t))) False + 1 = count_list (bmap (used_map (kernel_pool s))) False"
      using palloc_assert [OF po c(3)] .
    note k = allocated_kpage [OF q(2) po]
    obtain e where e: "pde_create q = Some e" "e \<noteq> 0" "e AND PTE_P \<noteq> 0" "frame_of e = q" using pde_create_ok [OF k(1)] .
    define s' where "s' = t\<lparr>mem := (mem t)(pd + 4 * pd_no va := e)\<rparr>"
    have G: "?G s' = (?G t)\<lparr>mem := (mem (?G t))(pd + 4 * pd_no va := e)\<rparr>" by (simp add: s'_def load_cr3_def)
    have zG: "pde (?G s) pd (pd_no va) = 0" using z by (simp add: cr3_views)
    note al = allocated_cr3 [OF q(2), of "pd - PHYS_BASE"]
    have s': "spaces_ok (?G s') {pd}" using install_ok [OF sp _ zG _ al _ e(4,2,3) G] va(5) q(3) by (simp add: load_cr3_same)
    note w = install_words [OF sp _ zG al e(4,2) G, of pd, simplified, unfolded cr3_views]
    have p: "pde s' pd j = (if j = pd_no va then e else pde s pd j)" if "unat j < 1024" for j using w(1) [OF that] .
    have st: "store t (pd + 4 * pd_no va) e = Some s'"
      using entry_access(2) [of t pd "pd_no va" e] pd_okD(1) [OF ok] pd_no_less k(2) by (simp add: s'_def)
    have "frame_of (pde s' pd (pd_no va)) = q" using p [OF pd_no_less, of va] e(4) by simp
    moreover have "init_page_dir s' = pd" "init_ram_pages s' = ram" using allocatedD(5) [OF q(2)] i by (simp_all add: s'_def same_regs_def)
    moreover have "pd_word s' pd = pd_word s pd" using w(2) by (simp add: fun_eq_iff)
    moreover have "kernel_pool s' = kernel_pool t" by (simp add: s'_def)
    ultimately show thesis using that [OF l, of s'] st s' p e(1,2) q(1,4) free c z by simp
  qed
qed

lemma map_step:
  assumes inv: "boot_inv text_start text_end pd ram n s pt" and n: "n < ram" "ram \<le> 262144"
  obtains s' pt' where "map_loop text_start text_end pd (Suc k) n s pt = map_loop text_start text_end pd k (Suc n) s' pt'"
    and "boot_inv text_start text_end pd ram (Suc n) s' pt'"
proof -
  define va where "va = word_of_nat n * 4096 + PHYS_BASE"
  let ?G = "\<lambda>s. load_cr3 s (pd - PHYS_BASE)"
  note va = page_address [OF less_le_trans [OF n], folded va_def]
  obtain w t where t: "load s (pd + 4 * pd_no va) = Some w"
    "(if w = 0 then do {
        (pt, s) \<leftarrow> palloc_get_page s (PAL_ASSERT OR PAL_ZERO);
        e \<leftarrow> pde_create pt;
        s \<leftarrow> store s (pd + 4 * pd_no va) e;
        Some (pt, s) }
      else Some (pt, s)) = Some (frame_of (pde t pd (pd_no va)), t)"
    "spaces_ok (?G t) {pd}" "init_page_dir t = pd" "init_ram_pages t = ram" "pd_word t pd = pd_word s pd"
    "\<forall>i. unat i < 1024 \<longrightarrow> (pde t pd i \<noteq> 0 \<longleftrightarrow> pde s pd i \<noteq> 0 \<or> i = pd_no va)"
    "(ram + 1023) div 1024 \<le> count_list (bmap (used_map (kernel_pool t))) False + (n + 1024) div 1024"
    by (rule boot_table [OF inv n, folded va_def]) blast
  have nzt: "pde (?G t) pd (pd_no va) \<noteq> 0" using t(7) pd_no_less by (simp add: cr3_views)
  have kp: "kpage t va" using va(2) n(1) t(5) by (simp add: kpage_def in_ram_def PHYS_BASE_unat)
  let ?wr = "\<not> (text_start \<le> va \<and> va < text_end)"
  obtain e where e: "pte_create_kernel va ?wr = Some e" "e AND PTE_P \<noteq> 0" "rights e = (va, ?wr, False)" using pte_create_kernel_ok [OF kp] .
  define s' where "s' = t\<lparr>mem := (mem t)(frame_of (pde t pd (pd_no va)) + 4 * pt_no va := e)\<rparr>"
  have G: "?G s' = (?G t)\<lparr>mem := (mem (?G t))(frame_of (pde (?G t) pd (pd_no va)) + 4 * pt_no va := e)\<rparr>"
    by (simp add: s'_def cr3_views) (simp add: load_cr3_def)
  have "pd_ok t pd" using spaces_okD(6) [OF t(3), of pd] by (simp add: load_cr3_same)
  then have "store t (frame_of (pde t pd (pd_no va)) + 4 * pt_no va) e = Some s'"
    using pte_access(2) [of t pd va e] nzt by (simp add: s'_def cr3_views)
  then have loop: "map_loop text_start text_end pd (Suc k) n s pt = map_loop text_start text_end pd k (Suc n) s' (frame_of (pde t pd (pd_no va)))"
    using t(1,2) e(1) va(1) by (simp add: Let_def va_def [symmetric])
  have sp: "spaces_ok (?G s') {pd}"
    using pte_write_ok [OF t(3) _ nzt G] e(3) kp by (simp add: rights_def cr3_views)
  have pd: "pde s' pd i = pde t pd i" if "unat i < 1024" for i
    using pte_write(1) [OF t(3) _ nzt G, of pd i] that by (simp add: cr3_views)
  have m: "pd_map s' pd vb = (if pg_no vb = pg_no va then Some (va, ?wr, False) else pd_map s pd vb)" for vb
    using pte_write_word(1) [OF t(3) _ nzt G, of vb] e(2,3) t(6) by (simp add: cr3_views pd_map_def)
  have "pde s' pd i \<noteq> 0 \<longleftrightarrow> 768 \<le> unat i \<and> (unat i - 768) * 1024 < Suc n" if i: "unat i < 1024" for i
  proof -
    have "i = pd_no va \<longleftrightarrow> unat i = 768 + n div 1024" by (simp add: word_unat_eq_iff va(3))
    then have "pde s' pd i \<noteq> 0 \<longleftrightarrow> 768 \<le> unat i \<and> ((unat i - 768) * 1024 < n \<or> unat i - 768 = n div 1024)"
      using pd [OF i] t(7) i inv by (auto simp: boot_inv_def)
    then show ?thesis by (simp only: table_step)
  qed
  moreover have "frame_of (pde t pd (pd_no va)) = frame_of (pde s' pd (word_of_nat (768 + Suc n div 1024)))" if "Suc n mod 1024 \<noteq> 0"
  proof -
    have "Suc n div 1024 = n div 1024" using that by (simp add: div_Suc)
    then show ?thesis using pd [OF pd_no_less, of va] by (simp only: va(6))
  qed
  moreover have "pd_map s' pd = kernel_map text_start text_end (Suc n)"
    using m inv kernel_map_Suc [OF less_le_trans [OF n], folded va_def] by (simp add: fun_eq_iff boot_inv_def)
  moreover have "kernel_pool s' = kernel_pool t" "init_page_dir s' = pd" "init_ram_pages s' = ram" using t(4,5) by (simp_all add: s'_def)
  ultimately have "boot_inv text_start text_end pd ram (Suc n) s' (frame_of (pde t pd (pd_no va)))"
    using sp t(8) by (simp add: boot_inv_def)
  with loop show thesis by (rule that)
qed

lemma map_loop_ok:
  assumes "boot_inv text_start text_end pd ram n s pt" "n + k = ram" "ram \<le> 262144"
  shows "\<exists>s' pt'. map_loop text_start text_end pd k n s pt = Some s' \<and> boot_inv text_start text_end pd ram ram s' pt'"
  using assms
proof (induction k arbitrary: n s pt)
  case 0
  then show ?case by auto
next
  case (Suc k)
  have "n < ram" using Suc.prems(2) by simp
  from map_step [OF Suc.prems(1) this Suc.prems(3), of k] obtain s' pt' where
    "map_loop text_start text_end pd (Suc k) n s pt = map_loop text_start text_end pd k (Suc n) s' pt'"
    "boot_inv text_start text_end pd ram (Suc n) s' pt'" .
  with Suc.IH [of "Suc n" s' pt'] Suc.prems(2,3) show ?case by simp
qed

section \<open>The first directory\<close>

lemma boot_start:
  assumes al: "allocated s PAL_ZERO 1 pd t" "pools_ok s" "pools_ok t"
    and c: "(init_ram_pages s + 1023) div 1024 \<le> count_list (bmap (used_map (kernel_pool t))) False"
  shows "boot_inv text_start text_end pd (init_ram_pages s) 0 (t\<lparr>init_page_dir := pd\<rparr>) 0"
proof -
  let ?t = "t\<lparr>init_page_dir := pd\<rparr>"
  note k = allocated_kpage [OF al(1,2)]
  have z: "pde ?t pd i = 0" if "unat i < 1024" for i
    using allocatedD(9) [OF al(1)] range_entry [OF allocatedD(2) [OF al(1)] allocatedD(2) [OF al(1)] that] by (simp add: pde_def)
  then have e: "tables ?t pd n = {}" if "n \<le> 1024" for n using that by (auto simp: tables_def)
  have w: "pd_word ?t pd va = None" for va using z [OF pd_no_less] by (simp add: pd_word_def)
  have "kpage ?t pd" "page_used ?t pd" using k(1,3) by (simp_all add: kpage_def in_ram_def page_used_def in_range_def)
  then have "pd_ok ?t pd" unfolding pd_ok_def using z by (auto simp: e w intro!: inj_onI)
  moreover have "PHYS_BASE \<le> pd" using k(1) by (simp add: kpage_def in_ram_def word_le_nat_alt)
  then have "unat (pd - PHYS_BASE) < 3221225472" using unat_bound [of pd] by (simp add: unat_sub PHYS_BASE_unat)
  then have "pd - PHYS_BASE < PHYS_BASE" by (simp add: word_less_nat_alt PHYS_BASE_unat)
  moreover have "pools_ok ?t" using al(3) by (simp add: pools_ok_def)
  ultimately have "spaces_ok (load_cr3 ?t (pd - PHYS_BASE)) {pd}"
    unfolding spaces_ok_def load_cr3_same by (simp add: e) (simp add: load_cr3_def)
  moreover have "pd_map ?t pd = kernel_map text_start text_end 0" using w by (simp add: pd_map_def kernel_map_def fun_eq_iff word_le_nat_alt)
  ultimately show ?thesis using z c allocatedD(5) [OF al(1)] by (simp add: boot_inv_def same_regs_def)
qed

lemma paging_init_ok:
  assumes "pools_ok s" "1 + (init_ram_pages s + 1023) div 1024 \<le> count_list (bmap (used_map (kernel_pool s))) False"
  obtains s' where "paging_init text_start text_end s = Some s'" and "spaces_ok s' {init_page_dir s'}" and "tlb_ok s'"
    and "active_pd s' = Some (init_page_dir s')" and "pd_map s' (init_page_dir s') = kernel_map text_start text_end (init_ram_pages s)"
proof -
  have "0 < count_list (bmap (used_map (kernel_pool s))) False" using assms(2) by simp
  from palloc_assert [OF assms(1) this] obtain pd t where t: "palloc_get_page s (PAL_ASSERT OR PAL_ZERO) = Some (pd, t)" "allocated s PAL_ZERO 1 pd t"
    "pools_ok t" "count_list (bmap (used_map (kernel_pool t))) False + 1 = count_list (bmap (used_map (kernel_pool s))) False" .
  have ram: "init_ram_pages s \<le> 262144" "init_ram_pages t = init_ram_pages s"
    using assms(1) allocatedD(5) [OF t(2)] by (simp_all add: pools_ok_def same_regs_def)
  have "boot_inv text_start text_end pd (init_ram_pages s) 0 (t\<lparr>init_page_dir := pd\<rparr>) 0"
    using boot_start [OF t(2) assms(1) t(3)] assms(2) t(4) by simp
  from map_loop_ok [OF this _ ram(1), of "init_ram_pages s"] obtain u pt where
    u: "map_loop text_start text_end pd (init_ram_pages s) 0 (t\<lparr>init_page_dir := pd\<rparr>) 0 = Some u"
    "boot_inv text_start text_end pd (init_ram_pages s) (init_ram_pages s) u pt" by auto
  let ?s = "load_cr3 u (pd - PHYS_BASE)"
  have i: "init_page_dir u = pd" "spaces_ok ?s {pd}" "pd_map u pd = kernel_map text_start text_end (init_ram_pages s)"
    using u(2) by (simp_all add: boot_inv_def)
  have "paging_init text_start text_end s = Some ?s"
    using t(1) u(1) ram(2) kpage_vtop [OF allocated_kpage(1) [OF t(2) assms(1)]] by (simp add: paging_init_def)
  moreover have "cr3 ?s = pd - PHYS_BASE" "tlb_ok ?s" by (simp_all add: load_cr3_def tlb_ok_def)
  ultimately show thesis
    using that [of ?s] i spaces_okD(4) [OF i(2)] by (simp add: load_cr3_same active_pd_def ptov_def)
qed

section \<open>Property\<close>

text \<open>C10: Booting. On a machine with between 272 pages (a little over a megabyte) and a gigabyte of RAM and any
  contents of memory, \<^verbatim>\<open>palloc_init\<close> followed by \<^verbatim>\<open>paging_init\<close> returns, with the kernel's page directory
  active, an empty TLB and a well-typed family of one address space. This address space maps every page of RAM
  at \<^verbatim>\<open>PHYS_BASE\<close> for the kernel only, read-only exactly in the kernel's text, and nothing else.\<close>

theorem boot_kernel_map:
  assumes "272 \<le> init_ram_pages s" and "init_ram_pages s \<le> 262144" and "2 \<le> user_page_limit"
  shows "\<exists>s1 s2. palloc_init s user_page_limit = Some s1 \<and> paging_init text_start text_end s1 = Some s2 \<and>
    spaces_ok s2 {init_page_dir s2} \<and> tlb_ok s2 \<and> active_pd s2 = Some (init_page_dir s2) \<and>
    (\<forall>va. pd_map s2 (init_page_dir s2) va =
      (if PHYS_BASE \<le> va \<and> unat va < unat PHYS_BASE + 4096 * init_ram_pages s
       then Some (pg_round_down va, \<not> (text_start \<le> pg_round_down va \<and> pg_round_down va < text_end), False) else None))"
proof -
  obtain s1 where s1: "palloc_init s user_page_limit = Some s1" "pools_ok s1" "same_regs s s1"
    "1 + (init_ram_pages s + 1023) div 1024 \<le> count_list (bmap (used_map (kernel_pool s1))) False"
    using palloc_init_ok [OF assms] .
  have ram: "init_ram_pages s1 = init_ram_pages s" using s1(3) by (simp add: same_regs_def)
  obtain s2 where "paging_init text_start text_end s1 = Some s2" "spaces_ok s2 {init_page_dir s2}" "tlb_ok s2"
    "active_pd s2 = Some (init_page_dir s2)" "pd_map s2 (init_page_dir s2) = kernel_map text_start text_end (init_ram_pages s)"
    using paging_init_ok [OF s1(2), of text_start text_end] s1(4) ram by auto
  then show ?thesis using s1(1) by (auto simp: kernel_map_def)
qed

theorem boot_kernel_map_witness:
  "272 \<le> init_ram_pages sample_machine \<and>
   (\<exists>s1 s2. palloc_init sample_machine 1000 = Some s1 \<and> paging_init 0xc0020000 0xc0030000 s1 = Some s2 \<and>
     pd_map s2 (init_page_dir s2) 0xc0020123 = Some (0xc0020000, False, False))"
proof -
  have r: "init_ram_pages sample_machine = 1024" by (simp add: sample_machine_def)
  have "pg_round_down 0xc0020123 = 0xc0020000" by (simp add: pg_round_down_def PGMASK_def BITMASK_def)
  then show ?thesis
    using boot_kernel_map [of sample_machine 1000 "0xc0020000" "0xc0030000"] by (auto simp: r PHYS_BASE_def)
qed

end
