(* ===== verification/Fixed_Point.thy ===== *)
theory Fixed_Point
  imports Bytes
begin

text \<open>
  Fixed-point numbers, threads/fixed-point.h: a number is its internal value, an \<^verbatim>\<open>int\<close> in units of
  \<open>1 / 65536\<close>. Products and quotients are formed in 64 bits, where they cannot overflow, and cut to 32 bits;
  sums and scaled values wrap. A division by zero, or of the least \<^verbatim>\<open>int\<close> by \<open>-1\<close>, traps.
\<close>

section \<open>The code\<close>

type_synonym fixed_point_t = int

abbreviation FIX_F :: int where
  "FIX_F \<equiv> 65536"

abbreviation FIX_MAX_INT :: int where
  "FIX_MAX_INT \<equiv> 65535"

definition mk_fix :: "int \<Rightarrow> fixed_point_t" where
  "mk_fix f = s32 f"

definition fix_int :: "int \<Rightarrow> fixed_point_t option" where
  "fix_int n = do { assertO (- FIX_MAX_INT \<le> n \<and> n \<le> FIX_MAX_INT); Some (mk_fix (n * FIX_F)) }"

definition fix_frac :: "int \<Rightarrow> int \<Rightarrow> fixed_point_t option" where
  "fix_frac n d = do {
     assertO (d \<noteq> 0);
     assertO (\<not> (n = - (2 ^ 31) \<and> d = -1));
     assertO (- FIX_MAX_INT \<le> cdiv n d \<and> cdiv n d \<le> FIX_MAX_INT);
     Some (mk_fix (cdiv (n * FIX_F) d)) }"

definition fix_round :: "fixed_point_t \<Rightarrow> int" where
  "fix_round x = cdiv (s32 (x + FIX_F div 2)) FIX_F"

definition fix_trunc :: "fixed_point_t \<Rightarrow> int" where
  "fix_trunc x = cdiv x FIX_F"

definition fix_add :: "fixed_point_t \<Rightarrow> fixed_point_t \<Rightarrow> fixed_point_t" where
  "fix_add x y = mk_fix (x + y)"

definition fix_sub :: "fixed_point_t \<Rightarrow> fixed_point_t \<Rightarrow> fixed_point_t" where
  "fix_sub x y = mk_fix (x - y)"

definition fix_mul :: "fixed_point_t \<Rightarrow> fixed_point_t \<Rightarrow> fixed_point_t" where
  "fix_mul x y = mk_fix (cdiv (x * y) FIX_F)"

definition fix_scale :: "fixed_point_t \<Rightarrow> int \<Rightarrow> fixed_point_t option" where
  "fix_scale x n = do { assertO (0 \<le> n); Some (mk_fix (x * n)) }"

definition fix_div :: "fixed_point_t \<Rightarrow> fixed_point_t \<Rightarrow> fixed_point_t option" where
  "fix_div x y = do { assertO (y \<noteq> 0); Some (mk_fix (cdiv (x * FIX_F) y)) }"

definition fix_unscale :: "fixed_point_t \<Rightarrow> int \<Rightarrow> fixed_point_t option" where
  "fix_unscale x n = do { assertO (0 < n); Some (mk_fix (cdiv x n)) }"

definition fix_inv :: "fixed_point_t \<Rightarrow> fixed_point_t option" where
  "fix_inv x = do { one \<leftarrow> fix_int 1; fix_div one x }"

definition fix_compare :: "fixed_point_t \<Rightarrow> fixed_point_t \<Rightarrow> int" where
  "fix_compare x y = (if x < y then -1 else if x > y then 1 else 0)"

section \<open>Arithmetic\<close>

lemma cdiv_mult [simp]: "b \<noteq> 0 \<Longrightarrow> cdiv (a * b) b = a"
  by (auto simp: cdiv_def abs_mult mult_less_0_iff)

text \<open>An integer of 16 bits survives the conversion and the way back by truncation, one that is not negative also by rounding.\<close>

lemma fix_int_roundtrip:
  assumes "-32768 \<le> n" "n \<le> 32767"
  obtains x where "fix_int n = Some x" and "x = n * FIX_F" and "fix_trunc x = n" and "0 \<le> n \<Longrightarrow> n < 32767 \<Longrightarrow> fix_round x = n"
proof
  have s: "s32 (n * FIX_F) = n * FIX_F" using assms by (intro s32_id) simp_all
  then show "fix_int n = Some (n * FIX_F)" using assms by (simp add: fix_int_def mk_fix_def)
  show "fix_trunc (n * FIX_F) = n" by (simp add: fix_trunc_def)
  show "fix_round (n * FIX_F) = n" if "0 \<le> n" "n < 32767"
  proof -
    have "s32 (n * FIX_F + 32768) = n * FIX_F + 32768" using that by (intro s32_id) simp_all
    then show ?thesis using that by (simp add: fix_round_def)
  qed
qed simp

text \<open>
  The quotient is cut towards zero, so rounding a negative number goes wrong: \<open>-1\<close> rounds to \<open>0\<close>. And \<^verbatim>\<open>fix_int\<close>
  admits integers of up to 17 bits, of which \<open>32768\<close> is the first whose value does not fit in an \<^verbatim>\<open>int\<close>.
\<close>

lemma fix_round_negative: "fix_int (-1) = Some (- FIX_F)" "fix_round (- FIX_F) = 0"
  by (simp_all add: fix_int_def mk_fix_def fix_round_def s32_def cdiv_def)

lemma fix_int_overflow: "fix_int 32768 = Some (- (2 ^ 31))" "fix_trunc (- (2 ^ 31)) = -32768"
  by (simp_all add: fix_int_def mk_fix_def fix_trunc_def s32_def cdiv_def)

lemma s32_s32: "s32 (s32 x + y) = s32 (x + y)"
proof -
  have "s32 x mod 2 ^ 32 = x mod 2 ^ 32" by (simp add: s32_def Let_def)
  then have "(s32 x + y) mod 2 ^ 32 = (x + y) mod 2 ^ 32" by (metis mod_add_left_eq)
  then show ?thesis by (simp only: s32_def [of "s32 x + y"] s32_def [of "x + y"])
qed

lemma fix_add_sub: "- (2 ^ 31) \<le> x \<Longrightarrow> x < 2 ^ 31 \<Longrightarrow> fix_sub (fix_add x y) y = x"
  using s32_s32 [of "x + y" "- y"] by (simp add: fix_add_def fix_sub_def mk_fix_def s32_id)

lemma fix_mul_one: "- (2 ^ 31) \<le> x \<Longrightarrow> x < 2 ^ 31 \<Longrightarrow> fix_mul x FIX_F = x"
  by (simp add: fix_mul_def mk_fix_def s32_id)

lemma fix_div_self: "- (2 ^ 31) \<le> x \<Longrightarrow> x < 2 ^ 31 \<Longrightarrow> x \<noteq> 0 \<Longrightarrow> fix_div x x = Some FIX_F"
  using cdiv_mult [of x "FIX_F"] by (simp add: fix_div_def mk_fix_def mult.commute [of x] s32_def)

lemma fix_compare_sgn: "fix_compare x y = sgn (x - y)"
  by (simp add: fix_compare_def)

end
