(* ===== verification/Spec2Isabelle.thy ===== *)
theory Spec2Isabelle
  imports Klist_Props Inode_Append Thread_Props Hash Arith Stdio_Props Directory_Props Paging_Boot Fixed_Point
begin

text \<open>
  A verification development for the Pintos kernel under src/pintos/src.

  \<^bold>\<open>Theories.\<close>
  \<^item> \<open>Prelude\<close>: C scalars, faults, sequencing of fallible routines.
  \<^item> \<open>Klist\<close>, \<open>Klist_Algo\<close>, \<open>Klist_Props\<close>: lib/kernel/list.c on an explicit pointer heap.
\<close>

end
